(* ===== verification/Prelude.thy ===== *)
theory Prelude
  imports Main "HOL-Library.Word" "HOL-Library.Multiset" "HOL-Library.List_Lexorder"
    "HOL-Library.Char_ord"
begin

unbundle bit_operations_syntax

text \<open>
  Shared vocabulary of the development: Go's machine integers as words, byte strings, the
  collections of simplification rules the component theories extend, and the generic lemmas on
  signed arithmetic, lists and maps that the component proofs rely on.
\<close>

section \<open>Types\<close>

type_synonym int32 = "32 word"
type_synonym int64 = "64 word"
type_synonym uint64 = "64 word"
type_synonym bytes = "8 word list"

text \<open>
  A Go function that returns \<^verbatim>\<open>(T, error)\<close> is a sum: \<^term>\<open>Inl\<close> carries the error and
  \<^term>\<open>Inr\<close> the value. Go's \<^verbatim>\<open>string\<close> is a byte sequence, which is what \<^typ>\<open>string\<close>
  is here; \<^verbatim>\<open>int32\<close>, \<^verbatim>\<open>int64\<close> and \<^verbatim>\<open>uint64\<close> are words, read with \<^term>\<open>sint\<close> where
  the source compares them as signed numbers.
\<close>

named_theorems sword_simps \<open>exactness of signed 64-bit arithmetic\<close>
named_theorems go_defs \<open>definitions of standard-library helpers, unfolded in component proofs\<close>

section \<open>Signed 64-bit arithmetic\<close>

lemma sint64_bounds: "- (2 ^ 63) \<le> sint (x :: int64)" "sint (x :: int64) < 2 ^ 63"
  using sint_range_size [of x] by (simp_all add: word_size)

lemma sint_add_exact [sword_simps]:
  fixes a b :: int64
  assumes "- (2 ^ 63) \<le> sint a + sint b" and "sint a + sint b < 2 ^ 63"
  shows "sint (a + b) = sint a + sint b"
  using assms by (simp add: sint_word_add signed_take_bit_int_eq_self)

lemma signed_take_bit_add64: "signed_take_bit 63 (k + 2 ^ 64) = signed_take_bit 63 (k :: int)"
proof -
  have "(k + 2 ^ 64 + 2 ^ 63) mod 2 ^ 64 = (k + 2 ^ 63 + 2 ^ 64) mod 2 ^ 64"
    by (simp add: algebra_simps)
  also have "\<dots> = (k + 2 ^ 63) mod 2 ^ 64" by (rule mod_add_self2)
  finally show ?thesis by (simp add: signed_take_bit_eq_take_bit_shift take_bit_eq_mod)
qed

lemma sint_add_wrap_high:
  fixes a b :: int64
  assumes "2 ^ 63 \<le> sint a + sint b"
  shows "sint (a + b) = sint a + sint b - 2 ^ 64"
proof -
  have "sint (a + b) = signed_take_bit 63 (sint a + sint b)"
    by (simp add: sint_word_add)
  also have "\<dots> = signed_take_bit 63 (sint a + sint b - 2 ^ 64)"
    using signed_take_bit_add64 [of "sint a + sint b - 2 ^ 64"] by simp
  also have "\<dots> = sint a + sint b - 2 ^ 64"
    using sint64_bounds [of a] sint64_bounds [of b] assms
    by (simp add: signed_take_bit_int_eq_self)
  finally show ?thesis .
qed

lemma sint_add_wrap_low:
  fixes a b :: int64
  assumes "sint a + sint b < - (2 ^ 63)"
  shows "sint (a + b) = sint a + sint b + 2 ^ 64"
proof -
  have "sint (a + b) = signed_take_bit 63 (sint a + sint b)"
    by (simp add: sint_word_add)
  also have "\<dots> = signed_take_bit 63 (sint a + sint b + 2 ^ 64)"
    using signed_take_bit_add64 [of "sint a + sint b"] by simp
  also have "\<dots> = sint a + sint b + 2 ^ 64"
    using sint64_bounds [of a] sint64_bounds [of b] assms
    by (simp add: signed_take_bit_int_eq_self)
  finally show ?thesis .
qed

text \<open>
  With a non-negative left operand a signed sum is negative exactly when the mathematical sum
  leaves the range of non-negative 64-bit numbers, on either side.
\<close>

lemma sint_add_neg_iff:
  fixes a b :: int64
  assumes "0 \<le> sint a"
  shows "sint (a + b) < 0 \<longleftrightarrow> sint a + sint b < 0 \<or> 2 ^ 63 \<le> sint a + sint b"
proof (cases "2 ^ 63 \<le> sint a + sint b")
  case True
  then show ?thesis
    using sint64_bounds [of a] sint64_bounds [of b] by (simp add: sint_add_wrap_high)
next
  case False
  then have "sint (a + b) = sint a + sint b"
    using assms sint64_bounds [of b] by (intro sint_add_exact) auto
  with False show ?thesis by simp
qed

lemma sint64_eq_iff [simp]: "sint (a :: int64) = sint b \<longleftrightarrow> a = b"
  by (auto intro: signed_word_eqI)

lemma word_sless_zero [simp]: "(x :: int64) <s 0 \<longleftrightarrow> sint x < 0"
  by (simp add: word_sless_alt)

lemma sint_inc_exact:
  fixes v :: int64
  assumes "sint v < 2 ^ 63 - 1"
  shows "sint (v + 1) = sint v + 1"
  using assms sint64_bounds [of v] sint_add_exact [of v 1] by simp

lemma sint_of_nat64: "n < 2 ^ 63 \<Longrightarrow> sint (of_nat n :: int64) = int n"
  by (simp add: signed_of_nat signed_take_bit_int_eq_self)

lemma unat_of_nat64: "n < 2 ^ 64 \<Longrightarrow> unat (of_nat n :: uint64) = n"
  by (simp add: unsigned_of_nat take_bit_nat_eq_self)

lemma unat_sint_pos:
  assumes "0 \<le> sint (x :: int64)"
  shows "int (unat x) = sint x"
proof -
  have "x = of_nat (nat (sint x))" using assms by simp
  moreover have "nat (sint x) < 2 ^ 64" using sint64_bounds(2) [of x] by (simp add: nat_less_iff)
  ultimately have "unat x = nat (sint x)" using unat_of_nat64 by metis
  then show ?thesis using assms by simp
qed

text \<open>Repetition by a literal number, for the evaluation of schedules.\<close>

lemma replicate_numeral: "replicate (numeral k) x = x # replicate (pred_numeral k) x"
  by (simp add: numeral_eq_Suc)

section \<open>Strings of the standard library\<close>

text \<open>\<^verbatim>\<open>strings.HasPrefix\<close>, \<^verbatim>\<open>strings.TrimPrefix\<close> and \<^verbatim>\<open>strings.TrimRight\<close> with a
  one-character cutset.\<close>

definition HasPrefix :: "string \<Rightarrow> string \<Rightarrow> bool" where [go_defs]:
  "HasPrefix s p \<longleftrightarrow> take (length p) s = p"

definition TrimPrefix :: "string \<Rightarrow> string \<Rightarrow> string" where [go_defs]:
  "TrimPrefix s p = (if HasPrefix s p then drop (length p) s else s)"

definition TrimRight :: "string \<Rightarrow> char \<Rightarrow> string" where [go_defs]:
  "TrimRight s c = rev (dropWhile (\<lambda>d. d = c) (rev s))"

lemma HasPrefix_append [simp]: "HasPrefix (p @ s) p"
  by (simp add: HasPrefix_def)

lemma HasPrefix_iff: "HasPrefix s p \<longleftrightarrow> (\<exists>t. s = p @ t)"
  unfolding HasPrefix_def by (metis append_eq_conv_conj append_take_drop_id)

lemma TrimPrefix_append [simp]: "TrimPrefix (p @ s) p = s"
  by (simp add: TrimPrefix_def)

lemma TrimRight_snoc [simp]: "TrimRight (s @ [c]) c = TrimRight s c"
  by (simp add: TrimRight_def)

lemma TrimRight_last: "TrimRight s c \<noteq> [] \<Longrightarrow> last (TrimRight s c) \<noteq> c"
  unfolding TrimRight_def
  by (metis (full_types) hd_dropWhile last_rev rev_is_Nil_conv)

lemma TrimRight_idem [simp]: "TrimRight (TrimRight s c) c = TrimRight s c"
proof (cases "TrimRight s c = []")
  case True
  then show ?thesis by (simp add: TrimRight_def)
next
  case False
  then obtain xs x where "TrimRight s c = xs @ [x]" by (metis append_butlast_last_id)
  moreover from this False have "x \<noteq> c" using TrimRight_last [of s c] by simp
  ultimately show ?thesis by (simp add: TrimRight_def)
qed

section \<open>Byte order\<close>

text \<open>
  \<^verbatim>\<open>binary.BigEndian\<close>. \<^verbatim>\<open>Uint64\<close> reads the first eight bytes and panics on a shorter slice;
  every caller in the repository checks the length first, so the reader is only ever applied to
  at least eight bytes.
\<close>

definition BigEndian_PutUint64 :: "uint64 \<Rightarrow> bytes" where
  "BigEndian_PutUint64 v = map (\<lambda>i. ucast (drop_bit (8 * i) v)) (rev [0..<8])"

definition BigEndian_Uint64 :: "bytes \<Rightarrow> uint64" where
  "BigEndian_Uint64 b = foldl (\<lambda>acc x. push_bit 8 acc OR ucast x) 0 (take 8 b)"

lemma length_PutUint64 [simp]: "length (BigEndian_PutUint64 v) = 8"
  by (simp add: BigEndian_PutUint64_def)

lemma foldl_bytes:
  "foldl (\<lambda>acc x. push_bit 8 acc OR ucast (x :: 8 word)) acc
     (map (\<lambda>i. ucast (drop_bit (8 * i) v)) (rev [0..<k]))
   = push_bit (8 * k) acc OR take_bit (8 * k) (v :: uint64)"
proof (induction k arbitrary: acc)
  case 0
  then show ?case by simp
next
  case (Suc k)
  show ?case
    by (simp add: Suc.IH, rule bit_word_eqI)
      (auto simp: bit_or_iff bit_push_bit_iff bit_take_bit_iff bit_unsigned_iff bit_drop_bit_eq ac_simps)
qed

lemma BigEndian_roundtrip [simp]: "BigEndian_Uint64 (BigEndian_PutUint64 v) = v"
  using foldl_bytes [of 0 v 8]
  by (simp add: BigEndian_Uint64_def BigEndian_PutUint64_def take_bit_word_eq_self del: upt_rec_numeral)

section \<open>Decimal text\<close>

text \<open>\<^verbatim>\<open>strconv.FormatUint(n, 10)\<close> and the \<^verbatim>\<open>%d\<close> verb of \<^verbatim>\<open>fmt\<close>.\<close>

definition digit_char :: "nat \<Rightarrow> char" where
  "digit_char d = char_of (48 + d)"

fun FormatUint :: "nat \<Rightarrow> string" where
  "FormatUint n = (if n < 10 then [digit_char n]
     else FormatUint (n div 10) @ [digit_char (n mod 10)])"

declare FormatUint.simps [simp del]

definition FormatInt :: "int \<Rightarrow> string" where
  "FormatInt i = (if i < 0 then ''-'' @ FormatUint (nat (- i)) else FormatUint (nat i))"

section \<open>Sums over a family with finite support\<close>

text \<open>What a family of places (goroutines, mailboxes) holds in total; almost all of them are empty.\<close>

definition fsum :: "('i \<Rightarrow> 'a::comm_monoid_add) \<Rightarrow> 'a" where
  "fsum f = (\<Sum>i \<in> {i. f i \<noteq> 0}. f i)"

definition fin_supp :: "('i \<Rightarrow> 'a::comm_monoid_add) \<Rightarrow> bool" where
  "fin_supp f \<longleftrightarrow> finite {i. f i \<noteq> 0}"

lemma fin_supp_upd [simp]: "fin_supp f \<Longrightarrow> fin_supp (f(i := x))"
  unfolding fin_supp_def by (rule finite_subset [of _ "insert i {j. f j \<noteq> 0}"]) auto

lemma fin_supp_zero [simp]: "fin_supp (\<lambda>_. 0)"
  by (simp add: fin_supp_def)

lemma fsum_zero [simp]: "fsum (\<lambda>_. 0) = 0"
  by (simp add: fsum_def)

lemma fsum_superset:
  "finite A \<Longrightarrow> {i. f i \<noteq> 0} \<subseteq> A \<Longrightarrow> fsum f = (\<Sum>i \<in> A. f i)"
  unfolding fsum_def by (intro sum.mono_neutral_left) auto

lemma fsum_remove:
  assumes "fin_supp f"
  shows "fsum f = f i + fsum (f(i := 0))"
proof -
  let ?A = "insert i {j. f j \<noteq> 0}"
  have A: "finite ?A" using assms by (simp add: fin_supp_def)
  have "fsum f = f i + (\<Sum>j \<in> ?A - {i}. f j)"
    using fsum_superset [OF A, of f] sum.remove [OF A, of i f] by auto
  moreover have "fsum (f(i := 0)) = (\<Sum>j \<in> ?A - {i}. (f(i := 0)) j)"
    using A by (intro fsum_superset) auto
  moreover have "(\<Sum>j \<in> ?A - {i}. (f(i := 0)) j) = (\<Sum>j \<in> ?A - {i}. f j)"
    by (rule sum.cong) auto
  ultimately show ?thesis by simp
qed

lemma fsum_upd:
  assumes "fin_supp f"
  shows "fsum (f(i := x)) = x + fsum (f(i := 0))"
  using fsum_remove [OF fin_supp_upd [OF assms], of i x i] by simp

lemma fsum_upd_add: "fin_supp f \<Longrightarrow> fsum (f(i := x)) + f i = fsum f + x"
  using fsum_upd [of f i x] fsum_remove [of f i] by (simp add: add_ac)

lemma fsum_mset_mem:
  fixes f :: "'i \<Rightarrow> 'b multiset"
  assumes "fin_supp f"
  shows "f i \<subseteq># fsum f" and "i \<noteq> j \<Longrightarrow> f i + f j \<subseteq># fsum f"
proof -
  show "f i \<subseteq># fsum f" using fsum_remove [OF assms, of i] by simp
  assume "i \<noteq> j"
  then have "fsum (f(i := 0)) = f j + fsum (f(i := 0, j := 0))"
    using fsum_remove [of "f(i := 0)" j] assms by simp
  then have "fsum f = f i + f j + fsum (f(i := 0, j := 0))"
    using fsum_remove [OF assms, of i] by (simp add: add_ac)
  then show "f i + f j \<subseteq># fsum f" by (metis mset_subset_eq_add_left)
qed

lemma count_add_le_1D:
  assumes "count (A + B + C) k \<le> (1::nat)"
  shows "k \<in># A \<Longrightarrow> k \<notin># B + C" "count C k \<le> 1" "k \<in># C \<Longrightarrow> k \<notin># B"
  using assms by (auto simp: not_in_iff Suc_le_eq simp flip: count_greater_zero_iff)

text \<open>Balance equations add up.\<close>

lemma add_eqs:
  fixes a b c a' b' c' x y z x' y' z' :: "'a :: comm_monoid_add"
  shows "a' + x = a + x' \<Longrightarrow> b' + y = b + y' \<Longrightarrow> a' + b' + x + y = a + b + x' + y'"
    and "a' + x = a + x' \<Longrightarrow> b' + y = b + y' \<Longrightarrow> c' + z = c + z' \<Longrightarrow>
      a' + b' + c' + x + y + z = a + b + c + x' + y' + z'"
proof -
  show two: "a' + b' + x + y = a + b + x' + y'" if "a' + x = a + x'" "b' + y = b + y'"
    for a' b' x y a b x' y' :: 'a
  proof -
    have "a' + b' + x + y = (a' + x) + (b' + y)" by (simp add: add_ac)
    also have "\<dots> = (a + x') + (b + y')" by (simp only: that)
    finally show ?thesis by (simp add: add_ac)
  qed
  show "a' + b' + c' + x + y + z = a + b + c + x' + y' + z'"
    if "a' + x = a + x'" "b' + y = b + y'" "c' + z = c + z'"
  proof -
    have "(a' + b') + c' + (x + y) + z = (a + b) + c + (x' + y') + z'"
      by (rule two) (use two [OF that(1,2)] that(3) in \<open>simp_all add: add_ac\<close>)
    then show ?thesis by (simp add: add_ac)
  qed
qed

text \<open>Tagged elements whose second components are unique.\<close>

lemma mset_eq_by_snd:
  assumes "image_mset snd A = image_mset snd B" and "\<forall>k. count (image_mset snd A) k \<le> 1" and "set_mset B \<subseteq> set_mset A"
  shows "A = B"
  using assms
proof (induction A arbitrary: B)
  case (add p A)
  have p: "snd p \<notin># image_mset snd A" unfolding not_in_iff using add.prems(2) [rule_format, of "snd p"] by simp
  have "snd p \<in># image_mset snd B" by (simp flip: add.prems(1))
  then obtain q where q: "q \<in># B" "snd q = snd p" by auto
  then have "q = p" using add.prems(3) p by (metis image_eqI in_image_mset insertE set_mset_add_mset_insert subsetD)
  with q obtain B' where B: "B = add_mset p B'" by (meson multi_member_split)
  have eq: "image_mset snd A = image_mset snd B'" using add.prems(1) B by simp
  have "set_mset B' \<subseteq> set_mset A"
  proof
    fix x assume x: "x \<in># B'"
    then have "snd x \<in># image_mset snd A" using eq by simp
    with p have "x \<noteq> p" by blast
    with x B add.prems(3) show "x \<in># A" by auto
  qed
  moreover have "\<forall>k. count (image_mset snd A) k \<le> 1"
  proof
    fix k show "count (image_mset snd A) k \<le> 1" using add.prems(2) [rule_format, of k] by (simp split: if_splits)
  qed
  ultimately show ?case using add.IH [OF eq] B by simp
qed simp

end
