(* ===== verification/Messages.thy ===== *)
theory Messages
  imports Prelude
begin

text \<open>
  The wire vocabulary of \<^verbatim>\<open>pkg/remote\<close>: the protobuf messages as records and the stable
  error strings of \<^verbatim>\<open>errors.go\<close>. A nil \<^verbatim>\<open>*pb.RemoteEnvelope\<close> is \<^term>\<open>None\<close> wherever the
  source can meet one.
\<close>

section \<open>Protobuf messages\<close>

record RemoteEnvelope =
  env_TenantId :: int32
  env_Uid :: int64
  env_TxId :: string
  env_RequestId :: uint64
  env_OpCode :: int32
  env_Payload :: bytes
  env_DeadlineUnixMs :: int64

record RemoteResult =
  res_TenantId :: int32
  res_Uid :: int64
  res_TxId :: string
  res_RequestId :: uint64
  res_OpCode :: int32
  res_Success :: bool
  res_ErrorCode :: string
  res_ErrorMsg :: string
  res_Payload :: bytes

text \<open>A freshly allocated message has every field at its zero value.\<close>

definition zero_RemoteResult :: RemoteResult where
  "zero_RemoteResult = \<lparr>res_TenantId = 0, res_Uid = 0, res_TxId = '''', res_RequestId = 0,
     res_OpCode = 0, res_Success = False, res_ErrorCode = '''', res_ErrorMsg = '''',
     res_Payload = []\<rparr>"

text \<open>
  The literal \<^verbatim>\<open>&pb.RemoteResult{TenantId: env.TenantId, ..., Success: false, ...}\<close> that the
  node and the client build at each refusal: identity copied from the envelope, an error code
  and an error message.
\<close>

definition errorResult :: "RemoteEnvelope \<Rightarrow> string \<Rightarrow> string \<Rightarrow> RemoteResult" where
  "errorResult env errCode errMsg = zero_RemoteResult\<lparr>res_TenantId := env_TenantId env,
     res_Uid := env_Uid env, res_TxId := env_TxId env, res_RequestId := env_RequestId env,
     res_OpCode := env_OpCode env, res_Success := False, res_ErrorCode := errCode,
     res_ErrorMsg := errMsg\<rparr>"

section \<open>Error strings\<close>

definition ErrBadRequest :: string where "ErrBadRequest = ''ERR_BAD_REQUEST''"
definition ErrTransportClosed :: string where "ErrTransportClosed = ''ERR_TRANSPORT_CLOSED''"
definition ErrBatchTooLarge :: string where "ErrBatchTooLarge = ''ERR_BATCH_TOO_LARGE''"
definition ErrDeadlineExceeded :: string where
  "ErrDeadlineExceeded = ''ERR_DEADLINE_EXCEEDED''"
definition ErrInternal :: string where "ErrInternal = ''ERR_INTERNAL''"
definition ErrWrongNode :: string where "ErrWrongNode = ''ERR_WRONG_NODE''"
definition ErrActorUnavailable :: string where
  "ErrActorUnavailable = ''ERR_ACTOR_UNAVAILABLE''"
definition ErrPayloadTooLarge :: string where
  "ErrPayloadTooLarge = ''ERR_PAYLOAD_TOO_LARGE''"
definition ErrRehydrationFailed :: string where
  "ErrRehydrationFailed = ''ERR_REHYDRATION_FAILED''"
definition ErrNodeOverloaded :: string where "ErrNodeOverloaded = ''ERR_NODE_OVERLOADED''"
definition ErrInvalidPayload :: string where "ErrInvalidPayload = ''ERR_INVALID_PAYLOAD''"
definition ErrInsufficientFunds :: string where
  "ErrInsufficientFunds = ''ERR_INSUFFICIENT_FUNDS''"
definition ErrPersistenceFailed :: string where
  "ErrPersistenceFailed = ''ERR_PERSISTENCE_FAILED''"
definition ErrDiscovery :: string where "ErrDiscovery = ''ERR_DISCOVERY''"
definition ErrConnection :: string where "ErrConnection = ''ERR_CONNECTION''"
definition ErrStreamInterrupted :: string where
  "ErrStreamInterrupted = ''ERR_STREAM_INTERRUPTED''"

lemmas error_code_defs =
  ErrBadRequest_def ErrTransportClosed_def ErrBatchTooLarge_def ErrDeadlineExceeded_def
  ErrInternal_def ErrWrongNode_def ErrActorUnavailable_def ErrPayloadTooLarge_def
  ErrRehydrationFailed_def ErrNodeOverloaded_def ErrInvalidPayload_def ErrInsufficientFunds_def
  ErrPersistenceFailed_def ErrDiscovery_def ErrConnection_def ErrStreamInterrupted_def

text \<open>The identity of a request: what a result must repeat so that it can be routed back.\<close>

definition result_of :: "RemoteEnvelope \<Rightarrow> RemoteResult \<Rightarrow> bool" where
  "result_of env r \<longleftrightarrow> res_TenantId r = env_TenantId env \<and> res_Uid r = env_Uid env \<and>
     res_TxId r = env_TxId env \<and> res_RequestId r = env_RequestId env \<and>
     res_OpCode r = env_OpCode env"

lemma errorResult_result_of [simp]: "result_of env (errorResult env c m)"
  by (simp add: result_of_def errorResult_def)

lemma errorResult_sel [simp]:
  "res_Success (errorResult env c m) = False"
  "res_ErrorCode (errorResult env c m) = c"
  "res_ErrorMsg (errorResult env c m) = m"
  "res_TenantId (errorResult env c m) = env_TenantId env"
  "res_Uid (errorResult env c m) = env_Uid env"
  "res_RequestId (errorResult env c m) = env_RequestId env"
  by (simp_all add: errorResult_def)

end
