(* ===== verification/Routing.thy ===== *)
theory Routing
  imports Messages
begin

text \<open>
  \<^verbatim>\<open>pkg/discovery/table.go\<close>: the slot hash, the modulo owner function, the prebuilt routing
  table and the table lookup, with the errors of \<^verbatim>\<open>resolver.go\<close>.
\<close>

section \<open>Definitions\<close>

definition PartitionSlots :: nat where
  "PartitionSlots = 1024"

definition slotMask :: uint64 where
  "slotMask = 1023"

text \<open>The SplitMix64-style finalizer inside \<^verbatim>\<open>SlotOf\<close>, then \<^verbatim>\<open>SlotOf\<close> itself.\<close>

definition xorshift33 :: "uint64 \<Rightarrow> uint64" where
  "xorshift33 x = x XOR drop_bit 33 x"

definition SlotOf :: "int32 \<Rightarrow> int64 \<Rightarrow> nat" where
  "SlotOf tenantID uid =
     (let x0 = push_bit 32 (ucast tenantID) XOR uid;
          x1 = xorshift33 x0;
          x2 = x1 * 0xff51afd7ed558ccd;
          x3 = xorshift33 x2;
          x4 = x3 * 0xc4ceb9fe1a85ec53;
          x5 = xorshift33 x4
      in unat (x5 AND slotMask))"

type_synonym SlotOwnerFunc = "string list \<Rightarrow> nat \<Rightarrow> string"

definition ModuloSlotOwner :: SlotOwnerFunc where
  "ModuloSlotOwner sortedNodeAddrs slot =
     (if length sortedNodeAddrs = 0 then ''''
      else sortedNodeAddrs ! (slot mod length sortedNodeAddrs))"

type_synonym Table = "string list"

definition BuildRoutingTable :: "string list \<Rightarrow> SlotOwnerFunc option \<Rightarrow> Table" where
  "BuildRoutingTable sortedNodeAddrs owner =
     (if length sortedNodeAddrs = 0 then replicate PartitionSlots ''''
      else let ownerFn = (case owner of None \<Rightarrow> ModuloSlotOwner | Some f \<Rightarrow> f)
           in map (\<lambda>slot. ownerFn sortedNodeAddrs slot) [0..<PartitionSlots])"

datatype discovery_error = ErrTableNotInitialized | ErrNoOwner

definition GetNodeIP :: "Table option \<Rightarrow> int32 \<Rightarrow> int64 \<Rightarrow> discovery_error + string" where
  "GetNodeIP table tenantID uid =
     (case table of
        None \<Rightarrow> Inl ErrTableNotInitialized
      | Some t \<Rightarrow> (let ip = t ! SlotOf tenantID uid
                   in if ip = '''' then Inl ErrNoOwner else Inr ip))"

section \<open>The slot hash\<close>

lemma xorshift33_involutive: "xorshift33 (xorshift33 x) = x"
  unfolding xorshift33_def
  by (rule bit_word_eqI) (auto simp: bit_xor_iff bit_drop_bit_eq dest: bit_imp_le_length)

lemma bij_xorshift33: "bij xorshift33"
  by (rule involuntory_imp_bij) (rule xorshift33_involutive)

lemma bij_times_unit:
  fixes c d :: uint64
  assumes "c * d = 1"
  shows "bij (\<lambda>x. x * c)"
proof (rule bij_betw_byWitness [where f' = "\<lambda>x. x * d"])
  show "\<forall>a\<in>UNIV. a * c * d = a" using assms by (simp add: mult.assoc)
  show "\<forall>a'\<in>UNIV. a' * d * c = a'" using assms by (simp add: mult.assoc mult.commute [of d c])
qed auto

definition mix64 :: "uint64 \<Rightarrow> uint64" where
  "mix64 = xorshift33 \<circ> (\<lambda>x. x * 0xc4ceb9fe1a85ec53) \<circ> xorshift33
     \<circ> (\<lambda>x. x * 0xff51afd7ed558ccd) \<circ> xorshift33"

lemma bij_mix64: "bij mix64"
proof -
  have 1: "bij (\<lambda>x :: uint64. x * 0xc4ceb9fe1a85ec53)"
    by (rule bij_times_unit [where d = "0x9cb4b2f8129337db"]) simp
  have 2: "bij (\<lambda>x :: uint64. x * 0xff51afd7ed558ccd)"
    by (rule bij_times_unit [where d = "0x4f74430c22a54005"]) simp
  show ?thesis
    unfolding mix64_def by (intro bij_comp bij_xorshift33 1 2)
qed

lemma and_slotMask: "unat (y AND slotMask) = unat y mod 1024"
proof -
  have "y AND slotMask = take_bit 10 y"
    by (simp add: slotMask_def take_bit_eq_mask mask_eq_exp_minus_1 and.commute)
  then have "unat (y AND slotMask) = take_bit 10 (unat y)"
    by (simp only: unsigned_take_bit_eq)
  then show ?thesis by (simp add: take_bit_eq_mod)
qed

lemma SlotOf_mix64: "SlotOf t u = unat (mix64 (push_bit 32 (ucast t) XOR u)) mod 1024"
  by (simp add: SlotOf_def mix64_def and_slotMask)

lemma SlotOf_less [simp]: "SlotOf t u < PartitionSlots"
  by (simp add: SlotOf_mix64 PartitionSlots_def)

lemma card_residue_class:
  assumes "s < 1024"
  shows "card {y :: uint64. unat y mod 1024 = s} = 2 ^ 54"
proof -
  let ?f = "\<lambda>n :: nat. word_of_nat (n * 1024 + s) :: uint64"
  have small: "n * 1024 + s < 2 ^ 64" if "n < 2 ^ 54" for n using that assms by simp
  have un: "unat (?f n) = n * 1024 + s" if "n < 2 ^ 54" for n
    using small [OF that] by (simp add: unsigned_of_nat take_bit_nat_eq_self del: of_nat_add of_nat_mult)
  have "bij_betw ?f {..<2 ^ 54} {y. unat y mod 1024 = s}"
  proof (rule bij_betw_byWitness [where f' = "\<lambda>y. unat y div 1024"])
    show "\<forall>a\<in>{..<2 ^ 54}. unat (?f a) div 1024 = a"
      using assms by (simp add: un del: of_nat_add of_nat_mult)
    show "\<forall>y\<in>{y. unat y mod 1024 = s}. ?f (unat y div 1024) = y"
      by (auto simp del: of_nat_add of_nat_mult)
    show "?f ` {..<2 ^ 54} \<subseteq> {y. unat y mod 1024 = s}"
      using assms by (auto simp: un simp del: of_nat_add of_nat_mult)
    show "(\<lambda>y. unat y div 1024) ` {y :: uint64. unat y mod 1024 = s} \<subseteq> {..<2 ^ 54}"
    proof clarsimp
      fix y :: uint64
      have "unat y < 2 ^ 64" using unsigned_less [of y] by simp
      then show "unat y div 1024 < 18014398509481984" by simp
    qed
  qed
  then show ?thesis using bij_betw_same_card by fastforce
qed

lemma bij_xor_const: "bij (\<lambda>u :: uint64. c XOR u)"
  by (rule involuntory_imp_bij) (simp add: xor.left_commute flip: xor.assoc)

lemma card_slot:
  assumes "s < PartitionSlots"
  shows "card {u. SlotOf t u = s} = 2 ^ 54"
proof -
  let ?g = "mix64 \<circ> (\<lambda>u. push_bit 32 (ucast t) XOR u)"
  have "bij ?g" by (intro bij_comp bij_mix64 bij_xor_const)
  moreover have "{u. SlotOf t u = s} = ?g -` {y. unat y mod 1024 = s}"
    by (auto simp: SlotOf_mix64)
  moreover have "card (?g -` {y. unat y mod 1024 = s}) = card {y :: uint64. unat y mod 1024 = s}"
    by (rule card_vimage_inj) (use \<open>bij ?g\<close> in \<open>auto dest: bij_is_inj bij_is_surj\<close>)
  ultimately have "card {u. SlotOf t u = s} = card {y :: uint64. unat y mod 1024 = s}"
    by (simp only:)
  then show ?thesis using assms card_residue_class by (simp add: PartitionSlots_def)
qed

section \<open>The routing table\<close>

lemma length_BuildRoutingTable [simp]: "length (BuildRoutingTable addrs owner) = PartitionSlots"
  by (simp add: BuildRoutingTable_def Let_def)

lemma nth_BuildRoutingTable_modulo:
  assumes "addrs \<noteq> []" and "slot < PartitionSlots"
  shows "BuildRoutingTable addrs None ! slot = addrs ! (slot mod length addrs)"
  using assms by (simp add: BuildRoutingTable_def ModuloSlotOwner_def)

lemma GetNodeIP_Build_empty [simp]: "GetNodeIP (Some (BuildRoutingTable [] owner)) t u = Inl ErrNoOwner"
  using SlotOf_less [of t u] by (simp add: GetNodeIP_def BuildRoutingTable_def)

lemma GetNodeIP_Build:
  assumes "addrs \<noteq> []" and "'''' \<notin> set addrs"
  shows "GetNodeIP (Some (BuildRoutingTable addrs None)) t u
    = Inr (addrs ! (SlotOf t u mod length addrs))"
proof -
  have "addrs ! (SlotOf t u mod length addrs) \<in> set addrs"
    using assms(1) by simp
  with assms(2) have "addrs ! (SlotOf t u mod length addrs) \<noteq> ''''" by metis
  with assms(1) show ?thesis
    by (simp add: GetNodeIP_def nth_BuildRoutingTable_modulo Let_def)
qed

lemma GetNodeIP_nonempty: "GetNodeIP tab t u = Inr ip \<Longrightarrow> ip \<noteq> ''''"
  by (auto simp: GetNodeIP_def Let_def split: option.splits if_splits)

text \<open>How many slots below \<^term>\<open>m\<close> fall on residue \<^term>\<open>i\<close>.\<close>

lemma length_filter_mod:
  assumes "i < n"
  shows "length (filter (\<lambda>k. k mod n = i) [0..<m]) = m div n + (if i < m mod n then 1 else 0)"
proof (induction m)
  case 0
  then show ?case by simp
next
  case (Suc m)
  have "Suc m div n = (if Suc (m mod n) = n then Suc (m div n) else m div n)"
    using assms by (simp add: div_Suc mod_Suc)
  moreover have "Suc m mod n = (if Suc (m mod n) = n then 0 else Suc (m mod n))"
    by (simp add: mod_Suc)
  ultimately show ?case
    using Suc.IH assms by (auto simp: less_Suc_eq)
qed

lemma count_list_map_conv: "count_list (map f xs) y = length (filter (\<lambda>x. f x = y) xs)"
  by (induction xs) auto

lemma count_BuildRoutingTable:
  assumes "distinct addrs" and "i < length addrs"
  shows "count_list (BuildRoutingTable addrs None) (addrs ! i)
    = 1024 div length addrs + (if i < 1024 mod length addrs then 1 else 0)"
proof -
  let ?n = "length addrs"
  have n0: "0 < ?n" using assms(2) by linarith
  have "BuildRoutingTable addrs None = map (\<lambda>k. addrs ! (k mod ?n)) [0..<1024]"
    using n0 by (simp add: BuildRoutingTable_def ModuloSlotOwner_def PartitionSlots_def)
  then have "count_list (BuildRoutingTable addrs None) (addrs ! i)
      = length (filter (\<lambda>k. addrs ! (k mod ?n) = addrs ! i) [0..<1024])"
    by (simp only: count_list_map_conv)
  also have "\<dots> = length (filter (\<lambda>k. k mod ?n = i) [0..<1024])"
    using assms n0 by (auto simp: nth_eq_iff_index_eq intro!: arg_cong [where f = length] filter_cong)
  also have "\<dots> = 1024 div ?n + (if i < 1024 mod ?n then 1 else 0)"
    by (rule length_filter_mod [OF assms(2)])
  finally show ?thesis .
qed

section \<open>The resolver contract\<close>

text \<open>
  \<^verbatim>\<open>discovery.TopologyResolver\<close> as its clients (the node and the client's router) use it: a
  lookup that may update the resolver's bookkeeping but never what later lookups answer. The
  node accepts a key exactly when the answer is its own address.
\<close>

locale topology_resolver =
  fixes get_node_ip :: "'r \<Rightarrow> int32 \<Rightarrow> int64 \<Rightarrow> 'r \<times> ('e + string)"
  assumes lookup_stable:
    "snd (get_node_ip (fst (get_node_ip r t u)) t' u') = snd (get_node_ip r t' u')"
begin

definition owns :: "'r \<Rightarrow> string \<Rightarrow> int32 \<Rightarrow> int64 \<Rightarrow> bool" where
  "owns r myIP t u \<longleftrightarrow> snd (get_node_ip r t u) = Inr myIP"

lemma owner_unique: "owns r ip t u \<Longrightarrow> owns r ip' t u \<Longrightarrow> ip = ip'"
  by (simp add: owns_def)

lemma owner_stable: "owns (fst (get_node_ip r t u)) ip t' u' = owns r ip t' u'"
  by (simp add: owns_def lookup_stable)

end

section \<open>Properties\<close>

text \<open>C34: The slot hash stays in range, and for every tenant it spreads the 64-bit user ids over
  the 1024 slots perfectly evenly: each slot is hit by exactly \<^term>\<open>2 ^ 54 :: nat\<close> of them.\<close>

theorem SlotOf_uniform:
  "SlotOf tenantID uid < PartitionSlots \<and>
   (s < PartitionSlots \<longrightarrow> card {u. SlotOf tenantID u = s} = 2 ^ 54)"
  by (simp add: card_slot)

theorem SlotOf_uniform_witness:
  "777 < PartitionSlots \<and> SlotOf 1 42 < PartitionSlots \<and> card {u. SlotOf 1 u = 777} = 2 ^ 54"
proof -
  have h: "777 < PartitionSlots" by (simp add: PartitionSlots_def)
  with SlotOf_uniform [of 1 42 777] show ?thesis by blast
qed

text \<open>A table built from a non-empty list of addresses answers every lookup with the address
  at the key's slot modulo the number of nodes; a table built from no address answers every
  lookup with \<^const>\<open>ErrNoOwner\<close>, and a missing table with \<^const>\<open>ErrTableNotInitialized\<close>.\<close>

theorem GetNodeIP_total:
  assumes "'''' \<notin> set addrs"
  shows "GetNodeIP (Some (BuildRoutingTable addrs None)) t u =
      (if addrs = [] then Inl ErrNoOwner
       else Inr (addrs ! (SlotOf t u mod length addrs))) \<and>
    GetNodeIP None t u = Inl ErrTableNotInitialized"
  using assms by (simp add: GetNodeIP_Build GetNodeIP_def [of None])

theorem GetNodeIP_total_witness:
  "'''' \<notin> set [''a:1'', ''b:1''] \<and>
   GetNodeIP (Some (BuildRoutingTable [''a:1'', ''b:1''] None)) 1 7
     = Inr ''a:1''"
proof -
  have h: "'''' \<notin> set [''a:1'', ''b:1'']" by simp
  have "SlotOf 1 7 = 480"
    by (simp add: SlotOf_def xorshift33_def slotMask_def)
  with h GetNodeIP_total [OF h, of 1 7] show ?thesis by (simp flip: numeral_2_eq_2)
qed

text \<open>Slots are shared out evenly: among \<^term>\<open>n :: nat\<close> distinct addresses the node at
  position \<^term>\<open>i :: nat\<close> owns the integer quotient of the 1024 slots, plus one slot for the first
  nodes when the division is not exact; so two nodes never differ by more than one slot.\<close>

theorem slots_shared_evenly:
  assumes "distinct addrs" and "i < length addrs" and "j < length addrs"
  shows "count_list (BuildRoutingTable addrs None) (addrs ! i)
      = 1024 div length addrs + (if i < 1024 mod length addrs then 1 else 0) \<and>
    count_list (BuildRoutingTable addrs None) (addrs ! i)
      \<le> Suc (count_list (BuildRoutingTable addrs None) (addrs ! j))"
  using count_BuildRoutingTable [OF assms(1,2)] count_BuildRoutingTable [OF assms(1,3)] by simp

theorem slots_shared_evenly_witness:
  "distinct [''a:1'', ''b:1'', ''c:1''] \<and>
   count_list (BuildRoutingTable [''a:1'', ''b:1'', ''c:1''] None) ''a:1'' = 342"
proof -
  have d: "distinct [''a:1'', ''b:1'', ''c:1'']" by simp
  with slots_shared_evenly [OF d, of 0 1] show ?thesis by simp
qed

end
