(* ===== verification/Etcd.thy ===== *)
theory Etcd
  imports Routing
begin

text \<open>
  \<^verbatim>\<open>pkg/discovery/etcd_resolver.go\<close>: the self-registration of a node under an etcd lease and
  the resolver that turns the registered keys into a routing table and keeps it fresh. The etcd
  client is not part of the repository: it is a parameter, a record of the calls the code makes,
  each taking and returning the state \<^typ>\<open>'w\<close> of everything outside the process (etcd, the
  clock, the context that is cancelled by a signal).
\<close>

section \<open>Definitions\<close>

subsection \<open>Keys, events and prefixes\<close>

record KeyValue =
  kv_Key :: string

definition EventTypePut :: int32 where "EventTypePut = 0"
definition EventTypeDelete :: int32 where "EventTypeDelete = 1"

fun hasNodeTopologyEvent :: "int32 list \<Rightarrow> bool" where
  "hasNodeTopologyEvent [] = False"
| "hasNodeTopologyEvent (ty # events) =
     (if ty = EventTypePut \<or> ty = EventTypeDelete then True else hasNodeTopologyEvent events)"

text \<open>The loop of \<^verbatim>\<open>sortedNodeIPsFromKVs\<close> (with its two \<^verbatim>\<open>continue\<close>s), then the function.\<close>

fun nodeIPsLoop :: "string \<Rightarrow> KeyValue list \<Rightarrow> string list" where
  "nodeIPsLoop prefix [] = []"
| "nodeIPsLoop prefix (kv # kvs) =
     (let key = kv_Key kv in
      if \<not> HasPrefix key prefix then nodeIPsLoop prefix kvs
      else let ip = TrimPrefix key prefix in
           if ip = '''' then nodeIPsLoop prefix kvs
           else ip # nodeIPsLoop prefix kvs)"

definition sortedNodeIPsFromKVs :: "string \<Rightarrow> KeyValue list \<Rightarrow> string list" where
  "sortedNodeIPsFromKVs prefix kvs =
     (if length kvs = 0 then [] else sort (nodeIPsLoop prefix kvs))"

definition normalizeNodePrefix :: "string \<Rightarrow> string" where
  "normalizeNodePrefix prefix =
     (let trimmed = TrimRight prefix (CHR ''/'') in
      if trimmed = '''' then ''/'' else trimmed @ ''/'')"

subsection \<open>The etcd client as a parameter\<close>

datatype watch_input = WCtxDone | WClosed | WErr | WEvents "int32 list"

datatype ka_input = KACtxDone | KAClosed | KANil | KAResp

datatype sleep_input = SlCtxDone | SlTimer

record ('w, 'ch) etcd_client =
  ec_ctxErr :: "'w \<Rightarrow> bool"
  ec_timer :: "'w \<Rightarrow> int64 \<Rightarrow> 'w \<times> sleep_input"
  ec_Grant :: "'w \<Rightarrow> int64 \<Rightarrow> 'w \<times> (string + int64)"
  ec_Put :: "'w \<Rightarrow> string \<Rightarrow> string \<Rightarrow> int64 \<Rightarrow> 'w \<times> string option"
  ec_KeepAlive :: "'w \<Rightarrow> int64 \<Rightarrow> 'w \<times> (string + 'ch)"
  ec_recvKeepAlive :: "'w \<Rightarrow> 'ch \<Rightarrow> 'w \<times> ka_input"
  ec_Delete :: "'w \<Rightarrow> string \<Rightarrow> 'w \<times> string option"
  ec_Get :: "'w \<Rightarrow> string \<Rightarrow> 'w \<times> (string + KeyValue list)"
  ec_Watch :: "'w \<Rightarrow> string \<Rightarrow> 'w \<times> 'ch"
  ec_select :: "'w \<Rightarrow> 'ch \<Rightarrow> 'w \<times> watch_input"
  ec_Close :: "'w \<Rightarrow> 'w \<times> string option"

text \<open>
  \<^verbatim>\<open>sleepWithContext\<close> waits for the timer or for the end of the context; \<^term>\<open>ec_timer\<close> tells which came first.
  Durations are in nanoseconds.
\<close>

definition defaultLeaseTTL :: int64 where "defaultLeaseTTL = 5"
definition registerRetryBackoff :: int64 where "registerRetryBackoff = 200 * 1000000"
definition watchRetryBackoff :: int64 where "watchRetryBackoff = 100 * 1000000"

definition sleepWithContext :: "('w, 'ch) etcd_client \<Rightarrow> 'w \<Rightarrow> int64 \<Rightarrow> 'w \<times> bool" where
  "sleepWithContext c w d = (case ec_timer c w d of (w', SlCtxDone) \<Rightarrow> (w', False) | (w', SlTimer) \<Rightarrow> (w', True))"

subsection \<open>EtcdRegistry\<close>

record EtcdRegistry =
  er_nodePrefix :: string
  er_leaseTTL :: int64
  er_value :: string

definition NewEtcdRegistry :: "string \<Rightarrow> EtcdRegistry" where
  "NewEtcdRegistry nodePrefix =
     \<lparr>er_nodePrefix = normalizeNodePrefix nodePrefix, er_leaseTTL = defaultLeaseTTL, er_value = ''''\<rparr>"

text \<open>
  \<^verbatim>\<open>establishRegistration\<close> retries until the context is done, so it need not return:
  \<^term>\<open>None\<close> is \<^emph>\<open>still retrying\<close>. \<^term>\<open>Inl ()\<close> is the \<^verbatim>\<open>ctx.Err()\<close> return.
\<close>

partial_function (option) establishRegistration ::
    "('w, 'ch) etcd_client \<Rightarrow> EtcdRegistry \<Rightarrow> string \<Rightarrow> 'w \<Rightarrow> ('w \<times> (unit + 'ch)) option" where
  "establishRegistration c r key w =
     (if ec_ctxErr c w then Some (w, Inl ())
      else let (w1, leaseResp) = ec_Grant c w (er_leaseTTL r) in
        case leaseResp of
          Inl _ \<Rightarrow>
            (let (w', slept) = sleepWithContext c w1 registerRetryBackoff in
             if \<not> slept then Some (w', Inl ()) else establishRegistration c r key w')
        | Inr leaseID \<Rightarrow>
            (let (w2, putErr) = ec_Put c w1 key (er_value r) leaseID in
             if putErr \<noteq> None then
               (let (w', slept) = sleepWithContext c w2 registerRetryBackoff in
                if \<not> slept then Some (w', Inl ()) else establishRegistration c r key w')
             else let (w3, ka) = ec_KeepAlive c w2 leaseID in
               case ka of
                 Inl _ \<Rightarrow>
                   (let (w', slept) = sleepWithContext c w3 registerRetryBackoff in
                    if \<not> slept then Some (w', Inl ()) else establishRegistration c r key w')
               | Inr keepAliveCh \<Rightarrow> Some (w3, Inr keepAliveCh)))"

text \<open>
  \<^verbatim>\<open>consumeKeepAlive\<close>: \<^term>\<open>False\<close> when the context is done, \<^term>\<open>True\<close> when the keepalive
  stream ended, and no value while responses keep coming.
\<close>

partial_function (option) consumeKeepAlive ::
    "('w, 'ch) etcd_client \<Rightarrow> 'ch \<Rightarrow> 'w \<Rightarrow> ('w \<times> bool) option" where
  "consumeKeepAlive c ch w =
     (let (w', resp) = ec_recvKeepAlive c w ch in
      if resp = KACtxDone then Some (w', False)
      else if resp = KAClosed \<or> resp = KANil then Some (w', True)
      else consumeKeepAlive c ch w')"

partial_function (option) maintainRegistration ::
    "('w, 'ch) etcd_client \<Rightarrow> EtcdRegistry \<Rightarrow> string \<Rightarrow> 'ch \<Rightarrow> 'w \<Rightarrow> 'w option" where
  "maintainRegistration c r key currentCh w =
     Option.bind (consumeKeepAlive c currentCh w) (\<lambda>(w1, ended).
       if \<not> ended then Some w1
       else let (w2, slept) = sleepWithContext c w1 registerRetryBackoff in
         if \<not> slept then Some w2
         else Option.bind (establishRegistration c r key w2) (\<lambda>(w3, res).
           case res of
             Inl _ \<Rightarrow> Some w3
           | Inr nextCh \<Rightarrow> maintainRegistration c r key nextCh w3))"

text \<open>
  \<^verbatim>\<open>Register\<close> returns the error of the first registration, or the channel that the background
  \<^verbatim>\<open>maintainRegistration\<close> goroutine is started with.
\<close>

definition Register ::
    "('w, 'ch) etcd_client \<Rightarrow> EtcdRegistry \<Rightarrow> string \<Rightarrow> 'w \<Rightarrow> ('w \<times> (unit + 'ch)) option" where
  "Register c r ip w = establishRegistration c r (er_nodePrefix r @ ip) w"

definition Deregister ::
    "('w, 'ch) etcd_client \<Rightarrow> EtcdRegistry \<Rightarrow> string \<Rightarrow> 'w \<Rightarrow> 'w \<times> string option" where
  "Deregister c r ip w = ec_Delete c w (er_nodePrefix r @ ip)"

definition EtcdRegistry_Close :: "('w, 'ch) etcd_client \<Rightarrow> 'w \<Rightarrow> 'w \<times> string option" where
  "EtcdRegistry_Close c w = ec_Close c w"

subsection \<open>EtcdResolver\<close>

record EtcdResolver =
  rs_tab :: "Table option"
  rs_nodePrefix :: string
  rs_slotOwner :: "SlotOwnerFunc option"

definition NewEtcdResolver :: "string \<Rightarrow> EtcdResolver" where
  "NewEtcdResolver nodePrefix =
     \<lparr>rs_tab = None, rs_nodePrefix = normalizeNodePrefix nodePrefix,
      rs_slotOwner = Some ModuloSlotOwner\<rparr>"

definition EtcdResolver_GetNodeIP ::
    "EtcdResolver \<Rightarrow> int32 \<Rightarrow> int64 \<Rightarrow> EtcdResolver \<times> (discovery_error + string)" where
  "EtcdResolver_GetNodeIP r tenantID uid = (r, GetNodeIP (rs_tab r) tenantID uid)"

definition refreshSnapshot ::
    "('w, 'ch) etcd_client \<Rightarrow> EtcdResolver \<Rightarrow> 'w \<Rightarrow> EtcdResolver \<times> 'w \<times> string option" where
  "refreshSnapshot c r w =
     (case ec_Get c w (rs_nodePrefix r) of
        (w', Inl err) \<Rightarrow> (r, w', Some err)
      | (w', Inr kvs) \<Rightarrow>
          (let sortedIPs = sortedNodeIPsFromKVs (rs_nodePrefix r) kvs
           in (r\<lparr>rs_tab := Some (BuildRoutingTable sortedIPs (rs_slotOwner r))\<rparr>, w', None)))"

text \<open>
  \<^verbatim>\<open>watchLoop\<close> runs in its own goroutine while other goroutines read the table, so it is a step
  machine: \<^term>\<open>WOuter\<close> is the head of the outer loop, \<^term>\<open>WInner ch\<close> the \<^verbatim>\<open>select\<close> on the
  watch channel, \<^term>\<open>WReturned\<close> the end of the goroutine.
\<close>

datatype 'ch watch_pc = WOuter | WInner 'ch | WReturned

type_synonym ('w, 'ch) watch_state = "EtcdResolver \<times> 'w \<times> 'ch watch_pc"

definition watch_backoff ::
    "('w, 'ch) etcd_client \<Rightarrow> EtcdResolver \<Rightarrow> 'w \<Rightarrow> ('w, 'ch) watch_state" where
  "watch_backoff c r w =
     (case sleepWithContext c w watchRetryBackoff of
        (w', False) \<Rightarrow> (r, w', WReturned)
      | (w', True) \<Rightarrow> (r, w', WOuter))"

fun watch_step :: "('w, 'ch) etcd_client \<Rightarrow> ('w, 'ch) watch_state \<Rightarrow> ('w, 'ch) watch_state" where
  "watch_step c (r, w, WOuter) =
     (if ec_ctxErr c w then (r, w, WReturned)
      else case ec_Watch c w (rs_nodePrefix r) of (w', ch) \<Rightarrow> (r, w', WInner ch))"
| "watch_step c (r, w, WInner ch) =
     (case ec_select c w ch of
        (w', WCtxDone) \<Rightarrow> (r, w', WReturned)
      | (w', WClosed) \<Rightarrow> watch_backoff c r w'
      | (w', WErr) \<Rightarrow> watch_backoff c r w'
      | (w', WEvents events) \<Rightarrow>
          (if hasNodeTopologyEvent events
           then case refreshSnapshot c r w' of (r', w'', _) \<Rightarrow> (r', w'', WInner ch)
           else (r, w', WInner ch)))"
| "watch_step c (r, w, WReturned) = (r, w, WReturned)"

definition watchLoop ::
    "('w, 'ch) etcd_client \<Rightarrow> nat \<Rightarrow> EtcdResolver \<Rightarrow> 'w \<Rightarrow> ('w, 'ch) watch_state" where
  "watchLoop c n r w = (watch_step c ^^ n) (r, w, WOuter)"

text \<open>\<^verbatim>\<open>Watch\<close>: the first snapshot decides the returned error; without one the loop is started.\<close>

definition Watch ::
    "('w, 'ch) etcd_client \<Rightarrow> EtcdResolver \<Rightarrow> 'w \<Rightarrow> (string \<times> EtcdResolver \<times> 'w) + ('w, 'ch) watch_state" where
  "Watch c r w =
     (case refreshSnapshot c r w of
        (r', w', Some err) \<Rightarrow> Inl (err, r', w')
      | (r', w', None) \<Rightarrow> Inr (r', w', WOuter))"

definition EtcdResolver_Close :: "('w, 'ch) etcd_client \<Rightarrow> 'w \<Rightarrow> 'w \<times> string option" where
  "EtcdResolver_Close c w = ec_Close c w"

section \<open>From keys to sorted addresses\<close>

lemma hasNodeTopologyEvent_iff:
  "hasNodeTopologyEvent evs \<longleftrightarrow> EventTypePut \<in> set evs \<or> EventTypeDelete \<in> set evs"
  by (induction evs) auto

lemma nodeIPsLoop_conv:
  "nodeIPsLoop p kvs = filter (\<lambda>ip. ip \<noteq> '''')
     (map (\<lambda>kv. TrimPrefix (kv_Key kv) p) (filter (\<lambda>kv. HasPrefix (kv_Key kv) p) kvs))"
  by (induction kvs) (auto simp: Let_def)

lemma nodeIPsLoop_keys:
  "nodeIPsLoop p (map (\<lambda>ip. \<lparr>kv_Key = p @ ip\<rparr>) ips) = filter (\<lambda>ip. ip \<noteq> '''') ips"
  by (induction ips) auto

lemma sort_mset_cong: "mset xs = mset ys \<Longrightarrow> sort xs = sort ys"
  by (metis sorted_list_of_multiset_mset)

lemma sortedNodeIPs_eq_sort: "sortedNodeIPsFromKVs p kvs = sort (nodeIPsLoop p kvs)"
  by (simp add: sortedNodeIPsFromKVs_def)

lemma sortedNodeIPs_nonempty: "'''' \<notin> set (sortedNodeIPsFromKVs p kvs)"
  by (simp add: sortedNodeIPs_eq_sort nodeIPsLoop_conv)

lemma sortedNodeIPs_member:
  assumes "ip \<in> set (sortedNodeIPsFromKVs p kvs)"
  shows "\<lparr>kv_Key = p @ ip\<rparr> \<in> set kvs" and "ip \<noteq> ''''"
proof -
  from assms obtain kv where kv: "kv \<in> set kvs" "HasPrefix (kv_Key kv) p"
      "ip = TrimPrefix (kv_Key kv) p" and ne: "ip \<noteq> ''''"
    by (auto simp: sortedNodeIPs_eq_sort nodeIPsLoop_conv)
  then have "kv_Key kv = p @ ip" by (auto simp: HasPrefix_iff)
  then have eq: "kv = \<lparr>kv_Key = p @ ip\<rparr>" by (cases kv) simp
  show "\<lparr>kv_Key = p @ ip\<rparr> \<in> set kvs" using kv(1) by (simp only: eq)
  show "ip \<noteq> ''''" by (fact ne)
qed

lemma sortedNodeIPs_set:
  "x \<in> set (sortedNodeIPsFromKVs p kvs) \<longleftrightarrow> x \<noteq> '''' \<and> \<lparr>kv_Key = p @ x\<rparr> \<in> set kvs"
proof
  assume "x \<noteq> '''' \<and> \<lparr>kv_Key = p @ x\<rparr> \<in> set kvs"
  then show "x \<in> set (sortedNodeIPsFromKVs p kvs)"
    by (auto simp: sortedNodeIPs_eq_sort nodeIPsLoop_conv image_iff intro!: bexI [of _ "\<lparr>kv_Key = p @ x\<rparr>"])
qed (use sortedNodeIPs_member in blast)

lemma sortedNodeIPs_sorted: "sorted (sortedNodeIPsFromKVs p kvs)"
  by (simp add: sortedNodeIPs_eq_sort)

lemma sortedNodeIPs_mset_cong:
  assumes "mset kvs = mset kvs'"
  shows "sortedNodeIPsFromKVs p kvs = sortedNodeIPsFromKVs p kvs'"
proof -
  have "mset (nodeIPsLoop p kvs) = mset (nodeIPsLoop p kvs')"
    using assms by (simp add: nodeIPsLoop_conv)
  then show ?thesis unfolding sortedNodeIPs_eq_sort by (rule sort_mset_cong)
qed

lemma TrimRight_replicate: "TrimRight (p @ replicate n c) c = TrimRight p c"
proof (induction n arbitrary: p)
  case 0
  then show ?case by simp
next
  case (Suc n)
  from Suc.IH [of "p @ [c]"] show ?case by simp
qed

lemma normalizeNodePrefix_slashes:
  "normalizeNodePrefix (p @ replicate n (CHR ''/'')) = normalizeNodePrefix p"
  by (simp add: normalizeNodePrefix_def TrimRight_replicate)

lemma normalizeNodePrefix_idem:
  "normalizeNodePrefix (normalizeNodePrefix p) = normalizeNodePrefix p"
proof (cases "TrimRight p (CHR ''/'') = ''''")
  case True
  then show ?thesis by (simp add: normalizeNodePrefix_def TrimRight_def)
next
  case False
  then show ?thesis by (simp add: normalizeNodePrefix_def)
qed

section \<open>Registration\<close>

text \<open>One failed attempt of \<^const>\<open>establishRegistration\<close> whose backoff was slept through.\<close>

inductive attempt_retry ::
    "('w, 'ch) etcd_client \<Rightarrow> EtcdRegistry \<Rightarrow> string \<Rightarrow> 'w \<Rightarrow> 'w \<Rightarrow> bool" for c r key where
  retry_grant: "\<lbrakk>\<not> ec_ctxErr c w; ec_Grant c w (er_leaseTTL r) = (w1, Inl e);
     sleepWithContext c w1 registerRetryBackoff = (w', True)\<rbrakk> \<Longrightarrow> attempt_retry c r key w w'"
| retry_put: "\<lbrakk>\<not> ec_ctxErr c w; ec_Grant c w (er_leaseTTL r) = (w1, Inr lease);
     ec_Put c w1 key (er_value r) lease = (w2, Some e); sleepWithContext c w2 registerRetryBackoff = (w', True)\<rbrakk>
     \<Longrightarrow> attempt_retry c r key w w'"
| retry_keepalive: "\<lbrakk>\<not> ec_ctxErr c w; ec_Grant c w (er_leaseTTL r) = (w1, Inr lease);
     ec_Put c w1 key (er_value r) lease = (w2, None); ec_KeepAlive c w2 lease = (w3, Inl e);
     sleepWithContext c w3 registerRetryBackoff = (w', True)\<rbrakk> \<Longrightarrow> attempt_retry c r key w w'"

text \<open>An attempt that registers the key: lease granted, key put under it, lease kept alive.\<close>

definition attempt_ok ::
    "('w, 'ch) etcd_client \<Rightarrow> EtcdRegistry \<Rightarrow> string \<Rightarrow> 'w \<Rightarrow> 'w \<Rightarrow> 'ch \<Rightarrow> bool" where
  "attempt_ok c r key w w' ch \<longleftrightarrow> \<not> ec_ctxErr c w \<and>
     (\<exists>w1 w2 lease. ec_Grant c w (er_leaseTTL r) = (w1, Inr lease) \<and>
        ec_Put c w1 key (er_value r) lease = (w2, None) \<and>
        ec_KeepAlive c w2 lease = (w', Inr ch))"

text \<open>An attempt that ends the registration because the context is done, before it or in its backoff.\<close>

inductive attempt_cancelled ::
    "('w, 'ch) etcd_client \<Rightarrow> EtcdRegistry \<Rightarrow> string \<Rightarrow> 'w \<Rightarrow> 'w \<Rightarrow> bool" for c r key where
  cancelled_before: "ec_ctxErr c w \<Longrightarrow> attempt_cancelled c r key w w"
| cancelled_grant: "\<lbrakk>\<not> ec_ctxErr c w; ec_Grant c w (er_leaseTTL r) = (w1, Inl e);
     sleepWithContext c w1 registerRetryBackoff = (w', False)\<rbrakk> \<Longrightarrow> attempt_cancelled c r key w w'"
| cancelled_put: "\<lbrakk>\<not> ec_ctxErr c w; ec_Grant c w (er_leaseTTL r) = (w1, Inr lease);
     ec_Put c w1 key (er_value r) lease = (w2, Some e); sleepWithContext c w2 registerRetryBackoff = (w', False)\<rbrakk>
     \<Longrightarrow> attempt_cancelled c r key w w'"
| cancelled_keepalive: "\<lbrakk>\<not> ec_ctxErr c w; ec_Grant c w (er_leaseTTL r) = (w1, Inr lease);
     ec_Put c w1 key (er_value r) lease = (w2, None); ec_KeepAlive c w2 lease = (w3, Inl e);
     sleepWithContext c w3 registerRetryBackoff = (w', False)\<rbrakk> \<Longrightarrow> attempt_cancelled c r key w w'"

text \<open>How the attempts end: with the channel of a successful one, or with the context.\<close>

definition attempt_ends ::
    "('w, 'ch) etcd_client \<Rightarrow> EtcdRegistry \<Rightarrow> string \<Rightarrow> 'w \<Rightarrow> 'w \<times> (unit + 'ch) \<Rightarrow> bool" where
  "attempt_ends c r key w out = (case out of (w', Inr ch) \<Rightarrow> attempt_ok c r key w w' ch
     | (w', Inl _) \<Rightarrow> attempt_cancelled c r key w w')"

lemma establish_retry:
  "attempt_retry c r key w w' \<Longrightarrow>
     establishRegistration c r key w = establishRegistration c r key w'"
  by (induction rule: attempt_retry.induct) (subst establishRegistration.simps, simp add: Let_def)+

lemma establish_ends:
  "attempt_ends c r key w out \<Longrightarrow> establishRegistration c r key w = Some out"
  unfolding attempt_ends_def
  by (subst establishRegistration.simps)
    (auto simp: attempt_ok_def Let_def elim!: attempt_cancelled.cases split: prod.splits sum.splits)

lemma establish_retries:
  "(attempt_retry c r key)\<^sup>*\<^sup>* w w' \<Longrightarrow>
     establishRegistration c r key w = establishRegistration c r key w'"
  by (induction rule: rtranclp_induct) (auto dest: establish_retry)

text \<open>An attempt is followed by another, or ends the call.\<close>

lemma attempt_cases:
  obtains (retry) w' where "attempt_retry c r key w w'" | (ends) out where "attempt_ends c r key w out"
proof -
  have fin: thesis if "attempt_cancelled c r key w w'" for w'
    using that by (intro ends [of "(w', Inl ())"]) (simp add: attempt_ends_def)
  obtain w1 g where g: "ec_Grant c w (er_leaseTTL r) = (w1, g)" by fastforce
  show thesis
  proof (cases "ec_ctxErr c w")
    case True
    then show thesis by (rule fin [OF cancelled_before])
  next
    case ctx: False
    show thesis
    proof (cases g)
      case (Inl e)
      obtain w' b where "sleepWithContext c w1 registerRetryBackoff = (w', b)" by fastforce
      with ctx g Inl have "if b then attempt_retry c r key w w' else attempt_cancelled c r key w w'"
        by (auto intro: attempt_retry.intros attempt_cancelled.intros)
      then show thesis using retry fin by (cases b) auto
    next
      case (Inr lease)
      obtain w2 pe where p: "ec_Put c w1 key (er_value r) lease = (w2, pe)" by fastforce
      obtain w3 ka where k: "ec_KeepAlive c w2 lease = (w3, ka)" by fastforce
      obtain w' b where s: "sleepWithContext c (if pe = None then w3 else w2) registerRetryBackoff = (w', b)"
        by fastforce
      show thesis
      proof (cases "\<exists>ch. pe = None \<and> ka = Inr ch")
        case True
        then obtain ch where "attempt_ok c r key w w3 ch"
          using ctx g Inr p k by (auto simp: attempt_ok_def)
        then show thesis by (intro ends [of "(w3, Inr ch)"]) (simp add: attempt_ends_def)
      next
        case False
        then have "(if b then attempt_retry c r key w w' else attempt_cancelled c r key w w')"
          using ctx g Inr p k s
          by (cases pe; cases ka) (auto intro: attempt_retry.intros attempt_cancelled.intros)
        then show thesis using retry fin by (cases b) auto
      qed
    qed
  qed
qed

lemma establish_returns:
  assumes "establishRegistration c r key w = Some out"
  shows "\<exists>w0. (attempt_retry c r key)\<^sup>*\<^sup>* w w0 \<and> attempt_ends c r key w0 out"
proof -
  let ?P = "\<lambda>c' r' key' w out. c' = c \<longrightarrow> r' = r \<longrightarrow> key' = key \<longrightarrow>
    (\<exists>w0. (attempt_retry c r key)\<^sup>*\<^sup>* w w0 \<and> attempt_ends c r key w0 out)"
  have "?P c r key w out"
  proof (rule establishRegistration.raw_induct [where P = ?P, OF _ assms], intro impI)
    fix f c' r' key' w out
    assume IH: "\<And>c' r' key' w out. f c' r' key' w = Some out \<Longrightarrow> ?P c' r' key' w out"
      and eq: "(if ec_ctxErr c' w then Some (w, Inl ())
         else let (w1, leaseResp) = ec_Grant c' w (er_leaseTTL r') in
           case leaseResp of
             Inl _ \<Rightarrow> (let (w', slept) = sleepWithContext c' w1 registerRetryBackoff in
               if \<not> slept then Some (w', Inl ()) else f c' r' key' w')
           | Inr leaseID \<Rightarrow>
               (let (w2, putErr) = ec_Put c' w1 key' (er_value r') leaseID in
                if putErr \<noteq> None then
                  (let (w', slept) = sleepWithContext c' w2 registerRetryBackoff in
                   if \<not> slept then Some (w', Inl ()) else f c' r' key' w')
                else let (w3, ka) = ec_KeepAlive c' w2 leaseID in
                  case ka of
                    Inl _ \<Rightarrow> (let (w', slept) = sleepWithContext c' w3 registerRetryBackoff in
                      if \<not> slept then Some (w', Inl ()) else f c' r' key' w')
                  | Inr keepAliveCh \<Rightarrow> Some (w3, Inr keepAliveCh))) = Some out"
      and c: "c' = c" "r' = r" "key' = key"
    have step: "\<exists>w0. (attempt_retry c r key)\<^sup>*\<^sup>* w w0 \<and> attempt_ends c r key w0 out"
      if "attempt_retry c r key w w1" and "f c r key w1 = Some out" for w1
      using IH [OF that(2)] that(1) by (meson converse_rtranclp_into_rtranclp)
    from eq c have "(\<exists>w1. f c r key w1 = Some out \<and> attempt_retry c r key w w1) \<or>
        attempt_ends c r key w out"
      by (auto simp: Let_def attempt_ok_def attempt_ends_def split: if_splits prod.splits sum.splits
          intro: attempt_retry.intros attempt_cancelled.intros)
    then show "\<exists>w0. (attempt_retry c r key)\<^sup>*\<^sup>* w w0 \<and> attempt_ends c r key w0 out"
      using step by blast
  qed
  then show ?thesis by simp
qed

lemma establish_iff:
  "establishRegistration c r key w = Some out \<longleftrightarrow>
     (\<exists>w0. (attempt_retry c r key)\<^sup>*\<^sup>* w w0 \<and> attempt_ends c r key w0 out)"
  using establish_returns establish_retries establish_ends by metis

text \<open>The call goes on forever exactly when there is always another attempt.\<close>

lemma attempt_retry_fun:
  "attempt_retry c r key w w1 \<Longrightarrow> attempt_retry c r key w w2 \<Longrightarrow> w1 = w2"
  by (auto elim!: attempt_retry.cases)

lemma attempt_ends_last: "attempt_ends c r key w out \<Longrightarrow> \<not> attempt_retry c r key w w'"
  by (auto simp: attempt_ends_def attempt_ok_def elim!: attempt_cancelled.cases attempt_retry.cases
      split: prod.splits sum.splits)

lemma retries_split:
  "(attempt_retry c r key ^^ m) w w0 \<Longrightarrow> (attempt_retry c r key ^^ (m + n)) w w' \<Longrightarrow>
     (attempt_retry c r key ^^ n) w0 w'"
proof (induction m arbitrary: w)
  case 0
  then show ?case by simp
next
  case (Suc m)
  from Suc.prems(1) obtain w1 where "attempt_retry c r key w w1" "(attempt_retry c r key ^^ m) w1 w0"
    by (meson relpowp_Suc_D2)
  moreover from Suc.prems(2) obtain w2 where "attempt_retry c r key w w2"
      "(attempt_retry c r key ^^ (m + n)) w2 w'"
    by (metis add_Suc relpowp_Suc_D2)
  ultimately show ?case using Suc.IH attempt_retry_fun by metis
qed

lemma establish_diverges:
  "establishRegistration c r key w = None \<longleftrightarrow> (\<forall>n. \<exists>w'. (attempt_retry c r key ^^ n) w w')"
proof
  assume none: "establishRegistration c r key w = None"
  show "\<forall>n. \<exists>w'. (attempt_retry c r key ^^ n) w w'"
  proof
    fix n
    show "\<exists>w'. (attempt_retry c r key ^^ n) w w'"
    proof (induction n)
      case (Suc n)
      then obtain w' where w': "(attempt_retry c r key ^^ n) w w'" by blast
      then have "(attempt_retry c r key)\<^sup>*\<^sup>* w w'" by (rule relpowp_imp_rtranclp)
      with none have "\<not> attempt_ends c r key w' out" for out
        using establish_iff [of c r key w out] by auto
      then show ?case using w' attempt_cases [of c r key w'] by (metis relpowp_Suc_I)
    qed auto
  qed
next
  assume all: "\<forall>n. \<exists>w'. (attempt_retry c r key ^^ n) w w'"
  show "establishRegistration c r key w = None"
  proof (rule ccontr)
    assume "establishRegistration c r key w \<noteq> None"
    then obtain out w0 where w0: "(attempt_retry c r key)\<^sup>*\<^sup>* w w0" "attempt_ends c r key w0 out"
      using establish_iff [of c r key w] by auto
    then obtain m where m: "(attempt_retry c r key ^^ m) w w0" by (metis rtranclp_imp_relpowp)
    from all obtain w' where "(attempt_retry c r key ^^ (m + 1)) w w'" by blast
    from retries_split [OF m this] attempt_ends_last [OF w0(2)] show False by auto
  qed
qed

text \<open>The watch loop keeps everything but the table.\<close>

lemma refreshSnapshot_frame:
  "refreshSnapshot c r w = (r', w', e) \<Longrightarrow>
     rs_nodePrefix r' = rs_nodePrefix r \<and> rs_slotOwner r' = rs_slotOwner r"
  by (auto simp: refreshSnapshot_def Let_def split: prod.splits sum.splits)

lemma watch_step_frame:
  "watch_step c (r, w, pc) = (r', w', pc') \<Longrightarrow>
     rs_nodePrefix r' = rs_nodePrefix r \<and> rs_slotOwner r' = rs_slotOwner r"
  by (cases pc) (auto simp: watch_backoff_def dest: refreshSnapshot_frame
      split: if_splits prod.splits watch_input.splits bool.splits)

section \<open>The watch loop\<close>

lemma sleepWithContext_done:
  assumes "sleepWithContext c w d = (w', False)" and "\<And>w d w'. ec_timer c w d = (w', SlCtxDone) \<Longrightarrow> ec_ctxErr c w'"
  shows "ec_ctxErr c w'"
  using assms by (auto simp: sleepWithContext_def split: prod.splits sleep_input.splits)

lemma watch_steps_stop:
  assumes sleep: "\<And>w d w'. ec_timer c w d = (w', SlCtxDone) \<Longrightarrow> ec_ctxErr c w'"
    and sel: "\<And>w ch w'. ec_select c w ch = (w', WCtxDone) \<Longrightarrow> ec_ctxErr c w'"
    and run: "(watch_step c ^^ n) (r, w, WOuter) = (r', w', WReturned)"
  shows "ec_ctxErr c w'"
  using run
proof (induction n arbitrary: r' w')
  case 0
  then show ?case by simp
next
  case (Suc n)
  obtain r1 w1 pc1 where mid: "(watch_step c ^^ n) (r, w, WOuter) = (r1, w1, pc1)"
    by (cases "(watch_step c ^^ n) (r, w, WOuter)") auto
  with Suc.prems have last: "watch_step c (r1, w1, pc1) = (r', w', WReturned)" by simp
  show ?case
  proof (cases pc1)
    case WOuter
    with last show ?thesis by (auto split: if_splits prod.splits)
  next
    case (WInner ch)
    with last show ?thesis
      by (auto simp: watch_backoff_def dest: sleepWithContext_done [OF _ sleep] sel
          split: if_splits prod.splits watch_input.splits bool.splits)
  next
    case WReturned
    with last mid Suc.IH show ?thesis by simp
  qed
qed

text \<open>
  Without a topology event on the watch channel the table never changes, whatever else happens:
  neither opening a watch nor re-opening it after an error takes a new snapshot.
\<close>

lemma watch_no_event_no_refresh:
  assumes quiet: "\<And>w ch w' evs. ec_select c w ch = (w', WEvents evs) \<Longrightarrow> \<not> hasNodeTopologyEvent evs"
  shows "rs_tab (fst (watchLoop c n r w)) = rs_tab r"
proof -
  have step: "rs_tab (fst (watch_step c (r, w, pc))) = rs_tab r" for r w pc
    by (cases pc) (auto simp: watch_backoff_def dest: quiet
        split: prod.splits watch_input.splits bool.splits)
  have "rs_tab (fst ((watch_step c ^^ n) (r, w, WOuter))) = rs_tab r"
  proof (induction n)
    case 0
    then show ?case by simp
  next
    case (Suc n)
    obtain r1 w1 pc1 where "(watch_step c ^^ n) (r, w, WOuter) = (r1, w1, pc1)"
      by (cases "(watch_step c ^^ n) (r, w, WOuter)") auto
    with Suc.IH show ?case by (simp add: step)
  qed
  then show ?thesis by (simp add: watchLoop_def)
qed

interpretation etcd: topology_resolver EtcdResolver_GetNodeIP
  by unfold_locales (simp add: EtcdResolver_GetNodeIP_def)

section \<open>Properties\<close>

text \<open>
  A concrete environment for the witnesses: one node is registered, the watch channel breaks
  twice and then the context is cancelled.
\<close>

definition demo_client :: "(nat, unit) etcd_client" where
  "demo_client = \<lparr>
     ec_ctxErr = (\<lambda>w. 4 \<le> w),
     ec_timer = (\<lambda>w _. (Suc w, if Suc w < 4 then SlTimer else SlCtxDone)),
     ec_Grant = (\<lambda>w _. (w, if w = 0 then Inl ''unavailable'' else Inr 7)),
     ec_Put = (\<lambda>w _ _ _. (w, None)),
     ec_KeepAlive = (\<lambda>w _. (w, Inr ())),
     ec_recvKeepAlive = (\<lambda>w _. (w, KAClosed)),
     ec_Delete = (\<lambda>w _. (w, None)),
     ec_Get = (\<lambda>w p. (w, Inr [\<lparr>kv_Key = p @ ''10.0.0.1:9000''\<rparr>])),
     ec_Watch = (\<lambda>w _. (w, ())),
     ec_select = (\<lambda>w _. if 3 \<le> w then (4, WCtxDone) else (w, WClosed)),
     ec_Close = (\<lambda>w. (w, None))\<rparr>"

text \<open>The background watch loop ends only when its context has been cancelled. The two
  hypotheses are the documented behaviour of \<^verbatim>\<open>context\<close>: a sleep is cut short only by
  cancellation, and \<^verbatim>\<open>ctx.Done()\<close> is ready only after cancellation.\<close>

theorem watch_loop_stops_only_on_cancel:
  assumes "\<And>w d w'. ec_timer c w d = (w', SlCtxDone) \<Longrightarrow> ec_ctxErr c w'"
    and "\<And>w ch w'. ec_select c w ch = (w', WCtxDone) \<Longrightarrow> ec_ctxErr c w'"
    and "watchLoop c n r w = (r', w', WReturned)"
  shows "ec_ctxErr c w'"
  using watch_steps_stop [of c n r w r' w'] assms unfolding watchLoop_def by metis

theorem watch_loop_stops_witness:
  "watchLoop demo_client 8 (NewEtcdResolver ''/nodes'') 1
     = (NewEtcdResolver ''/nodes'', 4, WReturned) \<and> ec_ctxErr demo_client 4"
proof -
  have run: "watchLoop demo_client 8 (NewEtcdResolver ''/nodes'') 1
     = (NewEtcdResolver ''/nodes'', 4, WReturned)"
    by (simp add: watchLoop_def demo_client_def watch_backoff_def sleepWithContext_def eval_nat_numeral)
  have "ec_ctxErr demo_client 4"
    by (rule watch_loop_stops_only_on_cancel [OF _ _ run])
      (auto simp: demo_client_def split: if_splits)
  with run show ?thesis by simp
qed

text \<open>
  The snapshots the loop takes: a step that receives events with a topology change asks etcd for
  the keys, and the answer, unless it is an error, replaces the last snapshot.
\<close>

fun step_snapshot :: "('w, 'ch) etcd_client \<Rightarrow> ('w, 'ch) watch_state \<Rightarrow> KeyValue list option" where
  "step_snapshot c (r, w, WInner ch) =
     (case ec_select c w ch of
        (w', WEvents events) \<Rightarrow>
          (if EventTypePut \<in> set events \<or> EventTypeDelete \<in> set events
           then case ec_Get c w' (rs_nodePrefix r) of (_, Inr kvs) \<Rightarrow> Some kvs | (_, Inl _) \<Rightarrow> None
           else None)
      | _ \<Rightarrow> None)"
| "step_snapshot c _ = None"

primrec last_snapshot ::
    "('w, 'ch) etcd_client \<Rightarrow> KeyValue list \<Rightarrow> ('w, 'ch) watch_state \<Rightarrow> nat \<Rightarrow> KeyValue list" where
  "last_snapshot c kvs s 0 = kvs"
| "last_snapshot c kvs s (Suc n) =
     (case step_snapshot c ((watch_step c ^^ n) s) of
        None \<Rightarrow> last_snapshot c kvs s n
      | Some kvs' \<Rightarrow> kvs')"

text \<open>The table is that of a given snapshot.\<close>

definition table_of :: "string \<Rightarrow> SlotOwnerFunc option \<Rightarrow> KeyValue list \<Rightarrow> EtcdResolver \<Rightarrow> bool" where
  "table_of prefix owner kvs r \<longleftrightarrow> rs_nodePrefix r = prefix \<and> rs_slotOwner r = owner \<and>
     rs_tab r = Some (BuildRoutingTable (sortedNodeIPsFromKVs prefix kvs) owner)"

lemma watch_step_table:
  assumes "table_of p ow kvs (fst s)"
  shows "table_of p ow (case step_snapshot c s of None \<Rightarrow> kvs | Some kvs' \<Rightarrow> kvs') (fst (watch_step c s))"
proof -
  obtain r w pc where s: "s = (r, w, pc)" by (metis prod_cases3)
  show ?thesis
  proof (cases pc)
    case (WInner ch)
    obtain w' inp where sel: "ec_select c w ch = (w', inp)" by fastforce
    show ?thesis
    proof (cases inp)
      case (WEvents evs)
      obtain w'' g where "ec_Get c w' (rs_nodePrefix r) = (w'', g)" by fastforce
      with assms s WInner sel WEvents show ?thesis
        by (cases g) (auto simp: table_of_def refreshSnapshot_def hasNodeTopologyEvent_iff Let_def)
    qed (use assms s WInner sel in \<open>auto simp: watch_backoff_def split: prod.splits bool.splits\<close>)
  qed (use assms s in \<open>auto split: prod.splits\<close>)
qed

lemma watch_steps_table:
  assumes "table_of p ow kvs (fst s)"
  shows "table_of p ow (last_snapshot c kvs s n) (fst ((watch_step c ^^ n) s))"
proof (induction n)
  case (Suc n)
  from watch_step_table [OF Suc, of c] show ?case
    by (simp split: option.splits)
qed (use assms in simp)

text \<open>C26: What a lookup answers. Once \<^verbatim>\<open>Watch\<close> has succeeded, at any later point of the watch loop
  the table is that of the last snapshot etcd returned: the one \<^verbatim>\<open>Watch\<close> took, or that of the last
  event batch with a put or a delete whose get did not fail. If that snapshot lists no address
  under the resolver's prefix every lookup answers that there is no owner; otherwise every lookup
  answers with one of its addresses, the one at the actor's slot modulo their number in sorted
  order.\<close>

theorem resolver_answers_registered_nodes:
  assumes "Watch c (NewEtcdResolver prefix) w = Inr (r0, w0, WOuter)"
    and "watchLoop c n r0 w0 = (r', w', pc')" and "p = normalizeNodePrefix prefix"
  shows "\<exists>kvs0 ips. ec_Get c w p = (w0, Inr kvs0) \<and> sorted ips \<and>
    (\<forall>x. x \<in> set ips \<longleftrightarrow> x \<noteq> '''' \<and> \<lparr>kv_Key = p @ x\<rparr> \<in> set (last_snapshot c kvs0 (r0, w0, WOuter) n)) \<and>
    snd (EtcdResolver_GetNodeIP r' t u) =
      (if ips = [] then Inl ErrNoOwner else Inr (ips ! (SlotOf t u mod length ips)))"
proof -
  let ?o = "Some ModuloSlotOwner"
  from assms(1,3) obtain kvs0 where get: "ec_Get c w p = (w0, Inr kvs0)" and "table_of p ?o kvs0 r0"
    by (auto simp: Watch_def refreshSnapshot_def NewEtcdResolver_def table_of_def Let_def
        split: prod.splits sum.splits option.splits)
  then have tab: "table_of p ?o (last_snapshot c kvs0 (r0, w0, WOuter) n) r'"
    using watch_steps_table [of p ?o kvs0 "(r0, w0, WOuter)" c n] assms(2) by (simp add: watchLoop_def)
  let ?ips = "sortedNodeIPsFromKVs p (last_snapshot c kvs0 (r0, w0, WOuter) n)"
  have "snd (EtcdResolver_GetNodeIP r' t u) =
      (if ?ips = [] then Inl ErrNoOwner else Inr (?ips ! (SlotOf t u mod length ?ips)))"
  proof (cases "?ips = []")
    case True
    with tab show ?thesis by (simp add: table_of_def EtcdResolver_GetNodeIP_def)
  next
    case False
    from GetNodeIP_Build [OF False sortedNodeIPs_nonempty, of t u] tab False show ?thesis
      by (simp add: table_of_def EtcdResolver_GetNodeIP_def BuildRoutingTable_def)
  qed
  with get sortedNodeIPs_sorted sortedNodeIPs_set show ?thesis by blast
qed

theorem resolver_answers_witness:
  "\<exists>r0 r' w'. Watch demo_client (NewEtcdResolver ''/nodes'') 0 = Inr (r0, 0, WOuter) \<and>
     watchLoop demo_client 3 r0 0 = (r', w', WInner ()) \<and>
     snd (EtcdResolver_GetNodeIP r' 1 7) = Inr ''10.0.0.1:9000''"
proof -
  let ?r0 = "(NewEtcdResolver ''/nodes'')\<lparr>rs_tab :=
      Some (BuildRoutingTable [''10.0.0.1:9000''] (Some ModuloSlotOwner))\<rparr>"
  have 1: "Watch demo_client (NewEtcdResolver ''/nodes'') 0 = Inr (?r0, 0, WOuter)"
    by (simp add: Watch_def refreshSnapshot_def demo_client_def NewEtcdResolver_def
        sortedNodeIPsFromKVs_def Let_def)
  have 2: "watchLoop demo_client 3 ?r0 0 = (?r0, 1, WInner ())"
    by (simp add: watchLoop_def demo_client_def watch_backoff_def sleepWithContext_def eval_nat_numeral)
  have last: "last_snapshot demo_client [\<lparr>kv_Key = q @ ''10.0.0.1:9000''\<rparr>] (?r0, 0, WOuter) 3 =
      [\<lparr>kv_Key = q @ ''10.0.0.1:9000''\<rparr>]" for q
    by (simp add: demo_client_def watch_backoff_def sleepWithContext_def eval_nat_numeral)
  from resolver_answers_registered_nodes [OF 1 2 refl, of 1 7] obtain kvs0 ips where
    get: "ec_Get demo_client 0 (normalizeNodePrefix ''/nodes'') = (0, Inr kvs0)" and
    mem: "\<forall>x. x \<in> set ips \<longleftrightarrow> x \<noteq> '''' \<and> \<lparr>kv_Key = normalizeNodePrefix ''/nodes'' @ x\<rparr>
      \<in> set (last_snapshot demo_client kvs0 (?r0, 0, WOuter) 3)" and
    ans: "snd (EtcdResolver_GetNodeIP ?r0 1 7) =
        (if ips = [] then Inl ErrNoOwner else Inr (ips ! (SlotOf 1 7 mod length ips)))"
    by (elim exE conjE) (rule that)
  have kvs0: "kvs0 = [\<lparr>kv_Key = normalizeNodePrefix ''/nodes'' @ ''10.0.0.1:9000''\<rparr>]"
    using get by (simp add: demo_client_def)
  have set: "x \<in> set ips \<longleftrightarrow> x = ''10.0.0.1:9000''" for x
    using mem unfolding kvs0 last by auto
  have ne: "ips \<noteq> []" using set [of "''10.0.0.1:9000''"] by fastforce
  then have "ips ! (SlotOf 1 7 mod length ips) \<in> set ips" by (intro nth_mem) simp
  with ans ne have "snd (EtcdResolver_GetNodeIP ?r0 1 7) = Inr ''10.0.0.1:9000''"
    unfolding set by (simp only: if_False)
  with 1 2 show ?thesis by (intro exI conjI)
qed

text \<open>C27: Routing does not depend on the order in which etcd lists the nodes: two processes whose
  snapshots hold the same keys build the same table, so they agree on the owner of every actor,
  and at most one node address accepts a given actor.\<close>

theorem same_registrations_same_owner:
  assumes "ec_Get c w (rs_nodePrefix r) = (w1, Inr kvs)"
    and "ec_Get c' w' (rs_nodePrefix r') = (w1', Inr kvs')"
    and "mset kvs = mset kvs'" and "rs_nodePrefix r = rs_nodePrefix r'"
    and "rs_slotOwner r = rs_slotOwner r'"
  shows "snd (EtcdResolver_GetNodeIP (fst (refreshSnapshot c r w)) t u)
       = snd (EtcdResolver_GetNodeIP (fst (refreshSnapshot c' r' w')) t u) \<and>
    (etcd.owns (fst (refreshSnapshot c r w)) ipA t u \<longrightarrow>
     etcd.owns (fst (refreshSnapshot c' r' w')) ipB t u \<longrightarrow> ipA = ipB)"
proof -
  have tab: "rs_tab (fst (refreshSnapshot c r w)) = rs_tab (fst (refreshSnapshot c' r' w'))"
    using assms sortedNodeIPs_mset_cong [OF assms(3)] by (simp add: refreshSnapshot_def)
  then show ?thesis
    by (auto simp: EtcdResolver_GetNodeIP_def etcd.owns_def)
qed

theorem same_registrations_witness:
  "mset [\<lparr>kv_Key = ''/n/b''\<rparr>, \<lparr>kv_Key = ''/n/a''\<rparr>] = mset [\<lparr>kv_Key = ''/n/a''\<rparr>, \<lparr>kv_Key = ''/n/b''\<rparr>] \<and>
   snd (EtcdResolver_GetNodeIP (fst (refreshSnapshot
     (demo_client\<lparr>ec_Get := (\<lambda>w p. (w, Inr [\<lparr>kv_Key = ''/n/b''\<rparr>, \<lparr>kv_Key = ''/n/a''\<rparr>]))\<rparr>)
     (NewEtcdResolver ''/n'') 0)) 1 7)
   = snd (EtcdResolver_GetNodeIP (fst (refreshSnapshot
     (demo_client\<lparr>ec_Get := (\<lambda>w p. (w, Inr [\<lparr>kv_Key = ''/n/a''\<rparr>, \<lparr>kv_Key = ''/n/b''\<rparr>]))\<rparr>)
     (NewEtcdResolver ''/n'') 0)) 1 7)"
proof -
  have m: "mset [\<lparr>kv_Key = ''/n/b''\<rparr>, \<lparr>kv_Key = ''/n/a''\<rparr>]
      = mset [\<lparr>kv_Key = ''/n/a''\<rparr>, \<lparr>kv_Key = ''/n/b''\<rparr>]"
    by simp
  let ?c = "demo_client\<lparr>ec_Get := (\<lambda>w p. (w, Inr [\<lparr>kv_Key = ''/n/b''\<rparr>, \<lparr>kv_Key = ''/n/a''\<rparr>]))\<rparr>"
  let ?c' = "demo_client\<lparr>ec_Get := (\<lambda>w p. (w, Inr [\<lparr>kv_Key = ''/n/a''\<rparr>, \<lparr>kv_Key = ''/n/b''\<rparr>]))\<rparr>"
  have "snd (EtcdResolver_GetNodeIP (fst (refreshSnapshot ?c (NewEtcdResolver ''/n'') 0)) 1 7)
      = snd (EtcdResolver_GetNodeIP (fst (refreshSnapshot ?c' (NewEtcdResolver ''/n'') 0)) 1 7)"
    using same_registrations_same_owner [of ?c 0 "NewEtcdResolver ''/n''" 0 _ ?c' 0
        "NewEtcdResolver ''/n''" 0 _ 1 7 "''''" "''''"] m by simp
  with m show ?thesis by blast
qed

text \<open>C29: How \<^verbatim>\<open>Register\<close> ends. It returns successfully exactly when, after some number of failed
  attempts that each slept through their backoff, one attempt was granted a lease, put the node's
  key under that lease and had that same lease kept alive; the returned channel is that attempt's.
  It returns the context's error exactly when, after such attempts, the context was done before an
  attempt or during the backoff of a failed one. It never returns exactly when there is a further
  failed attempt after any number of them.\<close>

theorem Register_returns_iff:
  "(Register c r ip w = Some (w', Inr ch) \<longleftrightarrow>
     (\<exists>w0. (attempt_retry c r (er_nodePrefix r @ ip))\<^sup>*\<^sup>* w w0 \<and>
           attempt_ok c r (er_nodePrefix r @ ip) w0 w' ch)) \<and>
   (Register c r ip w = Some (w', Inl ()) \<longleftrightarrow>
     (\<exists>w0. (attempt_retry c r (er_nodePrefix r @ ip))\<^sup>*\<^sup>* w w0 \<and>
           attempt_cancelled c r (er_nodePrefix r @ ip) w0 w')) \<and>
   (Register c r ip w = None \<longleftrightarrow>
     (\<forall>n. \<exists>w0. (attempt_retry c r (er_nodePrefix r @ ip) ^^ n) w w0))"
  unfolding Register_def establish_iff establish_diverges by (simp add: attempt_ends_def)

text \<open>
  What the registration relies on of etcd, with \<^term>\<open>leased w k\<close> the lease a key is stored under: a
  successful put stores the key under the lease it names, a lease that is kept alive keeps its
  keys, and a get by prefix lists the stored keys with that prefix, once each.
\<close>

definition etcd_laws :: "('w, 'ch) etcd_client \<Rightarrow> ('w \<Rightarrow> string \<rightharpoonup> int64) \<Rightarrow> bool" where
  "etcd_laws c leased \<longleftrightarrow>
     (\<forall>w k v l w'. ec_Put c w k v l = (w', None) \<longrightarrow> leased w' k = Some l) \<and>
     (\<forall>w l w' ch k. ec_KeepAlive c w l = (w', Inr ch) \<longrightarrow> leased w k = Some l \<longrightarrow> leased w' k = Some l) \<and>
     (\<forall>w p w' kvs. ec_Get c w p = (w', Inr kvs) \<longrightarrow> distinct kvs \<and>
        (\<forall>k. \<lparr>kv_Key = k\<rparr> \<in> set kvs \<longleftrightarrow> k \<in> dom (leased w) \<and> HasPrefix k p))"

lemma attempt_ok_leased:
  "etcd_laws c leased \<Longrightarrow> attempt_ok c r key w w' ch \<Longrightarrow> key \<in> dom (leased w')"
  unfolding etcd_laws_def attempt_ok_def by blast

lemma Register_leased:
  "etcd_laws c leased \<Longrightarrow> Register c r ip w = Some (w', Inr ch) \<Longrightarrow> er_nodePrefix r @ ip \<in> dom (leased w')"
  unfolding Register_def establish_iff using attempt_ok_leased [of c leased r _ _ w' ch]
  by (auto simp: attempt_ends_def)

text \<open>C28: What a node registers is what every resolver reads back. When \<^verbatim>\<open>Register\<close> has returned
  successfully, a resolver of the same prefix, written with any number of trailing slashes, that
  takes a snapshot then has a routing table built from a sorted list of addresses which are
  exactly those stored in etcd under the prefix, the registered one among them; so every wallet
  has an owner.\<close>

theorem registration_roundtrip:
  assumes "etcd_laws c leased" and "Register c (NewEtcdRegistry prefix) ip w = Some (w', Inr ch)"
    and "ip \<noteq> ''''"
    and "refreshSnapshot c (NewEtcdResolver (prefix @ replicate n (CHR ''/''))) w' = (r', w'', None)"
  shows "\<exists>ips. rs_tab r' = Some (BuildRoutingTable ips (Some ModuloSlotOwner)) \<and> sorted ips \<and>
    ip \<in> set ips \<and>
    (\<forall>x. x \<in> set ips \<longleftrightarrow> x \<noteq> '''' \<and> normalizeNodePrefix prefix @ x \<in> dom (leased w')) \<and>
    (\<forall>t u. snd (EtcdResolver_GetNodeIP r' t u) = Inr (ips ! (SlotOf t u mod length ips)))"
proof -
  let ?p = "normalizeNodePrefix prefix"
  from assms(4) obtain kvs where get: "ec_Get c w' ?p = (w'', Inr kvs)"
    and tab: "rs_tab r' = Some (BuildRoutingTable (sortedNodeIPsFromKVs ?p kvs) (Some ModuloSlotOwner))"
    by (auto simp: refreshSnapshot_def NewEtcdResolver_def normalizeNodePrefix_slashes Let_def
        split: prod.splits sum.splits)
  let ?ips = "sortedNodeIPsFromKVs ?p kvs"
  have mem: "x \<in> set ?ips \<longleftrightarrow> x \<noteq> '''' \<and> ?p @ x \<in> dom (leased w')" for x
    using assms(1) get unfolding etcd_laws_def sortedNodeIPs_set by (metis HasPrefix_append)
  have "?p @ ip \<in> dom (leased w')"
    using Register_leased [OF assms(1,2)] by (simp add: NewEtcdRegistry_def)
  with mem assms(3) have ip: "ip \<in> set ?ips" by blast
  then have ne: "?ips \<noteq> []" by auto
  have "snd (EtcdResolver_GetNodeIP r' t u) = Inr (?ips ! (SlotOf t u mod length ?ips))" for t u
    using GetNodeIP_Build [OF ne sortedNodeIPs_nonempty, of t u] tab ne
    by (simp add: EtcdResolver_GetNodeIP_def BuildRoutingTable_def)
  with tab mem ip sortedNodeIPs_sorted show ?thesis by blast
qed

text \<open>An etcd whose state is the list of its puts, newest first; it refuses the first lease.\<close>

definition demo_etcd :: "(nat \<times> (string \<times> int64) list, unit) etcd_client" where
  "demo_etcd = \<lparr>
     ec_ctxErr = (\<lambda>w. False),
     ec_timer = (\<lambda>w _. ((Suc (fst w), snd w), SlTimer)),
     ec_Grant = (\<lambda>w _. (w, if fst w = 0 then Inl ''unavailable'' else Inr 7)),
     ec_Put = (\<lambda>w k _ l. ((fst w, (k, l) # snd w), None)),
     ec_KeepAlive = (\<lambda>w _. (w, Inr ())),
     ec_recvKeepAlive = (\<lambda>w _. (w, KAResp)),
     ec_Delete = (\<lambda>w k. ((fst w, filter (\<lambda>x. fst x \<noteq> k) (snd w)), None)),
     ec_Get = (\<lambda>w p. (w, Inr (map KeyValue.make (filter (\<lambda>k. HasPrefix k p) (remdups (map fst (snd w))))))),
     ec_Watch = (\<lambda>w _. (w, ())),
     ec_select = (\<lambda>w _. (w, WClosed)),
     ec_Close = (\<lambda>w. (w, None))\<rparr>"

lemma demo_etcd_laws: "etcd_laws demo_etcd (\<lambda>w. map_of (snd w))"
proof -
  have inj: "inj KeyValue.make" by (auto simp: inj_def KeyValue.make_def)
  have mem: "\<lparr>kv_Key = k\<rparr> \<in> KeyValue.make ` A \<longleftrightarrow> k \<in> A" for k A
    by (auto simp: KeyValue.make_def)
  show ?thesis
    unfolding etcd_laws_def demo_etcd_def
    by (auto simp: distinct_map dom_map_of_conv_image_fst mem inj_on_subset [OF inj])
qed

theorem registration_roundtrip_witness:
  "\<exists>w' r'. Register demo_etcd (NewEtcdRegistry ''/n'') ''a:1'' (0, []) = Some (w', Inr ()) \<and>
     refreshSnapshot demo_etcd (NewEtcdResolver (''/n'' @ replicate 2 (CHR ''/''))) w' = (r', w', None) \<and>
     (\<exists>ips. ''a:1'' \<in> set ips \<and> snd (EtcdResolver_GetNodeIP r' 1 7) = Inr (ips ! (SlotOf 1 7 mod length ips)))"
proof -
  let ?w = "(1 :: nat, [(''/n/a:1'', 7 :: int64)])" and ?r = "NewEtcdResolver (''/n'' @ replicate 2 (CHR ''/''))"
  let ?reg = "NewEtcdRegistry ''/n''" and ?key = "''/n/a:1''"
  have "establishRegistration demo_etcd ?reg ?key (0, []) = establishRegistration demo_etcd ?reg ?key (1, [])"
    by (subst establishRegistration.simps) (simp add: demo_etcd_def sleepWithContext_def)
  also have "\<dots> = Some (?w, Inr ())"
    by (subst establishRegistration.simps) (simp add: demo_etcd_def)
  finally have reg: "Register demo_etcd ?reg ''a:1'' (0, []) = Some (?w, Inr ())"
    by (simp add: Register_def NewEtcdRegistry_def normalizeNodePrefix_def TrimRight_def)
  obtain r' where re: "refreshSnapshot demo_etcd ?r ?w = (r', ?w, None)"
    by (simp add: refreshSnapshot_def demo_etcd_def Let_def)
  have ne: "''a:1'' \<noteq> ''''" by simp
  from registration_roundtrip [OF demo_etcd_laws reg ne re] show ?thesis using reg re by blast
qed

end
