(* ===== verification/MockResolver.thy ===== *)
theory MockResolver
  imports Routing
begin

text \<open>
  \<^verbatim>\<open>internal/mock/mock_resolver.go\<close>: the resolver that tests inject. It satisfies the same
  contract as the etcd resolver, although a lookup updates its call counter.
\<close>

datatype mock_error = ForcedError string | NoRoute int32 int64

record MockResolver =
  mr_routes :: "int32 \<times> int64 \<rightharpoonup> string"
  mr_forcedErr :: "string option"
  mr_callCount :: nat

definition NewMockResolver :: MockResolver where
  "NewMockResolver = \<lparr>mr_routes = Map.empty, mr_forcedErr = None, mr_callCount = 0\<rparr>"

definition SetRoute :: "MockResolver \<Rightarrow> int32 \<Rightarrow> int64 \<Rightarrow> string \<Rightarrow> MockResolver" where
  "SetRoute m tenantID uid ip = m\<lparr>mr_routes := (mr_routes m)((tenantID, uid) \<mapsto> ip)\<rparr>"

definition SetError :: "MockResolver \<Rightarrow> string option \<Rightarrow> MockResolver" where
  "SetError m err = m\<lparr>mr_forcedErr := err\<rparr>"

definition CallCount :: "MockResolver \<Rightarrow> nat" where
  "CallCount m = mr_callCount m"

definition MockResolver_GetNodeIP ::
    "MockResolver \<Rightarrow> int32 \<Rightarrow> int64 \<Rightarrow> MockResolver \<times> (mock_error + string)" where
  "MockResolver_GetNodeIP m tenantID uid =
     (let m' = m\<lparr>mr_callCount := mr_callCount m + 1\<rparr> in
      case mr_forcedErr m' of
        Some e \<Rightarrow> (m', Inl (ForcedError e))
      | None \<Rightarrow> (case mr_routes m' (tenantID, uid) of
           None \<Rightarrow> (m', Inl (NoRoute tenantID uid))
         | Some ip \<Rightarrow> (m', Inr ip)))"

interpretation mock: topology_resolver MockResolver_GetNodeIP
  by unfold_locales (simp add: MockResolver_GetNodeIP_def Let_def split: option.splits)

lemma mock_GetNodeIP_SetRoute:
  "snd (MockResolver_GetNodeIP (SetRoute m t u ip) t' u') =
     (case mr_forcedErr m of Some e \<Rightarrow> Inl (ForcedError e)
      | None \<Rightarrow> if (t', u') = (t, u) then Inr ip else snd (MockResolver_GetNodeIP m t' u'))"
  by (simp add: MockResolver_GetNodeIP_def SetRoute_def Let_def split: option.splits)

lemma mock_CallCount:
  "CallCount (fst (MockResolver_GetNodeIP m t u)) = CallCount m + 1"
  by (simp add: MockResolver_GetNodeIP_def CallCount_def Let_def split: option.splits)

end
