(* ===== verification/Persistence.thy ===== *)
theory Persistence
  imports Messages
begin

text \<open>
  \<^verbatim>\<open>pkg/persistence\<close>: the thin store interface and its Cassandra adapter. The gocql session is
  not part of the repository and is a parameter of the adapter. The theory also states, as a
  locale, what the wallet relies on when its five CQL statements run against the two tables of
  the schema, and derives it for the adapter from the corresponding behaviour of a session.
\<close>

section \<open>The store interface and the Cassandra adapter\<close>

type_synonym BatchMode = int

definition LoggedBatch :: BatchMode where "LoggedBatch = 0"
definition UnloggedBatch :: BatchMode where "UnloggedBatch = 1"

text \<open>The dynamic values the repository passes as statement arguments and scans from rows.\<close>

datatype val = VInt32 int32 | VInt64 int64 | VText string | VBlob bytes | VTime int64

record Statement =
  st_CQL :: string
  st_Args :: "val list"
  st_Idempotent :: bool

text \<open>
  A \<^verbatim>\<open>persistence.Store\<close> over a state \<^typ>\<open>'st\<close>. \<^verbatim>\<open>sto_Query\<close> gives the rows that
  successive \<^verbatim>\<open>Scan\<close> calls deliver and the error that the query reports once the callback has
  stopped scanning without an error of its own; \<^verbatim>\<open>StoreQuery\<close> is the call with its callback,
  which returns what it captured and its error.
\<close>

record 'st Store =
  sto_ExecuteBatch :: "'st \<Rightarrow> BatchMode \<Rightarrow> Statement list \<Rightarrow> 'st \<times> string option"
  sto_Query :: "'st \<Rightarrow> string \<Rightarrow> val list \<Rightarrow> val list list \<times> string option"

definition StoreQuery ::
    "'st Store \<Rightarrow> 'st \<Rightarrow> string \<Rightarrow> val list \<Rightarrow> (val list list \<Rightarrow> 'a \<times> string option)
      \<Rightarrow> 'a \<times> string option" where
  "StoreQuery S st cql args scan =
     (let (rows, qErr) = sto_Query S st cql args;
          (captured, scanErr) = scan rows
      in (captured, if scanErr \<noteq> None then scanErr else qErr))"

datatype GocqlBatchType = GocqlLoggedBatch | GocqlUnloggedBatch

record BatchEntry =
  be_Stmt :: string
  be_Args :: "val list"
  be_Idempotent :: bool

text \<open>A session call also takes time, which the adapter measures.\<close>

record 'db gocql_session =
  gs_ExecuteBatch :: "'db \<Rightarrow> GocqlBatchType \<Rightarrow> BatchEntry list \<Rightarrow> 'db \<times> uint64 \<times> string option"
  gs_Query :: "'db \<Rightarrow> string \<Rightarrow> val list \<Rightarrow> val list list \<times> string option"

record 'db CassandraStore =
  cs_db :: 'db
  cs_WriteDurationNsSum :: uint64
  cs_WriteDurationNsCount :: uint64

text \<open>
  Opening and closing a store. The creation of a session from a cluster configuration and its end are
  parameters; durations are in nanoseconds.
\<close>

datatype GocqlConsistency = GocqlQuorum

record ClusterConfig =
  cl_Hosts :: "string list"
  cl_Keyspace :: string
  cl_Consistency :: GocqlConsistency
  cl_Timeout :: int64
  cl_ConnectTimeout :: int64

definition NewCassandraStore ::
    "(ClusterConfig \<Rightarrow> string + 'db) \<Rightarrow> string list \<Rightarrow> string \<Rightarrow> string + 'db CassandraStore" where
  "NewCassandraStore createSession hosts keyspace =
     (case createSession \<lparr>cl_Hosts = hosts, cl_Keyspace = keyspace, cl_Consistency = GocqlQuorum,
             cl_Timeout = 5 * 1000000000, cl_ConnectTimeout = 10 * 1000000000\<rparr> of
        Inl err \<Rightarrow> Inl (''persistence: failed to create cassandra session: '' @ err)
      | Inr db \<Rightarrow> Inr \<lparr>cs_db = db, cs_WriteDurationNsSum = 0, cs_WriteDurationNsCount = 0\<rparr>)"

definition CassandraStore_Close :: "('db \<Rightarrow> 'db) \<Rightarrow> 'db CassandraStore \<Rightarrow> 'db CassandraStore" where
  "CassandraStore_Close closeSession s = s\<lparr>cs_db := closeSession (cs_db s)\<rparr>"

definition ErrEmptyBatch :: string where
  "ErrEmptyBatch = ''persistence: statements slice must not be empty''"

definition toGocqlBatchType :: "BatchMode \<Rightarrow> GocqlBatchType" where
  "toGocqlBatchType mode = (if mode = LoggedBatch then GocqlLoggedBatch else GocqlUnloggedBatch)"

definition batchEntry :: "Statement \<Rightarrow> BatchEntry" where
  "batchEntry stmt = \<lparr>be_Stmt = st_CQL stmt, be_Args = st_Args stmt, be_Idempotent = st_Idempotent stmt\<rparr>"

definition ExecuteBatch ::
    "'db gocql_session \<Rightarrow> 'db CassandraStore \<Rightarrow> BatchMode \<Rightarrow> Statement list
      \<Rightarrow> 'db CassandraStore \<times> string option" where
  "ExecuteBatch sess s mode statements =
     (if length statements = 0 then (s, Some ErrEmptyBatch)
      else let entries = map batchEntry statements;
               (db', elapsed, err) = gs_ExecuteBatch sess (cs_db s) (toGocqlBatchType mode) entries;
               s' = s\<lparr>cs_db := db', cs_WriteDurationNsSum := cs_WriteDurationNsSum s + elapsed,
                     cs_WriteDurationNsCount := cs_WriteDurationNsCount s + 1\<rparr>
           in (case err of
                 Some e \<Rightarrow> (s', Some (''persistence: ExecuteBatch failed: '' @ e))
               | None \<Rightarrow> (s', None)))"

definition Query ::
    "'db gocql_session \<Rightarrow> 'db CassandraStore \<Rightarrow> string \<Rightarrow> val list
      \<Rightarrow> (val list list \<Rightarrow> 'a \<times> string option) \<Rightarrow> 'a \<times> string option" where
  "Query sess s cql args scan =
     (let (rows, closeErr) = gs_Query sess (cs_db s) cql args;
          (captured, scanErr) = scan rows
      in (case scanErr of
            Some e \<Rightarrow> (captured, Some e)
          | None \<Rightarrow> (case closeErr of
               Some e \<Rightarrow> (captured, Some (''persistence: Query failed: '' @ e))
             | None \<Rightarrow> (captured, None))))"

definition ProcessPersistenceWriteDurationNsSum :: "'db CassandraStore \<Rightarrow> uint64" where
  "ProcessPersistenceWriteDurationNsSum s = cs_WriteDurationNsSum s"

definition ProcessPersistenceWriteDurationNsCount :: "'db CassandraStore \<Rightarrow> uint64" where
  "ProcessPersistenceWriteDurationNsCount s = cs_WriteDurationNsCount s"

text \<open>The adapter as a \<^verbatim>\<open>persistence.Store\<close>.\<close>

definition cassandra_Store :: "'db gocql_session \<Rightarrow> 'db CassandraStore Store" where
  "cassandra_Store sess = \<lparr>
     sto_ExecuteBatch = ExecuteBatch sess,
     sto_Query = (\<lambda>s cql args. case gs_Query sess (cs_db s) cql args of
        (rows, closeErr) \<Rightarrow> (rows, map_option (\<lambda>e. ''persistence: Query failed: '' @ e) closeErr))\<rparr>"

lemma StoreQuery_cassandra: "StoreQuery (cassandra_Store sess) s cql args scan = Query sess s cql args scan"
  by (simp add: StoreQuery_def Query_def cassandra_Store_def split: prod.splits option.splits)

lemma ExecuteBatch_cassandra [simp]: "sto_ExecuteBatch (cassandra_Store sess) = ExecuteBatch sess"
  by (simp add: cassandra_Store_def)

section \<open>The wallet's tables\<close>

text \<open>
  The schema: \<^verbatim>\<open>wallet_events\<close> is keyed by \<^verbatim>\<open>((tenant_id, uid), version)\<close> and clustered by
  ascending version, \<^verbatim>\<open>wallet_snapshots\<close> by \<^verbatim>\<open>(tenant_id, uid)\<close>. A partition of the first is a
  list of rows in clustering order; an insert with an existing primary key replaces the row.
\<close>

record EventRow =
  ev_version :: int64
  ev_createdAt :: int64
  ev_txID :: string
  ev_delta :: int64
  ev_payload :: bytes

type_synonym wkey = "int32 \<times> int64"

fun upsert :: "EventRow \<Rightarrow> EventRow list \<Rightarrow> EventRow list" where
  "upsert e [] = [e]"
| "upsert e (x # xs) =
     (if sint (ev_version e) < sint (ev_version x) then e # x # xs
      else if ev_version e = ev_version x then e # xs
      else x # upsert e xs)"

text \<open>The CQL texts of the repository, one constant each.\<close>

definition snapCQL :: string where
  "snapCQL = ''SELECT balance, last_version FROM wallet_snapshots WHERE tenant_id = ? AND uid = ?''"

definition eventCQL :: string where
  "eventCQL = ''SELECT version, tx_id, delta_amount FROM wallet_events WHERE tenant_id = ? AND uid = ? AND version > ? ORDER BY version ASC''"

definition deltaCQL :: string where
  "deltaCQL = ''SELECT delta_amount FROM wallet_events WHERE tenant_id = ? AND uid = ? AND version > ? ORDER BY version ASC''"

definition versionDeltaCQL :: string where
  "versionDeltaCQL = ''SELECT version, delta_amount FROM wallet_events WHERE tenant_id = ? AND uid = ? AND version > ? ORDER BY version ASC''"

definition maxVersionCQL :: string where
  "maxVersionCQL = ''SELECT version FROM wallet_events WHERE tenant_id = ? AND uid = ? ORDER BY version DESC LIMIT 1''"

definition insertEventCQL :: string where
  "insertEventCQL = ''INSERT INTO wallet_events (tenant_id, uid, version, created_at, tx_id, delta_amount, payload) VALUES (?, ?, ?, ?, ?, ?, ?)''"

definition insertSnapshotCQL :: string where
  "insertSnapshotCQL = ''INSERT INTO wallet_snapshots (tenant_id, uid, balance, last_version) VALUES (?, ?, ?, ?)''"

lemmas cql_defs = snapCQL_def eventCQL_def deltaCQL_def versionDeltaCQL_def maxVersionCQL_def
  insertEventCQL_def insertSnapshotCQL_def

definition eventStmt :: "wkey \<Rightarrow> EventRow \<Rightarrow> Statement" where
  "eventStmt k e = \<lparr>st_CQL = insertEventCQL,
     st_Args = [VInt32 (fst k), VInt64 (snd k), VInt64 (ev_version e), VTime (ev_createdAt e),
                VText (ev_txID e), VInt64 (ev_delta e), VBlob (ev_payload e)],
     st_Idempotent = False\<rparr>"

definition snapshotStmt :: "wkey \<Rightarrow> int64 \<Rightarrow> int64 \<Rightarrow> Statement" where
  "snapshotStmt k balance version = \<lparr>st_CQL = insertSnapshotCQL,
     st_Args = [VInt32 (fst k), VInt64 (snd k), VInt64 balance, VInt64 version],
     st_Idempotent = True\<rparr>"

text \<open>Rows as the five queries return them.\<close>

definition events_after :: "int64 \<Rightarrow> EventRow list \<Rightarrow> EventRow list" where
  "events_after v es = filter (\<lambda>e. v <s ev_version e) es"

definition snapshot_rows :: "(int64 \<times> int64) option \<Rightarrow> val list list" where
  "snapshot_rows s = (case s of None \<Rightarrow> [] | Some (b, v) \<Rightarrow> [[VInt64 b, VInt64 v]])"

definition event_rows :: "EventRow list \<Rightarrow> val list list" where
  "event_rows es = map (\<lambda>e. [VInt64 (ev_version e), VText (ev_txID e), VInt64 (ev_delta e)]) es"

definition delta_rows :: "EventRow list \<Rightarrow> val list list" where
  "delta_rows es = map (\<lambda>e. [VInt64 (ev_delta e)]) es"

definition version_delta_rows :: "EventRow list \<Rightarrow> val list list" where
  "version_delta_rows es = map (\<lambda>e. [VInt64 (ev_version e), VInt64 (ev_delta e)]) es"

definition max_version_rows :: "EventRow list \<Rightarrow> val list list" where
  "max_version_rows es = (if es = [] then [] else [[VInt64 (ev_version (last es))]])"

definition strictly_sorted :: "EventRow list \<Rightarrow> bool" where
  "strictly_sorted es \<longleftrightarrow> sorted_wrt (\<lambda>a b. sint (ev_version a) < sint (ev_version b)) es"

section \<open>What the wallet relies on\<close>

text \<open>
  The contract of a store that holds the wallet's tables: \<^term>\<open>ev st k\<close> is the partition of
  \<^verbatim>\<open>wallet_events\<close> for key \<^term>\<open>k\<close>, \<^term>\<open>sn st k\<close> its row of \<^verbatim>\<open>wallet_snapshots\<close>. A query
  that reports no error has delivered the selected rows. An insert that reports no error has been
  applied; one that reports an error may or may not have been applied, as with a write timeout.
\<close>

locale wallet_store =
  fixes S :: "'st Store"
    and ev :: "'st \<Rightarrow> wkey \<Rightarrow> EventRow list"
    and sn :: "'st \<Rightarrow> wkey \<Rightarrow> (int64 \<times> int64) option"
    and invar :: "'st \<Rightarrow> bool"
  assumes ev_sorted: "invar st \<Longrightarrow> strictly_sorted (ev st k)"
    and q_snap: "\<lbrakk>invar st; sto_Query S st snapCQL [VInt32 (fst k), VInt64 (snd k)] = (rows, None)\<rbrakk>
      \<Longrightarrow> rows = snapshot_rows (sn st k)"
    and q_event: "\<lbrakk>invar st; sto_Query S st eventCQL [VInt32 (fst k), VInt64 (snd k), VInt64 v] = (rows, None)\<rbrakk>
      \<Longrightarrow> rows = event_rows (events_after v (ev st k))"
    and q_delta: "\<lbrakk>invar st; sto_Query S st deltaCQL [VInt32 (fst k), VInt64 (snd k), VInt64 v] = (rows, None)\<rbrakk>
      \<Longrightarrow> rows = delta_rows (events_after v (ev st k))"
    and q_version_delta: "\<lbrakk>invar st; sto_Query S st versionDeltaCQL [VInt32 (fst k), VInt64 (snd k), VInt64 v] = (rows, None)\<rbrakk>
      \<Longrightarrow> rows = version_delta_rows (events_after v (ev st k))"
    and q_max: "\<lbrakk>invar st; sto_Query S st maxVersionCQL [VInt32 (fst k), VInt64 (snd k)] = (rows, None)\<rbrakk>
      \<Longrightarrow> rows = max_version_rows (ev st k)"
    and x_event: "\<lbrakk>invar st; sto_ExecuteBatch S st UnloggedBatch [eventStmt k e] = (st', err)\<rbrakk>
      \<Longrightarrow> invar st' \<and> sn st' = sn st \<and>
          (ev st' = (ev st)(k := upsert e (ev st k)) \<or> err \<noteq> None \<and> ev st' = ev st)"
    and x_snap: "\<lbrakk>invar st; sto_ExecuteBatch S st UnloggedBatch [snapshotStmt k b v] = (st', err)\<rbrakk>
      \<Longrightarrow> invar st' \<and> ev st' = ev st \<and>
          (sn st' = (sn st)(k \<mapsto> (b, v)) \<or> err \<noteq> None \<and> sn st' = sn st)"
begin

lemma x_event_ok:
  assumes "invar st" and "sto_ExecuteBatch S st UnloggedBatch [eventStmt k e] = (st', None)"
  shows "invar st'" and "sn st' = sn st" and "ev st' = (ev st)(k := upsert e (ev st k))"
  using x_event [OF assms] by auto

end

text \<open>The same behaviour of a gocql session connected to a keyspace with that schema.\<close>

locale wallet_session =
  fixes sess :: "'db gocql_session"
    and evd :: "'db \<Rightarrow> wkey \<Rightarrow> EventRow list"
    and snp :: "'db \<Rightarrow> wkey \<Rightarrow> (int64 \<times> int64) option"
    and invd :: "'db \<Rightarrow> bool"
  assumes sorted: "invd db \<Longrightarrow> strictly_sorted (evd db k)"
    and sq_snap: "\<lbrakk>invd db; gs_Query sess db snapCQL [VInt32 (fst k), VInt64 (snd k)] = (rows, None)\<rbrakk>
      \<Longrightarrow> rows = snapshot_rows (snp db k)"
    and sq_event: "\<lbrakk>invd db; gs_Query sess db eventCQL [VInt32 (fst k), VInt64 (snd k), VInt64 v] = (rows, None)\<rbrakk>
      \<Longrightarrow> rows = event_rows (events_after v (evd db k))"
    and sq_delta: "\<lbrakk>invd db; gs_Query sess db deltaCQL [VInt32 (fst k), VInt64 (snd k), VInt64 v] = (rows, None)\<rbrakk>
      \<Longrightarrow> rows = delta_rows (events_after v (evd db k))"
    and sq_version_delta: "\<lbrakk>invd db; gs_Query sess db versionDeltaCQL [VInt32 (fst k), VInt64 (snd k), VInt64 v] = (rows, None)\<rbrakk>
      \<Longrightarrow> rows = version_delta_rows (events_after v (evd db k))"
    and sq_max: "\<lbrakk>invd db; gs_Query sess db maxVersionCQL [VInt32 (fst k), VInt64 (snd k)] = (rows, None)\<rbrakk>
      \<Longrightarrow> rows = max_version_rows (evd db k)"
    and sx_event: "\<lbrakk>invd db; gs_ExecuteBatch sess db GocqlUnloggedBatch [batchEntry (eventStmt k e)] = (db', el, err)\<rbrakk>
      \<Longrightarrow> invd db' \<and> snp db' = snp db \<and>
          (evd db' = (evd db)(k := upsert e (evd db k)) \<or> err \<noteq> None \<and> evd db' = evd db)"
    and sx_snap: "\<lbrakk>invd db; gs_ExecuteBatch sess db GocqlUnloggedBatch [batchEntry (snapshotStmt k b v)] = (db', el, err)\<rbrakk>
      \<Longrightarrow> invd db' \<and> evd db' = evd db \<and>
          (snp db' = (snp db)(k \<mapsto> (b, v)) \<or> err \<noteq> None \<and> snp db' = snp db)"

lemma UnloggedBatch_gocql [simp]: "toGocqlBatchType UnloggedBatch = GocqlUnloggedBatch"
  by (simp add: toGocqlBatchType_def LoggedBatch_def UnloggedBatch_def)

text \<open>The adapter adds nothing but error texts and counters.\<close>

lemma cassandra_Query_ok:
  "sto_Query (cassandra_Store sess) s cql args = (rows, None) \<Longrightarrow>
     gs_Query sess (cs_db s) cql args = (rows, None)"
  by (auto simp: cassandra_Store_def split: prod.splits)

lemma cassandra_Execute_one:
  assumes "ExecuteBatch sess s UnloggedBatch [stmt] = (s', err)"
  obtains el err' where
    "gs_ExecuteBatch sess (cs_db s) GocqlUnloggedBatch [batchEntry stmt] = (cs_db s', el, err')"
    and "err' = None \<longleftrightarrow> err = None"
  using assms by (auto simp: ExecuteBatch_def Let_def split: prod.splits option.splits)

sublocale wallet_session \<subseteq> store: wallet_store "cassandra_Store sess" "\<lambda>s. evd (cs_db s)"
  "\<lambda>s. snp (cs_db s)" "\<lambda>s. invd (cs_db s)"
proof (unfold_locales, goal_cases)
  case 1 then show ?case by (rule sorted)
next
  case 2 then show ?case by (auto dest!: cassandra_Query_ok intro: sq_snap)
next
  case 3 then show ?case by (auto dest!: cassandra_Query_ok intro: sq_event)
next
  case 4 then show ?case by (auto dest!: cassandra_Query_ok intro: sq_delta)
next
  case 5 then show ?case by (auto dest!: cassandra_Query_ok intro: sq_version_delta)
next
  case 6 then show ?case by (auto dest!: cassandra_Query_ok intro: sq_max)
next
  case (7 st k e st' err)
  from 7(2) obtain el err' where x: "gs_ExecuteBatch sess (cs_db st) GocqlUnloggedBatch
      [batchEntry (eventStmt k e)] = (cs_db st', el, err')" and "err' = None \<longleftrightarrow> err = None"
    by (auto elim: cassandra_Execute_one)
  with sx_event [OF 7(1) x] show ?case by auto
next
  case (8 st k b v st' err)
  from 8(2) obtain el err' where x: "gs_ExecuteBatch sess (cs_db st) GocqlUnloggedBatch
      [batchEntry (snapshotStmt k b v)] = (cs_db st', el, err')" and "err' = None \<longleftrightarrow> err = None"
    by (auto elim: cassandra_Execute_one)
  with sx_snap [OF 8(1) x] show ?case by auto
qed

section \<open>A session that satisfies the contract\<close>

text \<open>
  The hypotheses above can be met: a session over two in-memory tables that executes exactly the
  repository's statements. While \<^term>\<open>md_down\<close> is set its writes fail without being applied.
\<close>

record mem_db =
  md_events :: "wkey \<Rightarrow> EventRow list"
  md_snaps :: "wkey \<Rightarrow> (int64 \<times> int64) option"
  md_down :: bool

definition mem_empty :: mem_db where
  "mem_empty = \<lparr>md_events = (\<lambda>_. []), md_snaps = (\<lambda>_. None), md_down = False\<rparr>"

definition mem_insert_event :: "mem_db \<Rightarrow> val list \<Rightarrow> mem_db" where
  "mem_insert_event db args = (case args of
     [VInt32 t, VInt64 u, VInt64 v, VTime c, VText x, VInt64 d, VBlob p] \<Rightarrow>
       db\<lparr>md_events := (md_events db)((t, u) := upsert \<lparr>ev_version = v, ev_createdAt = c,
         ev_txID = x, ev_delta = d, ev_payload = p\<rparr> (md_events db (t, u)))\<rparr>
   | _ \<Rightarrow> db)"

definition mem_insert_snapshot :: "mem_db \<Rightarrow> val list \<Rightarrow> mem_db" where
  "mem_insert_snapshot db args = (case args of
     [VInt32 t, VInt64 u, VInt64 b, VInt64 v] \<Rightarrow>
       db\<lparr>md_snaps := (md_snaps db)((t, u) \<mapsto> (b, v))\<rparr>
   | _ \<Rightarrow> db)"

definition mem_entry :: "mem_db \<Rightarrow> BatchEntry \<Rightarrow> mem_db" where
  "mem_entry db e =
     (if be_Stmt e = insertEventCQL then mem_insert_event db (be_Args e)
      else if be_Stmt e = insertSnapshotCQL then mem_insert_snapshot db (be_Args e)
      else db)"

definition mem_select :: "mem_db \<Rightarrow> string \<Rightarrow> val list \<Rightarrow> val list list" where
  "mem_select db cql args = (case args of
     [VInt32 t, VInt64 u] \<Rightarrow>
       (if cql = snapCQL then snapshot_rows (md_snaps db (t, u))
        else if cql = maxVersionCQL then max_version_rows (md_events db (t, u)) else [])
   | [VInt32 t, VInt64 u, VInt64 v] \<Rightarrow>
       (let es = events_after v (md_events db (t, u)) in
        if cql = eventCQL then event_rows es
        else if cql = deltaCQL then delta_rows es
        else if cql = versionDeltaCQL then version_delta_rows es else [])
   | _ \<Rightarrow> [])"

definition mem_session :: "mem_db gocql_session" where
  "mem_session = \<lparr>
     gs_ExecuteBatch = (\<lambda>db _ es. if md_down db then (db, 1, Some ''timeout'')
        else (foldl mem_entry db es, 1, None)),
     gs_Query = (\<lambda>db cql args. (mem_select db cql args, None))\<rparr>"

definition mem_inv :: "mem_db \<Rightarrow> bool" where
  "mem_inv db \<longleftrightarrow> (\<forall>k. strictly_sorted (md_events db k))"

lemma set_upsert: "set (upsert e es) \<subseteq> insert e (set es)"
  by (induction es) auto

lemma strictly_sorted_upsert: "strictly_sorted es \<Longrightarrow> strictly_sorted (upsert e es)"
proof (induction es)
  case Nil
  then show ?case by (simp add: strictly_sorted_def)
next
  case (Cons x xs)
  from Cons have IH: "strictly_sorted (upsert e xs)" by (simp add: strictly_sorted_def)
  consider (less) "sint (ev_version e) < sint (ev_version x)"
    | (eq) "ev_version e = ev_version x"
    | (greater) "sint (ev_version x) < sint (ev_version e)"
    by (metis linorder_less_linear sint64_eq_iff)
  then show ?case
  proof cases
    case less
    with Cons.prems show ?thesis by (auto simp: strictly_sorted_def)
  next
    case eq
    with Cons.prems show ?thesis by (auto simp: strictly_sorted_def)
  next
    case greater
    then have "upsert e (x # xs) = x # upsert e xs" by auto
    moreover have "\<forall>y \<in> set (upsert e xs). sint (ev_version x) < sint (ev_version y)"
      using set_upsert [of e xs] greater Cons.prems by (auto simp: strictly_sorted_def)
    ultimately show ?thesis using IH by (simp add: strictly_sorted_def)
  qed
qed

interpretation mem: wallet_session mem_session md_events md_snaps mem_inv
proof (unfold_locales, goal_cases)
  case (1 db k) then show ?case by (cases k) (simp add: mem_inv_def)
next
  case 2 then show ?case by (simp add: mem_session_def mem_select_def)
next
  case 3 then show ?case by (simp add: mem_session_def mem_select_def)
next
  case 4 then show ?case by (simp add: mem_session_def mem_select_def cql_defs)
next
  case 5 then show ?case by (simp add: mem_session_def mem_select_def cql_defs)
next
  case 6 then show ?case by (simp add: mem_session_def mem_select_def cql_defs)
next
  case (7 db k e db' el err)
  then show ?case
    by (cases e) (auto simp: mem_session_def mem_entry_def mem_insert_event_def eventStmt_def batchEntry_def
        mem_inv_def strictly_sorted_upsert split: if_splits)
next
  case (8 db k b v db' el err)
  then show ?case
    by (auto simp: mem_session_def mem_entry_def mem_insert_snapshot_def snapshotStmt_def
        batchEntry_def mem_inv_def insertEventCQL_def insertSnapshotCQL_def split: if_splits)
qed

end
