(* ===== verification/Wallet.thy ===== *)
theory Wallet
  imports Persistence
begin

text \<open>
  \<^verbatim>\<open>internal/node/actor.go\<close>: the business state of one actor, its rehydration from the event
  store and its message handler. The store is a parameter (\<^typ>\<open>'st Store\<close>), the clock an
  argument. Go's map \<^verbatim>\<open>txCache\<close> with empty values is a set, the ring buffer a list of fixed
  length. The snapshot goroutine that \<^verbatim>\<open>takeSnapshotAsync\<close> starts is returned as the statement
  it will execute, so that it can run at any later time.
\<close>

section \<open>Definitions\<close>

definition txCacheSize :: nat where "txCacheSize = 1000"
definition snapshotThreshold :: nat where "snapshotThreshold = 1000"

record BusinessActor =
  ba_tenantID :: int32
  ba_uid :: int64
  ba_balance :: int64
  ba_version :: int64
  ba_eventCount :: nat
  ba_txCache :: "string set"
  ba_txRing :: "string list"
  ba_txCursor :: nat
  ba_lastActive :: int64

definition newBusinessActor :: "int32 \<Rightarrow> int64 \<Rightarrow> int64 \<Rightarrow> BusinessActor" where
  "newBusinessActor tenantID uid now = \<lparr>ba_tenantID = tenantID, ba_uid = uid, ba_balance = 0,
     ba_version = 0, ba_eventCount = 0, ba_txCache = {}, ba_txRing = replicate txCacheSize '''',
     ba_txCursor = 0, ba_lastActive = now\<rparr>"

definition addTxID :: "BusinessActor \<Rightarrow> string \<Rightarrow> BusinessActor" where
  "addTxID b txID =
     (let old = ba_txRing b ! ba_txCursor b;
          b1 = (if old \<noteq> '''' then b\<lparr>ba_txCache := ba_txCache b - {old}\<rparr> else b)
      in b1\<lparr>ba_txCache := insert txID (ba_txCache b1),
            ba_txRing := (ba_txRing b1)[ba_txCursor b1 := txID],
            ba_txCursor := (ba_txCursor b1 + 1) mod txCacheSize\<rparr>)"

definition seedTxID :: "BusinessActor \<Rightarrow> string \<Rightarrow> BusinessActor" where
  "seedTxID b txID =
     (if txID \<in> ba_txCache b then b
      else b\<lparr>ba_txCache := insert txID (ba_txCache b),
             ba_txRing := (ba_txRing b)[ba_txCursor b := txID],
             ba_txCursor := (ba_txCursor b + 1) mod txCacheSize\<rparr>)"

text \<open>The scan loops of the two queries of \<^verbatim>\<open>rehydrate\<close>.\<close>

fun scanSnapshot :: "val list list \<Rightarrow> int64 \<times> int64 \<Rightarrow> int64 \<times> int64" where
  "scanSnapshot ([VInt64 b, VInt64 v] # rows) _ = scanSnapshot rows (b, v)"
| "scanSnapshot _ acc = acc"

definition gapError :: "int64 \<Rightarrow> int64 \<Rightarrow> string" where
  "gapError expected got = ''version gap: expected '' @ FormatInt (sint expected) @ '' got ''
     @ FormatInt (sint got) @ '' (data loss or out-of-order write)''"

fun scanEvents :: "val list list \<Rightarrow> BusinessActor \<times> int64 \<times> int64
    \<Rightarrow> (BusinessActor \<times> int64 \<times> int64) \<times> string option" where
  "scanEvents ([VInt64 version, VText txID, VInt64 delta] # rows) (b, balance, prevVersion) =
     (if version \<noteq> prevVersion + 1
      then ((b, balance, prevVersion), Some (gapError (prevVersion + 1) version))
      else scanEvents rows (seedTxID b txID, balance + delta, version))"
| "scanEvents _ acc = (acc, None)"

definition rehydrate :: "'st Store \<Rightarrow> 'st \<Rightarrow> BusinessActor \<Rightarrow> BusinessActor \<times> string option" where
  "rehydrate S st b =
     (case StoreQuery S st snapCQL [VInt32 (ba_tenantID b), VInt64 (ba_uid b)]
             (\<lambda>rows. (scanSnapshot rows (0, 0), None)) of
        (_, Some err) \<Rightarrow> (b, Some (''rehydrate: load snapshot failed: '' @ err))
      | ((snapshotBalance, lastVersion), None) \<Rightarrow>
          (case StoreQuery S st eventCQL [VInt32 (ba_tenantID b), VInt64 (ba_uid b), VInt64 lastVersion]
                  (\<lambda>rows. scanEvents rows (b, snapshotBalance, lastVersion)) of
             ((b', _, _), Some err) \<Rightarrow> (b', Some (''rehydrate: load events failed: '' @ err))
           | ((b', balance, prevVersion), None) \<Rightarrow>
               (b'\<lparr>ba_balance := balance, ba_version := prevVersion\<rparr>, None)))"

definition encodeBalance :: "BusinessActor \<Rightarrow> bytes" where
  "encodeBalance b = BigEndian_PutUint64 (ba_balance b)"

definition takeSnapshotAsync :: "BusinessActor \<Rightarrow> Statement" where
  "takeSnapshotAsync b = snapshotStmt (ba_tenantID b, ba_uid b) (ba_balance b) (ba_version b)"

text \<open>The goroutine body: its error is discarded.\<close>

definition runSnapshot :: "'st Store \<Rightarrow> 'st \<Rightarrow> Statement \<Rightarrow> 'st" where
  "runSnapshot S st stmt = fst (sto_ExecuteBatch S st UnloggedBatch [stmt])"

definition takeSnapshotSync :: "'st Store \<Rightarrow> 'st \<Rightarrow> BusinessActor \<Rightarrow> 'st" where
  "takeSnapshotSync S st b =
     (if ba_eventCount b = 0 then st
      else fst (sto_ExecuteBatch S st UnloggedBatch
             [snapshotStmt (ba_tenantID b, ba_uid b) (ba_balance b) (ba_version b)]))"

text \<open>
  \<^verbatim>\<open>Handle\<close> returns the result, the new actor state, the new store state and the snapshot
  goroutines it started.
\<close>

definition Handle ::
    "'st Store \<Rightarrow> 'st \<Rightarrow> BusinessActor \<Rightarrow> int64 \<Rightarrow> RemoteEnvelope
      \<Rightarrow> RemoteResult \<times> BusinessActor \<times> 'st \<times> Statement list" where
  "Handle S st b0 now env =
     (let b = b0\<lparr>ba_lastActive := now\<rparr>;
          base = zero_RemoteResult\<lparr>res_TenantId := ba_tenantID b, res_Uid := ba_uid b,
            res_TxId := env_TxId env, res_RequestId := env_RequestId env,
            res_OpCode := env_OpCode env\<rparr>
      in if env_TxId env \<in> ba_txCache b then (base\<lparr>res_Success := True\<rparr>, b, st, [])
         else if length (env_Payload env) < 8 then
           (base\<lparr>res_Success := False, res_ErrorCode := ErrInvalidPayload,
              res_ErrorMsg := ''payload must be 8 bytes (int64 big-endian)''\<rparr>, b, st, [])
         else let amount = BigEndian_Uint64 (env_Payload env);
                  newBalance = ba_balance b + amount
           in if newBalance <s 0 then
             (base\<lparr>res_Success := False, res_ErrorCode := ErrInsufficientFunds,
                res_ErrorMsg := ''balance cannot be negative''\<rparr>, b, st, [])
           else let nextVersion = ba_version b + 1;
                    stmt = eventStmt (ba_tenantID b, ba_uid b)
                      \<lparr>ev_version = nextVersion, ev_createdAt = now, ev_txID = env_TxId env,
                       ev_delta = amount, ev_payload = env_Payload env\<rparr>
             in (case sto_ExecuteBatch S st UnloggedBatch [stmt] of
                   (st', Some err) \<Rightarrow>
                     (base\<lparr>res_Success := False, res_ErrorCode := ErrPersistenceFailed,
                        res_ErrorMsg := err\<rparr>, b, st', [])
                 | (st', None) \<Rightarrow>
                     (let b1 = b\<lparr>ba_balance := newBalance, ba_version := nextVersion\<rparr>;
                          b2 = addTxID b1 (env_TxId env);
                          b3 = b2\<lparr>ba_eventCount := ba_eventCount b2 + 1\<rparr>;
                          (b4, spawned) =
                            (if ba_eventCount b3 \<ge> snapshotThreshold
                             then (b3\<lparr>ba_eventCount := 0\<rparr>, [takeSnapshotAsync b3])
                             else (b3, []))
                      in (base\<lparr>res_Success := True, res_Payload := encodeBalance b4\<rparr>,
                          b4, st', spawned))))"

section \<open>Branches of the handler\<close>

definition amount_of :: "RemoteEnvelope \<Rightarrow> int64" where
  "amount_of env = BigEndian_Uint64 (env_Payload env)"

text \<open>The guards of \<^const>\<open>Handle\<close> that let a message through to the store.\<close>

definition accepts :: "BusinessActor \<Rightarrow> RemoteEnvelope \<Rightarrow> bool" where
  "accepts b env \<longleftrightarrow> env_TxId env \<notin> ba_txCache b \<and> 8 \<le> length (env_Payload env) \<and>
     0 \<le> sint (ba_balance b + amount_of env)"

definition event_of :: "BusinessActor \<Rightarrow> int64 \<Rightarrow> RemoteEnvelope \<Rightarrow> EventRow" where
  "event_of b now env = \<lparr>ev_version = ba_version b + 1, ev_createdAt = now,
     ev_txID = env_TxId env, ev_delta = amount_of env, ev_payload = env_Payload env\<rparr>"

lemma addTxID_frame [simp]:
  "ba_tenantID (addTxID b x) = ba_tenantID b" "ba_uid (addTxID b x) = ba_uid b"
  "ba_balance (addTxID b x) = ba_balance b" "ba_version (addTxID b x) = ba_version b"
  "ba_eventCount (addTxID b x) = ba_eventCount b" "ba_lastActive (addTxID b x) = ba_lastActive b"
  by (simp_all add: addTxID_def Let_def)

lemma seedTxID_frame [simp]:
  "ba_tenantID (seedTxID b x) = ba_tenantID b" "ba_uid (seedTxID b x) = ba_uid b"
  "ba_balance (seedTxID b x) = ba_balance b" "ba_version (seedTxID b x) = ba_version b"
  "ba_eventCount (seedTxID b x) = ba_eventCount b" "ba_lastActive (seedTxID b x) = ba_lastActive b"
  by (simp_all add: seedTxID_def)

lemma seedTxID_cache [simp]: "ba_txCache (seedTxID b x) = insert x (ba_txCache b)"
  by (auto simp: seedTxID_def)

lemma addTxID_mem: "x \<in> ba_txCache (addTxID b x)"
  by (simp add: addTxID_def Let_def)

text \<open>A message that a guard stops changes nothing but the activity time.\<close>

lemma Handle_rejected:
  assumes "\<not> accepts b env"
  shows "\<exists>r. Handle S st b now env = (r, b\<lparr>ba_lastActive := now\<rparr>, st, []) \<and>
    (res_Success r \<longleftrightarrow> env_TxId env \<in> ba_txCache b)"
  using assms by (auto simp: Handle_def accepts_def amount_of_def Let_def zero_RemoteResult_def)

lemma Handle_dup:
  assumes "env_TxId env \<in> ba_txCache b"
  shows "\<exists>r. Handle S st b now env = (r, b\<lparr>ba_lastActive := now\<rparr>, st, []) \<and> res_Success r \<and>
    res_Payload r = []"
  using assms by (simp add: Handle_def Let_def zero_RemoteResult_def)

lemma Handle_short:
  assumes "env_TxId env \<notin> ba_txCache b" and "length (env_Payload env) < 8"
  shows "\<exists>r. Handle S st b now env = (r, b\<lparr>ba_lastActive := now\<rparr>, st, []) \<and> \<not> res_Success r \<and>
    res_ErrorCode r = ErrInvalidPayload"
  using assms by (simp add: Handle_def Let_def)

lemma Handle_funds:
  assumes "env_TxId env \<notin> ba_txCache b" and "\<not> length (env_Payload env) < 8"
    and "sint (ba_balance b + amount_of env) < 0"
  shows "\<exists>r. Handle S st b now env = (r, b\<lparr>ba_lastActive := now\<rparr>, st, []) \<and> \<not> res_Success r \<and>
    res_ErrorCode r = ErrInsufficientFunds"
  using assms by (simp add: Handle_def Let_def amount_of_def word_sless_alt)

lemma Handle_persist_fail:
  assumes "accepts b env"
    and "sto_ExecuteBatch S st UnloggedBatch
      [eventStmt (ba_tenantID b, ba_uid b) (event_of b now env)] = (st', Some err)"
  shows "\<exists>r. Handle S st b now env = (r, b\<lparr>ba_lastActive := now\<rparr>, st', []) \<and>
    \<not> res_Success r \<and> res_ErrorCode r = ErrPersistenceFailed \<and> res_ErrorMsg r = err"
  using assms
  by (auto simp: Handle_def accepts_def amount_of_def event_of_def Let_def zero_RemoteResult_def)

text \<open>The state after a message has been persisted, and the snapshot it may start.\<close>

definition committed :: "BusinessActor \<Rightarrow> int64 \<Rightarrow> RemoteEnvelope \<Rightarrow> BusinessActor" where
  "committed b now env =
     (let b2 = addTxID (b\<lparr>ba_lastActive := now, ba_balance := ba_balance b + amount_of env,
               ba_version := ba_version b + 1\<rparr>) (env_TxId env)
      in b2\<lparr>ba_eventCount := (if ba_eventCount b + 1 \<ge> snapshotThreshold then 0
              else ba_eventCount b + 1)\<rparr>)"

definition spawned_snapshots :: "BusinessActor \<Rightarrow> RemoteEnvelope \<Rightarrow> Statement list" where
  "spawned_snapshots b env = (if ba_eventCount b + 1 \<ge> snapshotThreshold
     then [snapshotStmt (ba_tenantID b, ba_uid b) (ba_balance b + amount_of env) (ba_version b + 1)]
     else [])"

lemma Handle_committed:
  assumes "accepts b env"
    and "sto_ExecuteBatch S st UnloggedBatch
      [eventStmt (ba_tenantID b, ba_uid b) (event_of b now env)] = (st', None)"
  shows "\<exists>r. Handle S st b now env = (r, committed b now env, st', spawned_snapshots b env) \<and>
    res_Success r \<and> res_Payload r = BigEndian_PutUint64 (ba_balance b + amount_of env)"
  using assms
  by (auto simp: Handle_def accepts_def amount_of_def event_of_def committed_def
      spawned_snapshots_def takeSnapshotAsync_def encodeBalance_def Let_def)

lemma committed_sel [simp]:
  "ba_tenantID (committed b now env) = ba_tenantID b"
  "ba_uid (committed b now env) = ba_uid b"
  "ba_balance (committed b now env) = ba_balance b + amount_of env"
  "ba_version (committed b now env) = ba_version b + 1"
  "ba_eventCount (committed b now env) =
     (if snapshotThreshold \<le> ba_eventCount b + 1 then 0 else ba_eventCount b + 1)"
  by (simp_all add: committed_def Let_def)

lemma committed_window_sel:
  "ba_lastActive (committed b now env) = now"
  "ba_txCache (committed b now env) = insert (env_TxId env)
     (ba_txCache b - ({ba_txRing b ! ba_txCursor b} - {''''}))"
  "ba_txRing (committed b now env) = (ba_txRing b)[ba_txCursor b := env_TxId env]"
  "ba_txCursor (committed b now env) = (ba_txCursor b + 1) mod txCacheSize"
  by (auto simp: committed_def addTxID_def Let_def)

lemma committed_mem: "env_TxId env \<in> ba_txCache (committed b now env)"
  by (simp add: committed_def Let_def addTxID_mem)

text \<open>Every run of the handler is one of the three.\<close>

lemma Handle_cases [consumes 1, case_names rejected failed committed]:
  assumes "Handle S st b now env = (r, b', st', sp)"
  obtains
    (rejected) "\<not> accepts b env" "b' = b\<lparr>ba_lastActive := now\<rparr>" "st' = st" "sp = []"
      "res_Success r \<longleftrightarrow> env_TxId env \<in> ba_txCache b"
  | (failed) err where "accepts b env" "b' = b\<lparr>ba_lastActive := now\<rparr>" "sp = []"
      "sto_ExecuteBatch S st UnloggedBatch
        [eventStmt (ba_tenantID b, ba_uid b) (event_of b now env)] = (st', Some err)"
      "\<not> res_Success r" "res_ErrorCode r = ErrPersistenceFailed" "res_ErrorMsg r = err"
  | (committed) "accepts b env" "b' = committed b now env" "sp = spawned_snapshots b env"
      "sto_ExecuteBatch S st UnloggedBatch
        [eventStmt (ba_tenantID b, ba_uid b) (event_of b now env)] = (st', None)"
      "res_Success r" "res_Payload r = BigEndian_PutUint64 (ba_balance b + amount_of env)"
proof (cases "accepts b env")
  case False
  with Handle_rejected [OF False, of S st now] assms rejected show thesis by auto
next
  case True
  obtain st1 e where x: "sto_ExecuteBatch S st UnloggedBatch
      [eventStmt (ba_tenantID b, ba_uid b) (event_of b now env)] = (st1, e)"
    by fastforce
  show thesis
  proof (cases e)
    case None
    with Handle_committed [OF True, of S st now] assms x True committed show thesis by auto
  next
    case (Some err)
    with Handle_persist_fail [OF True, of S st now] assms x True failed show thesis by auto
  qed
qed

lemma Handle_identity:
  "Handle S st b now env = (r, b', st', sp) \<Longrightarrow>
     (res_TenantId r, res_Uid r, res_TxId r, res_RequestId r, res_OpCode r) =
     (ba_tenantID b, ba_uid b, env_TxId env, env_RequestId env, env_OpCode env)"
  by (auto simp: Handle_def Let_def split: if_splits prod.splits option.splits)

lemma Handle_key:
  "Handle S st b now env = (r, b', st', sp) \<Longrightarrow>
     ba_tenantID b' = ba_tenantID b \<and> ba_uid b' = ba_uid b"
  by (erule Handle_cases) auto

section \<open>Ledgers\<close>

text \<open>Rows whose versions follow each other without a gap, starting after \<^term>\<open>v\<close>.\<close>

fun chain :: "int64 \<Rightarrow> EventRow list \<Rightarrow> bool" where
  "chain v [] \<longleftrightarrow> True"
| "chain v (e # es) \<longleftrightarrow> ev_version e = v + 1 \<and> chain (v + 1) es"

definition deltas :: "EventRow list \<Rightarrow> int64" where
  "deltas es = sum_list (map ev_delta es)"

lemma deltas_simps [simp]:
  "deltas [] = 0" "deltas (e # es) = ev_delta e + deltas es"
  "deltas (xs @ ys) = deltas xs + deltas ys"
  by (simp_all add: deltas_def)

lemma chain_append:
  "chain v (xs @ ys) \<longleftrightarrow> chain v xs \<and> chain (v + of_nat (length xs)) ys"
  by (induction xs arbitrary: v) (auto simp: algebra_simps)

lemma chain_nth:
  "chain v es \<Longrightarrow> i < length es \<Longrightarrow> ev_version (es ! i) = v + of_nat (Suc i)"
proof (induction es arbitrary: v i)
  case Nil
  then show ?case by simp
next
  case (Cons e es)
  then show ?case by (cases i) (auto simp: algebra_simps)
qed

lemma chain_iff: "chain v es \<longleftrightarrow> (\<forall>i < length es. ev_version (es ! i) = v + of_nat (Suc i))"
proof (induction es arbitrary: v)
  case (Cons e es)
  then show ?case by (auto simp: less_Suc_eq_0_disj All_less_Suc2 algebra_simps)
qed simp

lemma chain_take_drop: "chain v es \<Longrightarrow> n \<le> length es \<Longrightarrow> chain (v + of_nat n) (drop n es)"
  using chain_append [of v "take n es" "drop n es"] by simp

lemma sint_chain_version:
  assumes "chain 0 es" and "length es < 2 ^ 63" and "i < length es"
  shows "sint (ev_version (es ! i)) = int (Suc i)"
  using chain_nth [OF assms(1,3)] assms sint_of_nat64 [of "Suc i"] by (simp del: of_nat_Suc)

text \<open>The rows after version \<^term>\<open>n\<close> are what is left when the first \<^term>\<open>n\<close> are dropped.\<close>

lemma events_after_chain:
  assumes "chain 0 es" and "length es < 2 ^ 63" and "n \<le> length es"
  shows "events_after (of_nat n) es = drop n es"
proof -
  let ?P = "\<lambda>e. of_nat n <s ev_version e"
  have ver: "?P (es ! i) \<longleftrightarrow> n \<le> i" if "i < length es" for i
    using sint_chain_version [OF assms(1,2) that] assms sint_of_nat64 [of n]
    by (auto simp: word_sless_alt)
  have "filter ?P (take n es) = []"
    using ver assms(3) by (auto simp: filter_empty_conv in_set_conv_nth)
  moreover have "filter ?P (drop n es) = drop n es"
    using ver assms(3) by (auto simp: filter_id_conv in_set_conv_nth)
  ultimately show ?thesis
    unfolding events_after_def by (metis append_take_drop_id filter_append append_Nil)
qed

lemma upsert_append:
  assumes "\<forall>x \<in> set xs. sint (ev_version x) < sint (ev_version e)"
  shows "upsert e (xs @ ys) = xs @ upsert e ys"
  using assms by (induction xs) auto

lemma length_upsert: "length es \<le> length (upsert e es)"
  by (induction es) auto

text \<open>Writing the next version of a ledger appends, or replaces an unacknowledged last row.\<close>

lemma upsert_next:
  assumes "chain 0 (rows @ ph)" and "length ph \<le> 1" and "length rows < 2 ^ 63 - 1"
    and "ev_version e = of_nat (length rows) + 1"
  shows "upsert e (rows @ ph) = rows @ [e]"
proof -
  have e: "sint (ev_version e) = int (length rows) + 1"
    using sint_of_nat64 [of "Suc (length rows)"] assms(3,4) by (simp add: add.commute)
  have "\<forall>x \<in> set rows. sint (ev_version x) < sint (ev_version e)"
  proof
    fix x assume "x \<in> set rows"
    then obtain i where i: "i < length rows" "x = rows ! i" by (auto simp: in_set_conv_nth)
    with assms(1,3) have "sint (ev_version x) = int (Suc i)"
      using sint_chain_version [of rows i] by (simp add: chain_append)
    with i e show "sint (ev_version x) < sint (ev_version e)" by simp
  qed
  then have "upsert e (rows @ ph) = rows @ upsert e ph" by (rule upsert_append)
  moreover have "upsert e ph = [e]"
    using assms(1,2,4) by (cases ph) (auto simp: chain_append)
  ultimately show ?thesis by simp
qed

text \<open>A snapshot is good for a ledger when it is the sum of one of its prefixes.\<close>

definition good_snapshot :: "EventRow list \<Rightarrow> int64 \<times> int64 \<Rightarrow> bool" where
  "good_snapshot rows s \<longleftrightarrow>
     (\<exists>n \<le> length rows. snd s = of_nat n \<and> fst s = deltas (take n rows))"

lemma good_snapshot_append:
  assumes "good_snapshot rows s"
  shows "good_snapshot (rows @ xs) s"
proof -
  from assms obtain n where "n \<le> length rows" "snd s = of_nat n" "fst s = deltas (take n rows)"
    by (auto simp: good_snapshot_def)
  then have "n \<le> length (rows @ xs) \<and> snd s = of_nat n \<and> fst s = deltas (take n (rows @ xs))"
    by simp
  then show ?thesis unfolding good_snapshot_def by blast
qed

definition ledger_ok :: "EventRow list \<Rightarrow> (int64 \<times> int64) option \<Rightarrow> bool" where
  "ledger_ok es s \<longleftrightarrow> chain 0 es \<and> (\<forall>x. s = Some x \<longrightarrow> good_snapshot es x)"

section \<open>Rehydration\<close>

lemma scanEvents_chain:
  "chain v es \<Longrightarrow> scanEvents (event_rows es) (b, bal, v) =
     ((fold (\<lambda>e b. seedTxID b (ev_txID e)) es b, bal + deltas es, v + of_nat (length es)), None)"
  by (induction es arbitrary: b bal v) (auto simp: event_rows_def algebra_simps)

lemma scanEvents_gap:
  "snd (scanEvents (event_rows es) (b, bal, v)) = None \<longleftrightarrow> chain v es"
  by (induction es arbitrary: b bal v) (auto simp: event_rows_def)

lemma fold_seed_frame [simp]:
  "ba_tenantID (fold (\<lambda>e b. seedTxID b (ev_txID e)) es b) = ba_tenantID b"
  "ba_uid (fold (\<lambda>e b. seedTxID b (ev_txID e)) es b) = ba_uid b"
  "ba_eventCount (fold (\<lambda>e b. seedTxID b (ev_txID e)) es b) = ba_eventCount b"
  "ba_txCache (fold (\<lambda>e b. seedTxID b (ev_txID e)) es b) = ba_txCache b \<union> ev_txID ` set es"
  by (induction es arbitrary: b) auto

lemma scanSnapshot_rows [simp]:
  "scanSnapshot (snapshot_rows s) acc = (case s of None \<Rightarrow> acc | Some x \<Rightarrow> x)"
  by (auto simp: snapshot_rows_def split: option.splits)

definition reads_ok :: "'st Store \<Rightarrow> 'st \<Rightarrow> wkey \<Rightarrow> bool" where
  "reads_ok S st k \<longleftrightarrow> snd (sto_Query S st snapCQL [VInt32 (fst k), VInt64 (snd k)]) = None \<and>
     (\<forall>v. snd (sto_Query S st eventCQL [VInt32 (fst k), VInt64 (snd k), VInt64 v]) = None)"

text \<open>The snapshot a partition starts from: the stored row, or zero.\<close>

definition snap_of :: "(int64 \<times> int64) option \<Rightarrow> int64 \<times> int64" where
  "snap_of s = (case s of None \<Rightarrow> (0, 0) | Some x \<Rightarrow> x)"

lemma ledger_snap:
  assumes "ledger_ok es s"
  obtains n where "n \<le> length es" and "snap_of s = (deltas (take n es), of_nat n)"
proof (cases s)
  case None
  then show thesis using that [of 0] by (simp add: snap_of_def)
next
  case (Some x)
  with assms obtain n where "n \<le> length es" "snd x = of_nat n" "fst x = deltas (take n es)"
    by (auto simp: ledger_ok_def good_snapshot_def)
  with Some show thesis using that [of n] by (simp add: snap_of_def prod_eq_iff)
qed

section \<open>The life of one actor\<close>

text \<open>
  Steps of a running actor: it handles a message, a snapshot goroutine started earlier runs, or a
  synchronous snapshot is taken. The third component of a state holds the snapshot goroutines that
  have not run yet. A step is labelled with what it tells the outside: the message, the time it was
  handled and the result returned for it, and nothing for the snapshots.
\<close>

type_synonym reply = "int64 \<times> RemoteEnvelope \<times> RemoteResult"
type_synonym 'st wallet_cfg = "'st \<times> BusinessActor \<times> Statement list"

inductive wallet_step :: "'st Store \<Rightarrow> 'st wallet_cfg \<Rightarrow> reply list \<Rightarrow> 'st wallet_cfg \<Rightarrow> bool"
  for S where
  step_handle: "Handle S st b now env = (r, b', st', sp) \<Longrightarrow>
     wallet_step S (st, b, pend) [(now, env, r)] (st', b', pend @ sp)"
| step_snapshot: "stmt \<in> set pend \<Longrightarrow>
     wallet_step S (st, b, pend) [] (runSnapshot S st stmt, b, remove1 stmt pend)"
| step_sync: "wallet_step S (st, b, pend) [] (takeSnapshotSync S st b, b, pend)"

text \<open>A run, with the replies it has given, oldest first.\<close>

inductive wallet_run :: "'st Store \<Rightarrow> 'st wallet_cfg \<Rightarrow> reply list \<Rightarrow> 'st wallet_cfg \<Rightarrow> bool"
  for S s where
  run_start: "wallet_run S s [] s"
| run_step: "wallet_run S s tr s' \<Longrightarrow> wallet_step S s' l s'' \<Longrightarrow> wallet_run S s (tr @ l) s''"

text \<open>
  A result with a balance in it acknowledges a transaction that was applied now; a success without
  one acknowledges a repeated transaction.
\<close>

definition applied :: "RemoteResult \<Rightarrow> bool" where
  "applied r \<longleftrightarrow> res_Success r \<and> res_Payload r \<noteq> []"

text \<open>The events that the replies of a run acknowledge as applied, numbered from \<^term>\<open>v + 1\<close>.\<close>

fun acked :: "int64 \<Rightarrow> reply list \<Rightarrow> EventRow list" where
  "acked v [] = []"
| "acked v ((now, env, r) # tr) =
     (if applied r
      then \<lparr>ev_version = v + 1, ev_createdAt = now, ev_txID = env_TxId env,
             ev_delta = BigEndian_Uint64 (env_Payload env), ev_payload = env_Payload env\<rparr> # acked (v + 1) tr
      else acked v tr)"

text \<open>The replies that report a failed write of a given event.\<close>

definition reported_failed :: "reply list \<Rightarrow> EventRow \<Rightarrow> bool" where
  "reported_failed tr e \<longleftrightarrow> (\<exists>env r. (ev_createdAt e, env, r) \<in> set tr \<and> \<not> res_Success r \<and>
     res_ErrorCode r = ErrPersistenceFailed \<and> ev_txID e = env_TxId env \<and>
     ev_delta e = BigEndian_Uint64 (env_Payload env) \<and> ev_payload e = env_Payload env)"

lemma acked_append:
  "acked v (xs @ ys) = acked v xs @ acked (v + of_nat (length (acked v xs))) ys"
  by (induction v xs rule: acked.induct) (auto simp: algebra_simps)

lemma reported_failed_mono: "reported_failed tr e \<Longrightarrow> reported_failed (tr @ tr') e"
  unfolding reported_failed_def by (metis UnCI set_append)

text \<open>
  What ties an actor to its partition: the rows it has acknowledged, possibly followed by one row
  whose write was reported as failed, and snapshots that are prefix sums of the acknowledged rows.
\<close>

definition tracks :: "EventRow list \<Rightarrow> (int64 \<times> int64) option \<Rightarrow> Statement list \<Rightarrow> BusinessActor \<Rightarrow> bool" where
  "tracks es s pend b \<longleftrightarrow> (\<exists>rows ph. es = rows @ ph \<and> length ph \<le> 1 \<and> chain 0 es \<and>
     ba_version b = of_nat (length rows) \<and> ba_balance b = deltas rows \<and>
     (\<forall>x. s = Some x \<longrightarrow> good_snapshot rows x) \<and>
     (\<forall>stmt \<in> set pend. \<exists>bal v. stmt = snapshotStmt (ba_tenantID b, ba_uid b) bal v \<and>
        good_snapshot rows (bal, v)))"

lemma tracks_ledger: "tracks es s pend b \<Longrightarrow> ledger_ok es s"
  by (auto simp: tracks_def ledger_ok_def intro: good_snapshot_append)

lemma good_snapshot_full: "good_snapshot rows (deltas rows, of_nat (length rows))"
  by (auto simp: good_snapshot_def intro: exI [of _ "length rows"])

lemma tracks_commit:
  assumes "tracks es s pend b" and "length es < 2 ^ 63 - 1" and "accepts b env"
  shows "tracks (upsert (event_of b now env) es) s (pend @ spawned_snapshots b env) (committed b now env)"
proof -
  from assms(1) obtain rows ph where es: "es = rows @ ph" "length ph \<le> 1" "chain 0 es"
    and b: "ba_version b = of_nat (length rows)" "ba_balance b = deltas rows"
    and s: "\<forall>x. s = Some x \<longrightarrow> good_snapshot rows x"
    and p: "\<forall>stmt \<in> set pend. \<exists>bal v. stmt = snapshotStmt (ba_tenantID b, ba_uid b) bal v \<and>
        good_snapshot rows (bal, v)"
    by (auto simp: tracks_def)
  let ?e = "event_of b now env"
  have up: "upsert ?e es = rows @ [?e]"
    using upsert_next [of rows ph ?e] es b assms(2) by (simp add: event_of_def)
  have full: "good_snapshot (rows @ [?e]) (ba_balance b + amount_of env, ba_version b + 1)"
    using good_snapshot_full [of "rows @ [?e]"] b by (simp add: event_of_def add.commute)
  have p': "\<forall>stmt \<in> set pend. \<exists>bal v. stmt = snapshotStmt (ba_tenantID b, ba_uid b) bal v \<and>
      good_snapshot (rows @ [?e]) (bal, v)"
    using p good_snapshot_append by blast
  have pend: "\<exists>bal v. stmt = snapshotStmt (ba_tenantID b, ba_uid b) bal v \<and>
      good_snapshot (rows @ [?e]) (bal, v)"
    if "stmt \<in> set (pend @ spawned_snapshots b env)" for stmt
    using that p' full by (auto simp: spawned_snapshots_def split: if_splits)
  have ch: "chain 0 (rows @ [?e])"
    using es b by (auto simp: chain_append event_of_def)
  show ?thesis
    unfolding tracks_def up
    by (rule exI [of _ "rows @ [?e]"], rule exI [of _ "[]"])
      (use b s pend ch in \<open>auto simp: event_of_def add.commute intro: good_snapshot_append\<close>)
qed

lemma tracks_failed:
  assumes "tracks es s pend b" and "length es < 2 ^ 63 - 1"
  shows "tracks (upsert (event_of b now env) es) s pend (b\<lparr>ba_lastActive := now\<rparr>)"
proof -
  from assms(1) obtain rows ph where es: "es = rows @ ph" "length ph \<le> 1" "chain 0 es"
    and b: "ba_version b = of_nat (length rows)" "ba_balance b = deltas rows"
    and sp: "\<forall>x. s = Some x \<longrightarrow> good_snapshot rows x"
      "\<forall>stmt \<in> set pend. \<exists>bal v. stmt = snapshotStmt (ba_tenantID b, ba_uid b) bal v \<and>
        good_snapshot rows (bal, v)"
    by (auto simp: tracks_def)
  let ?e = "event_of b now env"
  have up: "upsert ?e es = rows @ [?e]"
    using upsert_next [of rows ph ?e] es b assms(2) by (simp add: event_of_def)
  have ch: "chain 0 (rows @ [?e])"
    using es b by (auto simp: chain_append event_of_def)
  show ?thesis
    unfolding tracks_def up
    by (rule exI [of _ "rows"], rule exI [of _ "[?e]"]) (use b sp ch in auto)
qed

lemma tracks_active: "tracks es s pend b \<Longrightarrow> tracks es s pend (b\<lparr>ba_lastActive := now\<rparr>)"
  by (simp add: tracks_def)

lemma tracks_subset:
  "tracks es s pend b \<Longrightarrow> set pend' \<subseteq> set pend \<Longrightarrow> tracks es s pend' b"
  unfolding tracks_def by blast

lemma tracks_pending:
  assumes "tracks es s pend b" and "stmt \<in> set pend"
  obtains bal v where "stmt = snapshotStmt (ba_tenantID b, ba_uid b) bal v"
    and "tracks es (Some (bal, v)) pend b"
proof -
  from assms obtain rows ph bal v where 1: "es = rows @ ph" "length ph \<le> 1" "chain 0 es"
      "ba_version b = of_nat (length rows)" "ba_balance b = deltas rows"
    and 2: "\<forall>stmt \<in> set pend. \<exists>bal v. stmt = snapshotStmt (ba_tenantID b, ba_uid b) bal v \<and>
        good_snapshot rows (bal, v)"
    and 3: "stmt = snapshotStmt (ba_tenantID b, ba_uid b) bal v" "good_snapshot rows (bal, v)"
    unfolding tracks_def by blast
  then have "tracks es (Some (bal, v)) pend b"
    unfolding tracks_def by (intro exI [of _ rows] exI [of _ ph]) simp
  with 3 that show thesis by blast
qed

lemma tracks_sync:
  assumes "tracks es s pend b" and "length es < 2 ^ 63 - 1"
  shows "tracks es (Some (ba_balance b, ba_version b)) pend b"
proof -
  from assms obtain rows ph where 1: "es = rows @ ph" "length ph \<le> 1" "chain 0 es"
      "ba_version b = of_nat (length rows)" "ba_balance b = deltas rows"
      "\<forall>stmt \<in> set pend. \<exists>bal v. stmt = snapshotStmt (ba_tenantID b, ba_uid b) bal v \<and>
        good_snapshot rows (bal, v)"
    unfolding tracks_def by blast
  then show ?thesis
    unfolding tracks_def
    by (intro exI [of _ rows] exI [of _ ph]) (simp add: good_snapshot_full)
qed

context wallet_store
begin

lemma tracks_handle:
  assumes "invar st" and "tracks (ev st k) (sn st k) pend b" and "k = (ba_tenantID b, ba_uid b)"
    and "length (ev st k) < 2 ^ 63 - 1" and "Handle S st b now env = (r, b', st', sp)"
  shows "invar st'" and "tracks (ev st' k) (sn st' k) (pend @ sp) b'"
proof -
  have "invar st' \<and> tracks (ev st' k) (sn st' k) (pend @ sp) b'"
    using assms(5)
  proof (cases rule: Handle_cases)
    case rejected
    with assms show ?thesis by (simp add: tracks_active)
  next
    case (failed err)
    with x_event [OF assms(1) failed(4)] assms show ?thesis
      by (auto simp: tracks_active tracks_failed)
  next
    case committed
    with x_event_ok [OF assms(1) committed(4)] assms show ?thesis
      by (simp add: tracks_commit)
  qed
  then show "invar st'" and "tracks (ev st' k) (sn st' k) (pend @ sp) b'" by auto
qed

lemma tracks_run_snapshot:
  assumes "invar st" and "tracks (ev st k) (sn st k) pend b" and "k = (ba_tenantID b, ba_uid b)"
    and "stmt \<in> set pend"
  shows "invar (runSnapshot S st stmt) \<and> ev (runSnapshot S st stmt) = ev st \<and>
    tracks (ev st k) (sn (runSnapshot S st stmt) k) pend b"
proof -
  obtain st' err where x: "sto_ExecuteBatch S st UnloggedBatch [stmt] = (st', err)" by fastforce
  from tracks_pending [OF assms(2,4)] assms(3) obtain bal v
    where stmt: "stmt = snapshotStmt k bal v" and t: "tracks (ev st k) (Some (bal, v)) pend b"
    by blast
  have x': "sto_ExecuteBatch S st UnloggedBatch [snapshotStmt k bal v] = (st', err)"
    using x stmt by simp
  have "invar st' \<and> ev st' = ev st \<and> tracks (ev st k) (sn st' k) pend b"
    using x_snap [OF assms(1) x'] t assms(2) by auto
  then show ?thesis by (simp add: runSnapshot_def x)
qed

end

lemma Handle_spawned:
  "Handle S st b now env = (r, b', st', sp) \<Longrightarrow> stmt \<in> set sp \<Longrightarrow>
     \<exists>bal v. stmt = snapshotStmt (ba_tenantID b, ba_uid b) bal v"
  by (erule Handle_cases) (auto simp: spawned_snapshots_def split: if_splits)

text \<open>The invariant of a run, as long as the version counter stays in range.\<close>

definition wallet_inv ::
    "('st \<Rightarrow> wkey \<Rightarrow> EventRow list) \<Rightarrow> ('st \<Rightarrow> wkey \<Rightarrow> (int64 \<times> int64) option) \<Rightarrow> ('st \<Rightarrow> bool)
      \<Rightarrow> wkey \<Rightarrow> 'st \<times> BusinessActor \<times> Statement list \<Rightarrow> bool" where
  "wallet_inv ev sn invar k = (\<lambda>(st, b, pend). invar st \<and> k = (ba_tenantID b, ba_uid b) \<and>
     (\<forall>stmt \<in> set pend. \<exists>bal v. stmt = snapshotStmt k bal v) \<and>
     (length (ev st k) < 2 ^ 63 - 1 \<longrightarrow> tracks (ev st k) (sn st k) pend b))"

context wallet_store
begin

lemma invar_Handle:
  assumes "invar st" and "Handle S st b now env = (r, b', st', sp)"
  shows "invar st'" and "length (ev st k) \<le> length (ev st' k)"
proof -
  have "invar st' \<and> length (ev st k) \<le> length (ev st' k)"
    using assms(2)
  proof (cases rule: Handle_cases)
    case (failed err)
    with x_event [OF assms(1) failed(4)] show ?thesis by (auto simp: length_upsert)
  next
    case committed
    with x_event [OF assms(1) committed(4)] show ?thesis by (auto simp: length_upsert)
  qed (use assms in simp)
  then show "invar st'" and "length (ev st k) \<le> length (ev st' k)" by auto
qed

lemma takeSnapshotSync_inv:
  assumes "wallet_inv ev sn invar k (st, b, pend)"
  shows "wallet_inv ev sn invar k (takeSnapshotSync S st b, b, pend)"
proof (cases "ba_eventCount b = 0")
  case True
  with assms show ?thesis by (simp add: takeSnapshotSync_def)
next
  case False
  from assms have i: "invar st" and k: "k = (ba_tenantID b, ba_uid b)"
    by (auto simp: wallet_inv_def)
  obtain st' err where x: "sto_ExecuteBatch S st UnloggedBatch
      [snapshotStmt k (ba_balance b) (ba_version b)] = (st', err)" by fastforce
  with False k have eq: "takeSnapshotSync S st b = st'" by (simp add: takeSnapshotSync_def)
  from x_snap [OF i x] assms k show ?thesis
    unfolding eq by (auto simp: wallet_inv_def tracks_sync)
qed

lemma wallet_step_inv:
  assumes "wallet_step S s l s'" and "wallet_inv ev sn invar k s"
  shows "wallet_inv ev sn invar k s'"
  using assms
proof (induction rule: wallet_step.induct)
  case (step_handle st b now env r b' st' sp pend)
  then have i: "invar st" and k: "k = (ba_tenantID b, ba_uid b)" by (auto simp: wallet_inv_def)
  have "tracks (ev st' k) (sn st' k) (pend @ sp) b'" if "length (ev st' k) < 2 ^ 63 - 1"
  proof (rule tracks_handle(2) [OF i _ k _ step_handle(1)])
    show bound: "length (ev st k) < 2 ^ 63 - 1"
      using that invar_Handle(2) [OF i step_handle(1), of k] by linarith
    with step_handle.prems show "tracks (ev st k) (sn st k) pend b" by (auto simp: wallet_inv_def)
  qed
  moreover have "\<exists>bal v. stmt = snapshotStmt k bal v" if "stmt \<in> set (pend @ sp)" for stmt
    using that step_handle.prems Handle_spawned [OF step_handle(1)] by (auto simp: wallet_inv_def)
  ultimately show ?case
    using invar_Handle(1) [OF i step_handle(1)] Handle_key [OF step_handle(1)] k
    by (auto simp: wallet_inv_def)
next
  case (step_snapshot stmt pend st b)
  then have i: "invar st" and k: "k = (ba_tenantID b, ba_uid b)" by (auto simp: wallet_inv_def)
  have sub: "set (remove1 stmt pend) \<subseteq> set pend" by (rule set_remove1_subset)
  from step_snapshot obtain bal v where "stmt = snapshotStmt k bal v" by (auto simp: wallet_inv_def)
  then have frame: "invar (runSnapshot S st stmt) \<and> ev (runSnapshot S st stmt) = ev st"
    using x_snap [OF i, of k bal v] by (cases "sto_ExecuteBatch S st UnloggedBatch [stmt]")
      (simp add: runSnapshot_def)
  have "tracks (ev st k) (sn (runSnapshot S st stmt) k) (remove1 stmt pend) b"
    if "length (ev st k) < 2 ^ 63 - 1"
  proof (rule tracks_subset [OF _ sub])
    have t: "tracks (ev st k) (sn st k) pend b"
      using that step_snapshot.prems by (auto simp: wallet_inv_def)
    show "tracks (ev st k) (sn (runSnapshot S st stmt) k) pend b"
      using tracks_run_snapshot [OF i t k step_snapshot.hyps] by blast
  qed
  with frame sub step_snapshot.prems show ?case by (auto simp: wallet_inv_def)
next
  case (step_sync st b pend)
  then show ?case by (rule takeSnapshotSync_inv)
qed

end

text \<open>What \<^const>\<open>rehydrate\<close> computes from a partition whose reads succeed.\<close>

definition rehydrated :: "BusinessActor \<Rightarrow> int64 \<times> int64 \<Rightarrow> EventRow list \<Rightarrow> BusinessActor" where
  "rehydrated b s es = (fold (\<lambda>e b. seedTxID b (ev_txID e)) es b)
     \<lparr>ba_balance := fst s + deltas es, ba_version := snd s + of_nat (length es)\<rparr>"

context wallet_store
begin

lemma rehydrate_reads:
  assumes "invar st" and "reads_ok S st k" and "k = (ba_tenantID b, ba_uid b)"
  defines "s \<equiv> snap_of (sn st k)"
  defines "es \<equiv> events_after (snd s) (ev st k)"
  shows "chain (snd s) es \<Longrightarrow> rehydrate S st b = (rehydrated b s es, None)"
    and "\<not> chain (snd s) es \<Longrightarrow> \<exists>b' err. rehydrate S st b = (b', Some err)"
proof -
  obtain rows where q1: "sto_Query S st snapCQL [VInt32 (fst k), VInt64 (snd k)] = (rows, None)"
    using assms(2) unfolding reads_ok_def by (metis prod.collapse)
  obtain rows2 where q2: "sto_Query S st eventCQL [VInt32 (fst k), VInt64 (snd k), VInt64 (snd s)] = (rows2, None)"
    using assms(2) unfolding reads_ok_def by (metis prod.collapse)
  have r1: "scanSnapshot rows (0, 0) = s"
    using q_snap [OF assms(1) q1] by (simp add: s_def snap_of_def)
  have r2: "rows2 = event_rows es"
    using q_event [OF assms(1) q2] by (simp add: es_def)
  have re: "rehydrate S st b = (case scanEvents (event_rows es) (b, fst s, snd s) of
        ((b', _, _), Some err) \<Rightarrow> (b', Some (''rehydrate: load events failed: '' @ err))
      | ((b', bal, v), None) \<Rightarrow> (b'\<lparr>ba_balance := bal, ba_version := v\<rparr>, None))"
    using q1 q2 r1 r2 assms(3)
    by (auto simp: rehydrate_def StoreQuery_def split: prod.splits option.splits)
  show "rehydrate S st b = (rehydrated b s es, None)" if "chain (snd s) es"
    using scanEvents_chain [OF that, of b "fst s"] by (simp add: re rehydrated_def)
  show "\<exists>b' err. rehydrate S st b = (b', Some err)" if "\<not> chain (snd s) es"
  proof -
    from that scanEvents_gap [of es b "fst s" "snd s"] obtain err
      where "snd (scanEvents (event_rows es) (b, fst s, snd s)) = Some err" by auto
    then show ?thesis
      by (cases "scanEvents (event_rows es) (b, fst s, snd s)") (auto simp: re split: prod.splits)
  qed
qed

lemma rehydrate_ledger:
  assumes "invar st" and "reads_ok S st k" and "k = (ba_tenantID b, ba_uid b)"
    and "ledger_ok (ev st k) (sn st k)" and "length (ev st k) < 2 ^ 63"
  shows "\<exists>n \<le> length (ev st k). snap_of (sn st k) = (deltas (take n (ev st k)), of_nat n) \<and>
    rehydrate S st b = ((fold (\<lambda>e b. seedTxID b (ev_txID e)) (drop n (ev st k)) b)
      \<lparr>ba_balance := deltas (ev st k), ba_version := of_nat (length (ev st k))\<rparr>, None)"
proof -
  let ?es = "ev st k"
  from assms(4) obtain n where n: "n \<le> length ?es" "snap_of (sn st k) = (deltas (take n ?es), of_nat n)"
    by (rule ledger_snap)
  have ch: "chain 0 ?es" using assms(4) by (simp add: ledger_ok_def)
  have after: "events_after (of_nat n) ?es = drop n ?es"
    by (rule events_after_chain [OF ch assms(5) n(1)])
  have "chain (of_nat n) (drop n ?es)"
    using chain_take_drop [OF ch n(1)] by simp
  then have "rehydrate S st b = (rehydrated b (snap_of (sn st k)) (drop n ?es), None)"
    using rehydrate_reads(1) [OF assms(1-3)] n after by simp
  moreover have "deltas (take n ?es) + deltas (drop n ?es) = deltas ?es"
    using deltas_simps(3) [of "take n ?es" "drop n ?es"] by simp
  moreover have "(of_nat n :: int64) + of_nat (length (drop n ?es)) = of_nat (length ?es)"
    using n(1) by (simp flip: of_nat_add)
  ultimately show ?thesis
    using n by (intro exI [of _ n]) (simp add: rehydrated_def)
qed

lemma wallet_run_inv:
  "wallet_run S s tr s' \<Longrightarrow> wallet_inv ev sn invar k s \<Longrightarrow> wallet_inv ev sn invar k s'"
  by (induction rule: wallet_run.induct) (auto intro: wallet_step_inv)

lemma rehydrate_inv:
  assumes "invar st" and "reads_ok S st k" and "k = (ba_tenantID b, ba_uid b)"
    and "ledger_ok (ev st k) (sn st k)" and "length (ev st k) < 2 ^ 63"
  shows "\<exists>b'. rehydrate S st b = (b', None) \<and> wallet_inv ev sn invar k (st, b', [])"
proof -
  from rehydrate_ledger [OF assms] obtain n where
    re: "rehydrate S st b = ((fold (\<lambda>e b. seedTxID b (ev_txID e)) (drop n (ev st k)) b)
      \<lparr>ba_balance := deltas (ev st k), ba_version := of_nat (length (ev st k))\<rparr>, None)"
    by blast
  have "tracks (ev st k) (sn st k) [] ((fold (\<lambda>e b. seedTxID b (ev_txID e)) (drop n (ev st k)) b)
      \<lparr>ba_balance := deltas (ev st k), ba_version := of_nat (length (ev st k))\<rparr>)"
    using assms(4) unfolding tracks_def ledger_ok_def
    by (intro exI [of _ "ev st k"] exI [of _ "[]"]) simp
  with re assms(1,3) show ?thesis by (simp add: wallet_inv_def)
qed

end

section \<open>The transaction window\<close>











section \<open>Sequences of messages\<close>

text \<open>The handler applied to messages in turn, as the actor loop does.\<close>

primrec Handle_all :: "'st Store \<Rightarrow> 'st \<Rightarrow> BusinessActor \<Rightarrow> (int64 \<times> RemoteEnvelope) list
    \<Rightarrow> RemoteResult list \<times> BusinessActor \<times> 'st" where
  "Handle_all S st b [] = ([], b, st)"
| "Handle_all S st b (m # ms) = (case Handle S st b (fst m) (snd m) of (r, b', st', _) \<Rightarrow>
     (case Handle_all S st' b' ms of (rs, b'', st'') \<Rightarrow> (r # rs, b'', st'')))"

definition applied_envs :: "(int64 \<times> RemoteEnvelope) list \<Rightarrow> RemoteResult list \<Rightarrow> RemoteEnvelope list" where
  "applied_envs ms rs = map (snd \<circ> fst) (filter (applied \<circ> snd) (zip ms rs))"

lemma applied_envs_simps [simp]:
  "applied_envs [] rs = []"
  "applied_envs (m # ms) (r # rs) = (if applied r then [snd m] else []) @ applied_envs ms rs"
  by (simp_all add: applied_envs_def)

lemma Handle_applied:
  assumes "Handle S st b now env = (r, b', st', sp)"
  shows "applied r \<and> accepts b env \<and> b' = committed b now env \<or>
    \<not> applied r \<and> b' = b\<lparr>ba_lastActive := now\<rparr>"
  using assms
proof (cases rule: Handle_cases)
  case rejected
  then have "res_Payload r = [] \<or> \<not> res_Success r"
    using assms by (auto simp: Handle_def zero_RemoteResult_def)
  with rejected show ?thesis by (auto simp: applied_def)
next
  case (failed err)
  then show ?thesis by (simp add: applied_def)
next
  case committed
  have "length (res_Payload r) = 8" using committed(6) by simp
  then have "res_Payload r \<noteq> []" by auto
  with committed show ?thesis by (simp add: applied_def)
qed




lemma sint_committed:
  assumes "0 \<le> sint (ba_balance b)" and "accepts b env"
  shows "sint (ba_balance (committed b now env)) = sint (ba_balance b) + sint (amount_of env)"
proof -
  have "0 \<le> sint (ba_balance b) + sint (amount_of env) \<and>
      sint (ba_balance b) + sint (amount_of env) < 2 ^ 63"
    using sint_add_neg_iff [OF assms(1), of "amount_of env"] assms(2)
    by (auto simp: accepts_def)
  then show ?thesis using sint_add_exact [of "ba_balance b" "amount_of env"] by simp
qed

lemma Handle_all_balance:
  assumes "Handle_all S st b ms = (rs, b', st')" and "0 \<le> sint (ba_balance b)"
  shows "0 \<le> sint (ba_balance b') \<and> sint (ba_balance b') =
    sint (ba_balance b) + (\<Sum>env \<leftarrow> applied_envs ms rs. sint (amount_of env))"
  using assms
proof (induction ms arbitrary: st b rs)
  case Nil
  then show ?case by simp
next
  case (Cons m ms)
  obtain r b1 st1 sp where h: "Handle S st b (fst m) (snd m) = (r, b1, st1, sp)"
    by (metis prod_cases4)
  obtain rs' where rest: "Handle_all S st1 b1 ms = (rs', b', st')" and rs: "rs = r # rs'"
    using Cons.prems(1) h by (auto split: prod.splits)
  have *: "0 \<le> sint (ba_balance b1) \<and> sint (ba_balance b1) =
      sint (ba_balance b) + (if applied r then sint (amount_of (snd m)) else 0)"
    using Handle_applied [OF h] Cons.prems(2) sint_committed [of b "snd m" "fst m"]
    by (auto simp: accepts_def)
  with Cons.IH [OF rest] rs show ?case by auto
qed

section \<open>Recovery\<close>

lemma of_nat64_inj: "m < 2 ^ 63 \<Longrightarrow> n < 2 ^ 63 \<Longrightarrow> (of_nat m :: int64) = of_nat n \<longleftrightarrow> m = n"
  by (metis of_nat_eq_iff sint_of_nat64)

lemma tracks_snapshot_prefix:
  assumes "tracks es s pend b" and "length es < 2 ^ 63" and "snap_of s = (x, of_nat n)" and "n \<le> length es"
  shows "\<exists>rows ph. es = rows @ ph \<and> length ph \<le> 1 \<and> n \<le> length rows \<and>
    ba_version b = of_nat (length rows) \<and> ba_balance b = deltas rows"
proof -
  from assms(1) obtain rows ph where t: "es = rows @ ph" "length ph \<le> 1"
    "ba_version b = of_nat (length rows)" "ba_balance b = deltas rows"
    "\<And>x. s = Some x \<Longrightarrow> good_snapshot rows x"
    by (auto simp: tracks_def)
  have "n \<le> length rows"
  proof (cases s)
    case None
    with assms(3) have "(of_nat n :: int64) = of_nat 0" by (simp add: snap_of_def)
    then show ?thesis using of_nat64_inj [of n 0] assms(2,4) by simp
  next
    case (Some y)
    with t(5) [OF Some] assms(3) obtain m where "m \<le> length rows" "(of_nat n :: int64) = of_nat m"
      by (auto simp: good_snapshot_def snap_of_def)
    then show ?thesis using of_nat64_inj [of n m] assms(2,4) t(1) by simp
  qed
  with t show ?thesis by blast
qed

text \<open>
  What the replies of a run say about the partition: it holds the rows it started with, then the
  events acknowledged as applied, then at most one event whose write was reported as failed; every
  message answered with success has its transaction among the acknowledged rows.
\<close>

definition accounted :: "EventRow list \<Rightarrow> reply list \<Rightarrow> EventRow list \<Rightarrow> EventRow list \<Rightarrow> BusinessActor \<Rightarrow> bool" where
  "accounted es0 tr rows ph b \<longleftrightarrow> rows = es0 @ acked (of_nat (length es0)) tr \<and>
     length ph \<le> 1 \<and> chain 0 (rows @ ph) \<and>
     ba_version b = of_nat (length rows) \<and> ba_balance b = deltas rows \<and>
     (\<forall>e \<in> set ph. reported_failed tr e) \<and> ba_txCache b \<subseteq> ev_txID ` set rows \<and>
     (\<forall>now env r. (now, env, r) \<in> set tr \<longrightarrow> res_Success r \<longrightarrow> env_TxId env \<in> ev_txID ` set rows)"

lemma committed_cache: "ba_txCache (committed b now env) \<subseteq> insert (env_TxId env) (ba_txCache b)"
  by (auto simp: committed_def addTxID_def Let_def split: if_splits)

lemma accounted_commit:
  assumes "accounted es0 tr rows ph b" and "length (rows @ ph) < 2 ^ 63 - 1" and "applied r"
  shows "upsert (event_of b now env) (rows @ ph) = rows @ [event_of b now env]"
    and "accounted es0 (tr @ [(now, env, r)]) (rows @ [event_of b now env]) [] (committed b now env)"
proof -
  let ?e = "event_of b now env"
  from assms(1) have a: "rows = es0 @ acked (of_nat (length es0)) tr" "length ph \<le> 1"
    "chain 0 (rows @ ph)" "ba_version b = of_nat (length rows)" "ba_balance b = deltas rows"
    "ba_txCache b \<subseteq> ev_txID ` set rows"
    "\<And>now env r. (now, env, r) \<in> set tr \<Longrightarrow> res_Success r \<Longrightarrow> env_TxId env \<in> ev_txID ` set rows"
    unfolding accounted_def by blast+
  show "upsert ?e (rows @ ph) = rows @ [?e]"
    using upsert_next [of rows ph ?e] a assms(2) by (simp add: event_of_def)
  have ver: "(of_nat (length es0) :: int64) + of_nat (length (acked (of_nat (length es0)) tr)) = ba_version b"
    using a(1,4) by simp
  have "rows @ [?e] = es0 @ acked (of_nat (length es0)) (tr @ [(now, env, r)])"
    using a(1) assms(3) ver by (simp add: acked_append event_of_def amount_of_def)
  moreover have "chain 0 (rows @ [?e])" using a by (auto simp: chain_append event_of_def)
  moreover have "ba_txCache (committed b now env) \<subseteq> ev_txID ` set (rows @ [?e])"
    using committed_cache [of b now env] a(6) by (auto simp: event_of_def)
  moreover have "env_TxId env' \<in> ev_txID ` set (rows @ [?e])"
    if "(now', env', r') \<in> set (tr @ [(now, env, r)])" "res_Success r'" for now' env' r'
    using that a(7) by (auto simp: event_of_def)
  moreover have "ba_version (committed b now env) = of_nat (length (rows @ [?e]))"
    "ba_balance (committed b now env) = deltas (rows @ [?e])"
    using a(4,5) by (simp_all add: event_of_def add.commute)
  ultimately show "accounted es0 (tr @ [(now, env, r)]) (rows @ [?e]) [] (committed b now env)"
    unfolding accounted_def by (intro conjI) (assumption | simp | blast)+
qed

lemma accounted_quiet:
  assumes "accounted es0 tr rows ph b" and "\<not> applied r"
    and "res_Success r \<Longrightarrow> env_TxId env \<in> ba_txCache b"
  shows "accounted es0 (tr @ [(now, env, r)]) rows ph (b\<lparr>ba_lastActive := now\<rparr>)"
  using assms unfolding accounted_def by (auto simp: acked_append intro: reported_failed_mono)

lemma accounted_ph:
  "chain 0 (rows @ [e]) \<Longrightarrow> reported_failed tr e \<Longrightarrow> accounted es0 tr rows ph b \<Longrightarrow>
     accounted es0 tr rows [e] b"
  unfolding accounted_def by (metis empty_iff insert_iff le_refl length_Cons list.set list.size(3) One_nat_def)

lemma accounted_failed:
  assumes "accounted es0 tr rows ph b" and "length (rows @ ph) < 2 ^ 63 - 1"
    and "\<not> res_Success r" and "res_ErrorCode r = ErrPersistenceFailed"
  shows "upsert (event_of b now env) (rows @ ph) = rows @ [event_of b now env]"
    and "accounted es0 (tr @ [(now, env, r)]) rows [event_of b now env] (b\<lparr>ba_lastActive := now\<rparr>)"
proof -
  let ?e = "event_of b now env"
  have q: "accounted es0 (tr @ [(now, env, r)]) rows ph (b\<lparr>ba_lastActive := now\<rparr>)"
    using assms(1,3) by (intro accounted_quiet) (auto simp: applied_def)
  from assms(1) have a: "length ph \<le> 1" "chain 0 (rows @ ph)" "ba_version b = of_nat (length rows)"
    unfolding accounted_def by blast+
  show "upsert ?e (rows @ ph) = rows @ [?e]"
    using upsert_next [of rows ph ?e] a assms(2) by (simp add: event_of_def)
  have "chain 0 (rows @ [?e])" using a by (auto simp: chain_append event_of_def)
  moreover have "reported_failed (tr @ [(now, env, r)]) ?e"
    using assms(3,4) by (auto simp: reported_failed_def event_of_def amount_of_def)
  ultimately show "accounted es0 (tr @ [(now, env, r)]) rows [?e] (b\<lparr>ba_lastActive := now\<rparr>)"
    using q by (rule accounted_ph)
qed

context wallet_store
begin

lemma accounted_handle:
  assumes "invar st" and "ev st k = rows @ ph" and "accounted es0 tr rows ph b"
    and "k = (ba_tenantID b, ba_uid b)" and "length (ev st k) < 2 ^ 63 - 1"
    and "Handle S st b now env = (r, b', st', sp)"
  shows "\<exists>rows ph. ev st' k = rows @ ph \<and> accounted es0 (tr @ [(now, env, r)]) rows ph b'"
  using assms(6)
proof (cases rule: Handle_cases)
  case rejected
  have "\<not> applied r"
    using Handle_applied [OF assms(6)] rejected(1) by auto
  with rejected assms(2,3) accounted_quiet [of es0 tr rows ph b r env now] show ?thesis by auto
next
  case (failed err)
  have len: "length (rows @ ph) < 2 ^ 63 - 1" using assms(2,5) by simp
  note f = accounted_failed [OF assms(3) len failed(5,6), of now env]
  have q: "accounted es0 (tr @ [(now, env, r)]) rows ph (b\<lparr>ba_lastActive := now\<rparr>)"
    using assms(3) failed(5) by (intro accounted_quiet) (auto simp: applied_def)
  have "ev st' k = rows @ [event_of b now env] \<or> ev st' k = rows @ ph"
    using x_event [OF assms(1) failed(4)] f(1) assms(2,4) by auto
  with f(2) q failed(2) show ?thesis by blast
next
  case committed
  have "ba_version (committed b now env) \<noteq> ba_version (b\<lparr>ba_lastActive := now\<rparr>)" by simp
  then have ap: "applied r" using Handle_applied [OF assms(6)] committed(2) by metis
  have len: "length (rows @ ph) < 2 ^ 63 - 1" using assms(2,5) by simp
  note c = accounted_commit [OF assms(3) len ap, of now env]
  have "ev st' k = rows @ [event_of b now env]"
    using x_event_ok(3) [OF assms(1) committed(4)] c(1) assms(2,4) by simp
  with c(2) committed(2) show ?thesis by (metis append_Nil2)
qed

lemma accounted_run:
  assumes "wallet_run S (st0, b0, pend0) tr s" and "wallet_inv ev sn invar k (st0, b0, pend0)"
    and "accounted (ev st0 k) [] (ev st0 k) [] b0"
  shows "length (ev (fst s) k) < 2 ^ 63 - 1 \<longrightarrow>
    (\<exists>rows ph. ev (fst s) k = rows @ ph \<and> accounted (ev st0 k) tr rows ph (fst (snd s)))"
  using assms(1)
proof (induction rule: wallet_run.induct)
  case run_start
  show ?case using assms(3) by auto
next
  case (run_step tr s' l s'')
  have inv: "wallet_inv ev sn invar k s'" using wallet_run_inv [OF run_step(1) assms(2)] .
  from run_step(2) show ?case
  proof (cases rule: wallet_step.cases)
    case (step_handle st b now env r b' st' sp pend)
    from inv have i: "invar st" "k = (ba_tenantID b, ba_uid b)"
      unfolding step_handle(1) by (auto simp: wallet_inv_def)
    have len: "length (ev st k) \<le> length (ev st' k)"
      by (rule invar_Handle(2) [OF i(1) step_handle(4)])
    show ?thesis
    proof
      assume "length (ev (fst s'') k) < 2 ^ 63 - 1"
      with len step_handle(3) have b: "length (ev st k) < 2 ^ 63 - 1" by simp
      with run_step.IH step_handle(1) obtain rows ph where
        "ev st k = rows @ ph" "accounted (ev st0 k) tr rows ph b" by auto
      from accounted_handle [OF i(1) this i(2) b step_handle(4)] step_handle(2,3)
      show "\<exists>rows ph. ev (fst s'') k = rows @ ph \<and> accounted (ev st0 k) (tr @ l) rows ph (fst (snd s''))"
        by simp
    qed
  next
    case (step_snapshot stmt pend st b)
    from inv obtain bal v where i: "invar st" "stmt = snapshotStmt k bal v"
      using step_snapshot(1,4) by (auto simp: wallet_inv_def)
    have "ev (runSnapshot S st stmt) = ev st"
      using x_snap [OF i(1), of k bal v] i(2)
      by (cases "sto_ExecuteBatch S st UnloggedBatch [stmt]") (simp add: runSnapshot_def)
    with run_step.IH step_snapshot(1-3) show ?thesis by simp
  next
    case (step_sync st b pend)
    from inv have i: "invar st" using step_sync(1) by (auto simp: wallet_inv_def)
    have "ev (takeSnapshotSync S st b) = ev st"
      using x_snap [OF i, of "(ba_tenantID b, ba_uid b)" "ba_balance b" "ba_version b"]
      by (cases "sto_ExecuteBatch S st UnloggedBatch
          [snapshotStmt (ba_tenantID b, ba_uid b) (ba_balance b) (ba_version b)]")
        (simp add: takeSnapshotSync_def)
    with run_step.IH step_sync show ?thesis by simp
  qed
qed

text \<open>A new incarnation is what the partition says, with the last rows in its cache.\<close>

lemma recovery:
  assumes "wallet_inv ev sn invar (t, u) (st, b, pend)" and "reads_ok S st (t, u)"
    and "ev st (t, u) = rows @ ph" and "ba_version b = of_nat (length rows)"
    and "length (ev st (t, u)) < 2 ^ 63 - 1"
  shows "\<exists>b'. rehydrate S st (newBusinessActor t u now) = (b', None) \<and>
    ba_balance b' = deltas (rows @ ph) \<and> ba_version b' = of_nat (length (rows @ ph)) \<and>
    ev_txID ` set ph \<subseteq> ba_txCache b'"
proof -
  let ?b = "newBusinessActor t u now"
  let ?es = "ev st (t, u)"
  from assms(1,5) have tr: "tracks ?es (sn st (t, u)) pend b" and inv: "invar st"
    by (auto simp: wallet_inv_def)
  have len: "length ?es < 2 ^ 63" using assms(5) by simp
  have "(t, u) = (ba_tenantID ?b, ba_uid ?b)" by (simp add: newBusinessActor_def)
  from rehydrate_ledger [OF inv assms(2) this tracks_ledger [OF tr] len] obtain n where
    n: "n \<le> length ?es" "snap_of (sn st (t, u)) = (deltas (take n ?es), of_nat n)" and
    re: "rehydrate S st ?b = ((fold (\<lambda>e b. seedTxID b (ev_txID e)) (drop n ?es) ?b)
      \<lparr>ba_balance := deltas ?es, ba_version := of_nat (length ?es)\<rparr>, None)"
    by blast
  from tracks_snapshot_prefix [OF tr len n(2,1)] obtain rows' ph' where
    r: "?es = rows' @ ph'" "n \<le> length rows'" "ba_version b = of_nat (length rows')"
    by blast
  have "length rows' < 2 ^ 63" "length rows < 2 ^ 63"
    using len r(1) assms(3) by (metis add_lessD1 length_append)+
  then have "length rows' = length rows"
    using r(3) assms(4) of_nat64_inj by metis
  with r(2) have "set ph \<subseteq> set (drop n ?es)" by (simp add: assms(3))
  then have "ev_txID ` set ph \<subseteq> ev_txID ` set (drop n ?es)" by (rule image_mono)
  with re assms(3) show ?thesis by auto
qed

lemma recovery_run:
  assumes "invar st0" and "reads_ok S st0 (t, u)" and "ledger_ok (ev st0 (t, u)) (sn st0 (t, u))"
    and "length (ev st0 (t, u)) < 2 ^ 63"
    and "wallet_run S (st0, fst (rehydrate S st0 (newBusinessActor t u now0)), []) tr (st, b, pend)"
    and "length (ev st (t, u)) < 2 ^ 63 - 1"
  shows "wallet_inv ev sn invar (t, u) (st, b, pend)"
    and "\<exists>rows ph. ev st (t, u) = rows @ ph \<and> accounted (ev st0 (t, u)) tr rows ph b"
proof -
  let ?b0 = "newBusinessActor t u now0" and ?es = "ev st0 (t, u)"
  let ?r = "fst (rehydrate S st0 ?b0)"
  have k: "(t, u) = (ba_tenantID ?b0, ba_uid ?b0)" by (simp add: newBusinessActor_def)
  from rehydrate_inv [OF assms(1,2) k assms(3,4)]
  have inv: "wallet_inv ev sn invar (t, u) (st0, ?r, [])" by auto
  show "wallet_inv ev sn invar (t, u) (st, b, pend)" using assms(5) inv by (rule wallet_run_inv)
  from rehydrate_ledger [OF assms(1,2) k assms(3,4)] obtain n where
    re: "?r = (fold (\<lambda>e b. seedTxID b (ev_txID e)) (drop n ?es) ?b0)
      \<lparr>ba_balance := deltas ?es, ba_version := of_nat (length ?es)\<rparr>" by auto
  have "ba_txCache ?r \<subseteq> ev_txID ` set ?es"
    unfolding re using set_drop_subset [of n ?es] by (auto simp: newBusinessActor_def)
  moreover have "chain 0 ?es" using assms(3) by (simp add: ledger_ok_def)
  moreover have "ba_balance ?r = deltas ?es" "ba_version ?r = of_nat (length ?es)"
    by (simp_all add: re)
  ultimately have "accounted ?es [] ?es [] ?r" by (simp add: accounted_def)
  from accounted_run [OF assms(5) inv this] assms(6)
  show "\<exists>rows ph. ev st (t, u) = rows @ ph \<and> accounted ?es tr rows ph b" by simp
qed

end

section \<open>Properties\<close>

text \<open>
  C1: Crash recovery. Start an actor by rehydration from a well-formed partition and let it
  handle any messages, with snapshots written at any later time and any write allowed to fail
  (whether or not it was applied). At every moment the partition holds the rows it started with,
  followed by exactly the events that the replies given so far acknowledged as applied, in that
  order, followed by at most one event, which a reply reported as a failed write. Every message
  answered with success, a recognised repetition included, has its transaction among the
  acknowledged rows. A new incarnation rehydrates without error to exactly the rows of the
  partition, and the transaction identifier of the unacknowledged one is in its deduplication
  cache, so that the client's retry is recognised.
\<close>

theorem crash_recovery:
  assumes "wallet_store S ev sn invar"
    and "invar st0" and "reads_ok S st0 (t, u)" and "ledger_ok (ev st0 (t, u)) (sn st0 (t, u))"
    and "length (ev st0 (t, u)) < 2 ^ 63"
    and "wallet_run S (st0, fst (rehydrate S st0 (newBusinessActor t u now0)), []) tr (st, b, pend)"
    and "reads_ok S st (t, u)" and "length (ev st (t, u)) < 2 ^ 63 - 1"
    and "rows = ev st0 (t, u) @ acked (of_nat (length (ev st0 (t, u)))) tr"
  shows "\<exists>ph b'. ev st (t, u) = rows @ ph \<and> length ph \<le> 1 \<and>
    (\<forall>e \<in> set ph. reported_failed tr e) \<and>
    (\<forall>now env r. (now, env, r) \<in> set tr \<longrightarrow> res_Success r \<longrightarrow> env_TxId env \<in> ev_txID ` set rows) \<and>
    ba_balance b = deltas rows \<and> ba_version b = of_nat (length rows) \<and>
    rehydrate S st (newBusinessActor t u now) = (b', None) \<and>
    ba_balance b' = deltas (rows @ ph) \<and> ba_version b' = of_nat (length (rows @ ph)) \<and>
    ev_txID ` set ph \<subseteq> ba_txCache b'"
proof -
  note run = wallet_store.recovery_run [OF assms(1-6,8)]
  from run(2) assms(9) obtain ph where e: "ev st (t, u) = rows @ ph"
    and a: "accounted (ev st0 (t, u)) tr rows ph b"
    by (auto simp: accounted_def)
  from a have "ba_version b = of_nat (length rows)" by (simp add: accounted_def)
  from wallet_store.recovery [OF assms(1) run(1) assms(7) e this assms(8), of now] e a
  show ?thesis unfolding accounted_def by blast
qed

text \<open>A run on the in-memory session: one deposit of 100 on an empty partition.\<close>

definition demo_st :: "mem_db CassandraStore" where
  "demo_st = \<lparr>cs_db = mem_empty, cs_WriteDurationNsSum = 0, cs_WriteDurationNsCount = 0\<rparr>"

definition demo_env :: "string \<Rightarrow> int64 \<Rightarrow> RemoteEnvelope" where
  "demo_env tx amount = \<lparr>env_TenantId = 1, env_Uid = 7, env_TxId = tx, env_RequestId = 1,
     env_OpCode = 1, env_Payload = BigEndian_PutUint64 amount, env_DeadlineUnixMs = 0\<rparr>"

definition demo_event :: EventRow where
  "demo_event = \<lparr>ev_version = 1, ev_createdAt = 3, ev_txID = ''a'', ev_delta = 100,
     ev_payload = BigEndian_PutUint64 100\<rparr>"

definition demo_st1 :: "mem_db CassandraStore" where
  "demo_st1 = \<lparr>cs_db = mem_empty\<lparr>md_events := (\<lambda>_. [])((1, 7) := [demo_event])\<rparr>,
     cs_WriteDurationNsSum = 1, cs_WriteDurationNsCount = 1\<rparr>"

lemmas demo_defs = demo_st_def demo_st1_def demo_event_def demo_env_def mem_empty_def

lemma demo_reads [simp]: "reads_ok (cassandra_Store mem_session) s k"
  by (simp add: reads_ok_def cassandra_Store_def mem_session_def)

lemma demo_rehydrate:
  "rehydrate (cassandra_Store mem_session) demo_st (newBusinessActor 1 7 now) = (newBusinessActor 1 7 now, None)"
  by (simp add: rehydrate_def StoreQuery_def cassandra_Store_def mem_session_def mem_select_def
      demo_defs newBusinessActor_def snapshot_rows_def event_rows_def events_after_def cql_defs)

lemma demo_execute:
  "ExecuteBatch mem_session demo_st UnloggedBatch [eventStmt (1, 7) demo_event] = (demo_st1, None)"
  by (simp add: ExecuteBatch_def mem_session_def demo_defs eventStmt_def batchEntry_def mem_entry_def
      mem_insert_event_def UnloggedBatch_def toGocqlBatchType_def LoggedBatch_def)

lemma demo_handle:
  "\<exists>r. Handle (cassandra_Store mem_session) demo_st (newBusinessActor 1 7 now) 3 (demo_env ''a'' 100) =
     (r, committed (newBusinessActor 1 7 now) 3 (demo_env ''a'' 100), demo_st1, []) \<and> res_Success r"
proof -
  let ?b = "newBusinessActor 1 7 now" and ?e = "demo_env ''a'' 100"
  have "accepts ?b ?e"
    by (simp add: accepts_def newBusinessActor_def demo_env_def amount_of_def)
  moreover have "event_of ?b 3 ?e = demo_event"
    by (simp add: event_of_def newBusinessActor_def demo_env_def amount_of_def demo_event_def)
  moreover have "spawned_snapshots ?b ?e = []"
    by (simp add: spawned_snapshots_def newBusinessActor_def snapshotThreshold_def)
  ultimately show ?thesis
    using Handle_committed [of ?b ?e "cassandra_Store mem_session" demo_st 3 demo_st1]
    by (auto simp: demo_execute newBusinessActor_def)
qed

theorem crash_recovery_witness:
  "\<exists>r b'. wallet_run (cassandra_Store mem_session) (demo_st, newBusinessActor 1 7 2, [])
       [(3, demo_env ''a'' 100, r)] (demo_st1, committed (newBusinessActor 1 7 2) 3 (demo_env ''a'' 100), []) \<and>
     res_Success r \<and>
     rehydrate (cassandra_Store mem_session) demo_st1 (newBusinessActor 1 7 9) = (b', None) \<and>
     ba_balance b' = 100 \<and> ba_version b' = 1"
proof -
  let ?b = "newBusinessActor 1 7 2" and ?S = "cassandra_Store mem_session"
  let ?rows = "\<lambda>r. md_events (cs_db demo_st) (1, 7) @
    acked (of_nat (length (md_events (cs_db demo_st) (1, 7)))) [(3, demo_env ''a'' 100, r)]"
  obtain r where h: "Handle ?S demo_st ?b 3 (demo_env ''a'' 100) =
     (r, committed ?b 3 (demo_env ''a'' 100), demo_st1, [])" and s: "res_Success r"
    using demo_handle by blast
  have run: "wallet_run ?S (demo_st, ?b, []) [(3, demo_env ''a'' 100, r)]
      (demo_st1, committed ?b 3 (demo_env ''a'' 100), [])"
    using run_step [OF run_start step_handle [OF h, of "[]"]] by simp
  then have "wallet_run ?S (demo_st, fst (rehydrate ?S demo_st ?b), []) [(3, demo_env ''a'' 100, r)]
      (demo_st1, committed ?b 3 (demo_env ''a'' 100), [])"
    by (simp add: demo_rehydrate)
  note rec = crash_recovery [OF mem.store.wallet_store_axioms _ demo_reads _ _ this demo_reads _ refl, of 9]
  obtain rows ph b' where "md_events (cs_db demo_st1) (1, 7) = rows @ ph"
    "rehydrate ?S demo_st1 (newBusinessActor 1 7 9) = (b', None)"
    "ba_balance b' = deltas (rows @ ph)" "ba_version b' = of_nat (length (rows @ ph))"
  proof -
    have "mem_inv (cs_db demo_st)" "ledger_ok (md_events (cs_db demo_st) (1, 7)) (md_snaps (cs_db demo_st) (1, 7))"
      "length (md_events (cs_db demo_st) (1, 7)) < 2 ^ 63" "length (md_events (cs_db demo_st1) (1, 7)) < 2 ^ 63 - 1"
      by (simp_all add: demo_defs mem_inv_def strictly_sorted_def ledger_ok_def)
    from rec [OF this] obtain ph b' where "md_events (cs_db demo_st1) (1, 7) = ?rows r @ ph"
      "rehydrate ?S demo_st1 (newBusinessActor 1 7 9) = (b', None)"
      "ba_balance b' = deltas (?rows r @ ph)" "ba_version b' = of_nat (length (?rows r @ ph))"
      by (elim exE conjE)
    then show thesis by (rule that)
  qed
  moreover have "md_events (cs_db demo_st1) (1, 7) = [demo_event]" by (simp add: demo_st1_def)
  moreover have "deltas [demo_event] = 100" "(of_nat (length [demo_event]) :: int64) = 1"
    by (simp_all add: demo_event_def)
  ultimately show ?thesis using run s by metis
qed

text \<open>
  C4: Rehydration accepts a partition exactly when the versions after the snapshot follow each
  other without a gap, and then the actor's balance and version are the snapshot's plus those
  of the events.
\<close>

theorem rehydrate_detects_gaps:
  assumes "wallet_store S ev sn invar" and "invar st" and "reads_ok S st (t, u)"
    and "(bal, v) = snap_of (sn st (t, u))" and "es = events_after v (ev st (t, u))"
  shows "(snd (rehydrate S st (newBusinessActor t u now)) = None \<longleftrightarrow>
      (\<forall>i < length es. ev_version (es ! i) = v + of_nat (Suc i))) \<and>
    (snd (rehydrate S st (newBusinessActor t u now)) = None \<longrightarrow>
      ba_balance (fst (rehydrate S st (newBusinessActor t u now))) = bal + sum_list (map ev_delta es) \<and>
      ba_version (fst (rehydrate S st (newBusinessActor t u now))) = v + of_nat (length es) \<and>
      ba_txCache (fst (rehydrate S st (newBusinessActor t u now))) = ev_txID ` set es)"
proof -
  let ?b = "newBusinessActor t u now"
  have k: "(t, u) = (ba_tenantID ?b, ba_uid ?b)" by (simp add: newBusinessActor_def)
  have s: "snap_of (sn st (t, u)) = (bal, v)" using assms(4) by simp
  note reads = wallet_store.rehydrate_reads [OF assms(1-3) k, unfolded s, simplified, folded assms(5)]
  show ?thesis
  proof (cases "chain v es")
    case True
    with reads(1) [OF True] show ?thesis
      by (auto simp: rehydrated_def deltas_def chain_nth newBusinessActor_def simp del: of_nat_Suc)
  next
    case False
    with reads(2) [OF False] chain_iff [of v es] show ?thesis by (auto simp del: of_nat_Suc)
  qed
qed

theorem rehydrate_detects_gaps_witness:
  "snd (rehydrate (cassandra_Store mem_session)
     (demo_st1\<lparr>cs_db := mem_empty\<lparr>md_events := (\<lambda>_. [demo_event, demo_event\<lparr>ev_version := 3\<rparr>])\<rparr>\<rparr>)
     (newBusinessActor 1 7 9)) \<noteq> None"
  using rehydrate_detects_gaps [OF mem.store.wallet_store_axioms _ demo_reads, of
      "demo_st1\<lparr>cs_db := mem_empty\<lparr>md_events := (\<lambda>_. [demo_event, demo_event\<lparr>ev_version := 3\<rparr>])\<rparr>\<rparr>"
      0 0 1 7 "[demo_event, demo_event\<lparr>ev_version := 3\<rparr>]" 9]
  by (simp add: demo_defs mem_inv_def strictly_sorted_def snap_of_def events_after_def All_less_Suc
      word_sless_alt)

text \<open>
  C2: The handler on every branch, for any actor, any message and any store. The result always
  names the actor and the message. A transaction in the deduplication cache is answered with an
  empty success; otherwise a payload of fewer than eight bytes is refused; otherwise, with
  \<^term>\<open>newBal\<close> the exact sum of the balance and the amount in the first eight bytes, the message is
  refused for insufficient funds exactly when that sum is a negative 64-bit integer or too large
  for one. In these cases nothing is written. Otherwise the event with the next version is
  written; if the write fails its error is returned and the actor is unchanged; if it succeeds the
  balance is the exact sum (a sum below the least 64-bit integer, which needs a negative balance,
  wraps), the version advances by one, the identifier replaces in the cache the one its ring slot
  held, the result carries the new balance, and every \<^const>\<open>snapshotThreshold\<close> events a snapshot of
  the new state is started.
\<close>

theorem Handle_spec:
  assumes "newBal = sint (ba_balance b) + sint (BigEndian_Uint64 (env_Payload env) :: int64)"
    and "stmt = eventStmt (ba_tenantID b, ba_uid b)
      \<lparr>ev_version = ba_version b + 1, ev_createdAt = now, ev_txID = env_TxId env,
       ev_delta = BigEndian_Uint64 (env_Payload env), ev_payload = env_Payload env\<rparr>"
    and "Handle S st b now env = (r, b', st', sp)"
  shows "(res_TenantId r, res_Uid r, res_TxId r, res_RequestId r, res_OpCode r) =
      (ba_tenantID b, ba_uid b, env_TxId env, env_RequestId env, env_OpCode env) \<and>
    (if env_TxId env \<in> ba_txCache b
     then res_Success r \<and> res_Payload r = [] \<and> st' = st \<and> b' = b\<lparr>ba_lastActive := now\<rparr> \<and> sp = []
     else if length (env_Payload env) < 8
     then \<not> res_Success r \<and> res_ErrorCode r = ErrInvalidPayload \<and> st' = st \<and>
       b' = b\<lparr>ba_lastActive := now\<rparr> \<and> sp = []
     else if - (2 ^ 63) \<le> newBal \<and> newBal < 0 \<or> 2 ^ 63 \<le> newBal
     then \<not> res_Success r \<and> res_ErrorCode r = ErrInsufficientFunds \<and> st' = st \<and>
       b' = b\<lparr>ba_lastActive := now\<rparr> \<and> sp = []
     else case sto_ExecuteBatch S st UnloggedBatch [stmt] of
       (st1, Some err) \<Rightarrow> \<not> res_Success r \<and> res_ErrorCode r = ErrPersistenceFailed \<and>
         res_ErrorMsg r = err \<and> st' = st1 \<and> b' = b\<lparr>ba_lastActive := now\<rparr> \<and> sp = []
     | (st1, None) \<Rightarrow> res_Success r \<and> st' = st1 \<and>
         sint (ba_balance b') = (if newBal < 0 then newBal + 2 ^ 64 else newBal) \<and>
         ba_version b' = ba_version b + 1 \<and> ba_lastActive b' = now \<and>
         ba_txCache b' = insert (env_TxId env)
           (ba_txCache b - ({ba_txRing b ! ba_txCursor b} - {''''})) \<and>
         ba_txRing b' = (ba_txRing b)[ba_txCursor b := env_TxId env] \<and>
         ba_txCursor b' = (ba_txCursor b + 1) mod txCacheSize \<and>
         res_Payload r = BigEndian_PutUint64 (ba_balance b') \<and>
         (if snapshotThreshold \<le> ba_eventCount b + 1
          then ba_eventCount b' = 0 \<and>
            sp = [snapshotStmt (ba_tenantID b, ba_uid b) (ba_balance b') (ba_version b')]
          else ba_eventCount b' = ba_eventCount b + 1 \<and> sp = []))"
proof -
  have sum: "sint (ba_balance b + amount_of env) =
      (if newBal < - (2 ^ 63) then newBal + 2 ^ 64 else if 2 ^ 63 \<le> newBal then newBal - 2 ^ 64 else newBal)"
    using sint_add_wrap_low [of "ba_balance b" "amount_of env"] assms(1)
      sint_add_wrap_high [of "ba_balance b" "amount_of env"]
      sint_add_exact [of "ba_balance b" "amount_of env"] by (auto simp: amount_of_def)
  have range: "- (2 ^ 64) \<le> newBal \<and> newBal < 2 ^ 64"
    using sint64_bounds [of "ba_balance b"] sint64_bounds [of "amount_of env"] assms(1)
    by (simp add: amount_of_def)
  have id: "(res_TenantId r, res_Uid r, res_TxId r, res_RequestId r, res_OpCode r) =
      (ba_tenantID b, ba_uid b, env_TxId env, env_RequestId env, env_OpCode env)"
    using assms(3) by (rule Handle_identity)
  have stmt: "stmt = eventStmt (ba_tenantID b, ba_uid b) (event_of b now env)"
    by (simp add: assms(2) event_of_def amount_of_def)
  have ref: "- (2 ^ 63) \<le> newBal \<and> newBal < 0 \<or> 2 ^ 63 \<le> newBal \<longleftrightarrow> sint (ba_balance b + amount_of env) < 0"
    using sum range by auto
  consider (dup) "env_TxId env \<in> ba_txCache b"
    | (short) "env_TxId env \<notin> ba_txCache b" "length (env_Payload env) < 8"
    | (funds) "env_TxId env \<notin> ba_txCache b" "\<not> length (env_Payload env) < 8"
        "sint (ba_balance b + amount_of env) < 0"
    | (written) "accepts b env"
    unfolding accepts_def by linarith
  then show ?thesis
  proof cases
    case dup
    with id Handle_dup [OF dup, of S st now] assms(3) show ?thesis by simp
  next
    case short
    with id Handle_short [OF short, of S st now] assms(3) show ?thesis by simp
  next
    case funds
    note refused = ref [THEN iffD2, OF funds(3)]
    from id Handle_funds [OF funds, of S st now] assms(3) show ?thesis
      unfolding if_not_P [OF funds(1)] if_not_P [OF funds(2)] if_P [OF refused] by auto
  next
    case written
    then have w: "env_TxId env \<notin> ba_txCache b" "\<not> length (env_Payload env) < 8"
      "\<not> (- (2 ^ 63) \<le> newBal \<and> newBal < 0 \<or> 2 ^ 63 \<le> newBal)"
      unfolding ref by (auto simp: accepts_def)
    have bal: "sint (ba_balance b + amount_of env) = (if newBal < 0 then newBal + 2 ^ 64 else newBal)"
      using w(3) sum by auto
    note branch = if_not_P [OF w(1)] if_not_P [OF w(2)] if_not_P [OF w(3)] stmt
    show ?thesis
      using assms(3)
    proof (cases rule: Handle_cases)
      case (failed err)
      then show ?thesis unfolding branch using id by simp
    next
      case committed
      then show ?thesis unfolding branch using id bal
        by (simp add: committed_window_sel spawned_snapshots_def)
    qed (use written in simp)
  qed
qed

theorem Handle_spec_witness:
  "res_ErrorCode (fst (Handle (cassandra_Store mem_session) demo_st
     ((newBusinessActor 1 7 0)\<lparr>ba_balance := 50\<rparr>) 3 (demo_env ''w'' (- 80)))) = ErrInsufficientFunds"
proof -
  let ?b = "(newBusinessActor 1 7 0)\<lparr>ba_balance := 50\<rparr>" and ?e = "demo_env ''w'' (- 80)"
  obtain r b' st' sp where h: "Handle (cassandra_Store mem_session) demo_st ?b 3 ?e = (r, b', st', sp)"
    by (metis prod_cases4)
  have "sint (- 80 :: int64) = - 80" by simp
  with Handle_spec [OF refl refl h] h show ?thesis
    by (simp add: demo_env_def newBusinessActor_def)
qed

text \<open>
  C6: No money is made or lost by arithmetic. Over any sequence of messages, whatever the store
  answers, an actor that starts with a non-negative balance never goes below zero, and its
  balance is the exact (unbounded) sum of the amounts of the messages it acknowledged as applied:
  no 64-bit addition on the way has wrapped around.
\<close>

theorem balance_exact:
  assumes "Handle_all S st b ms = (rs, b', st')" and "0 \<le> sint (ba_balance b)"
  shows "0 \<le> sint (ba_balance b') \<and> sint (ba_balance b') = sint (ba_balance b) +
    (\<Sum>env \<leftarrow> applied_envs ms rs. sint (BigEndian_Uint64 (env_Payload env) :: int64))"
  using Handle_all_balance [OF assms] by (simp add: amount_of_def)

theorem balance_exact_witness:
  "\<exists>rs b' st'. Handle_all (cassandra_Store mem_session) demo_st (newBusinessActor 1 7 0)
      [(3, demo_env ''a'' 100), (4, demo_env ''a'' 100)] = (rs, b', st') \<and> 0 \<le> sint (ba_balance b')"
proof -
  obtain rs b' st' where h: "Handle_all (cassandra_Store mem_session) demo_st (newBusinessActor 1 7 0)
      [(3, demo_env ''a'' 100), (4, demo_env ''a'' 100)] = (rs, b', st')"
    by (metis prod_cases3)
  have "0 \<le> sint (ba_balance (newBusinessActor 1 7 0))" by (simp add: newBusinessActor_def)
  with balance_exact [OF h] h show ?thesis by blast
qed





section \<open>Limits of the deduplication\<close>

text \<open>Rehydrating more events than the ring has slots leaves identifiers that no slot can evict.\<close>

lemma seed_exceeds_ring:
  assumes "distinct (map ev_txID es)" and "txCacheSize < length es"
  shows "card (ba_txCache (fold (\<lambda>e b. seedTxID b (ev_txID e)) es (newBusinessActor t u now))) > txCacheSize"
proof -
  have "card (ev_txID ` set es) = length es"
    using assms(1) distinct_card [of "map ev_txID es"] by simp
  then show ?thesis using assms(2) by (simp add: newBusinessActor_def)
qed

text \<open>
  A snapshot hides the identifiers before it: after a restart the retry of an acknowledged deposit
  is applied a second time.
\<close>

lemma retry_after_snapshot_applies_twice:
  defines "db \<equiv> demo_st1\<lparr>cs_db := (cs_db demo_st1)\<lparr>md_snaps := [(1, 7) \<mapsto> (100, 1)]\<rparr>\<rparr>"
  defines "b \<equiv> fst (rehydrate (cassandra_Store mem_session) db (newBusinessActor 1 7 9))"
  shows "ba_balance b = 100" and "ba_txCache b = {}" and "accepts b (demo_env ''a'' 100)"
proof -
  have "rehydrate (cassandra_Store mem_session) db (newBusinessActor 1 7 9) =
      ((newBusinessActor 1 7 9)\<lparr>ba_balance := 100, ba_version := 1\<rparr>, None)"
    by (simp add: db_def rehydrate_def StoreQuery_def cassandra_Store_def mem_session_def
        mem_select_def demo_defs newBusinessActor_def snapshot_rows_def event_rows_def
        events_after_def cql_defs word_sless_alt)
  then have b: "b = (newBusinessActor 1 7 9)\<lparr>ba_balance := 100, ba_version := 1\<rparr>"
    by (simp add: b_def)
  show "ba_balance b = 100" "ba_txCache b = {}" by (simp_all add: b newBusinessActor_def)
  show "accepts b (demo_env ''a'' 100)"
    by (simp add: b accepts_def newBusinessActor_def demo_env_def amount_of_def)
qed

end
