(* ===== verification/Reconciliation.thy ===== *)
theory Reconciliation
  imports Wallet
begin

text \<open>
  \<^verbatim>\<open>internal/node/reconciliation.go\<close>: the daily audit that recomputes balances from the event
  store and writes a compensating event for a negative one. Cancellation of the context and the
  clock are arguments, indexed by the position in the list of targets.
\<close>

section \<open>Definitions\<close>

fun scanDeltas :: "val list list \<Rightarrow> int64 \<Rightarrow> int64" where
  "scanDeltas ([VInt64 delta] # rows) balance = scanDeltas rows (balance + delta)"
| "scanDeltas _ balance = balance"

definition computeTrueBalance :: "'st Store \<Rightarrow> 'st \<Rightarrow> int32 \<Rightarrow> int64 \<Rightarrow> string + int64" where
  "computeTrueBalance S st tenantID uid =
     (case StoreQuery S st snapCQL [VInt32 tenantID, VInt64 uid] (\<lambda>rows. (scanSnapshot rows (0, 0), None)) of
        (_, Some err) \<Rightarrow> Inl (''computeTrueBalance: load snapshot failed: '' @ err)
      | ((snapshotBalance, lastVersion), None) \<Rightarrow>
          (case StoreQuery S st deltaCQL [VInt32 tenantID, VInt64 uid, VInt64 lastVersion]
                  (\<lambda>rows. (scanDeltas rows snapshotBalance, None)) of
             (_, Some err) \<Rightarrow> Inl (''computeTrueBalance: load events failed: '' @ err)
           | (balance, None) \<Rightarrow> Inr balance))"

fun scanMaxVersion :: "val list list \<Rightarrow> int64" where
  "scanMaxVersion ([VInt64 v] # rows) = v"
| "scanMaxVersion _ = 0"

definition compensationTxID :: "int32 \<Rightarrow> int64 \<Rightarrow> int64 \<Rightarrow> string" where
  "compensationTxID tenantID uid now = ''reconciliation-'' @ FormatInt (sint tenantID) @ ''-''
     @ FormatInt (sint uid) @ ''-'' @ FormatInt (sint now)"

definition compensationPayload :: bytes where
  "compensationPayload = map of_char ''reconciliation-compensating-tx''"

definition issueCompensatingTransaction ::
    "'st Store \<Rightarrow> 'st \<Rightarrow> int64 \<Rightarrow> int32 \<Rightarrow> int64 \<Rightarrow> int64 \<Rightarrow> 'st \<times> string option" where
  "issueCompensatingTransaction S st now tenantID uid negativeBalance =
     (if \<not> negativeBalance <s 0 then (st, None)
      else case StoreQuery S st maxVersionCQL [VInt32 tenantID, VInt64 uid]
                  (\<lambda>rows. (scanMaxVersion rows, None)) of
        (_, Some err) \<Rightarrow>
          (st, Some (''issueCompensatingTransaction: failed to get max version: '' @ err))
      | (maxVersion, None) \<Rightarrow>
          (let deficit = - negativeBalance;
               nextVersion = maxVersion + 1;
               stmt = eventStmt (tenantID, uid)
                 \<lparr>ev_version = nextVersion, ev_createdAt = now,
                  ev_txID = compensationTxID tenantID uid now, ev_delta = deficit,
                  ev_payload = compensationPayload\<rparr>
           in sto_ExecuteBatch S st UnloggedBatch [stmt]))"

text \<open>
  The loop over the targets: the store, \<^verbatim>\<open>successCount\<close>, \<^verbatim>\<open>discrepancyCount\<close> and the
  returned error.
\<close>

fun reconcileTargets ::
    "'st Store \<Rightarrow> (nat \<Rightarrow> string option) \<Rightarrow> (nat \<Rightarrow> int64) \<Rightarrow> nat \<Rightarrow> wkey list \<Rightarrow> 'st \<Rightarrow> nat \<Rightarrow> nat
      \<Rightarrow> 'st \<times> nat \<times> nat \<times> string option" where
  "reconcileTargets S ctxErr clock i [] st ok disc = (st, ok, disc, None)"
| "reconcileTargets S ctxErr clock i ((tenantID, uid) # targets) st ok disc =
     (case ctxErr i of
        Some err \<Rightarrow> (st, ok, disc, Some (''reconciliation cancelled: '' @ err))
      | None \<Rightarrow>
          (case computeTrueBalance S st tenantID uid of
             Inl err \<Rightarrow> reconcileTargets S ctxErr clock (Suc i) targets st ok disc
           | Inr balance \<Rightarrow>
               (if balance <s 0 then
                  (case issueCompensatingTransaction S st (clock i) tenantID uid balance of
                     (st', Some err) \<Rightarrow> reconcileTargets S ctxErr clock (Suc i) targets st' ok (Suc disc)
                   | (st', None) \<Rightarrow> reconcileTargets S ctxErr clock (Suc i) targets st' (Suc ok) (Suc disc))
                else reconcileTargets S ctxErr clock (Suc i) targets st (Suc ok) disc)))"

text \<open>The list of targets is a placeholder in the source: a nil slice.\<close>

definition RunDailyReconciliation ::
    "'st Store \<Rightarrow> (nat \<Rightarrow> string option) \<Rightarrow> (nat \<Rightarrow> int64) \<Rightarrow> 'st \<Rightarrow> 'st \<times> nat \<times> nat \<times> string option" where
  "RunDailyReconciliation S ctxErr clock st = reconcileTargets S ctxErr clock 0 [] st 0 0"

section \<open>The audited balance\<close>

definition trueBalance :: "(int64 \<times> int64) option \<Rightarrow> EventRow list \<Rightarrow> int64" where
  "trueBalance s es = fst (snap_of s) + deltas (events_after (snd (snap_of s)) es)"

lemma scanDeltas_rows [simp]: "scanDeltas (delta_rows es) bal = bal + deltas es"
  by (induction es arbitrary: bal) (auto simp: delta_rows_def algebra_simps)

definition audit_reads :: "'st Store \<Rightarrow> 'st \<Rightarrow> wkey \<Rightarrow> bool" where
  "audit_reads S st k \<longleftrightarrow> snd (sto_Query S st snapCQL [VInt32 (fst k), VInt64 (snd k)]) = None \<and>
     (\<forall>v. snd (sto_Query S st deltaCQL [VInt32 (fst k), VInt64 (snd k), VInt64 v]) = None) \<and>
     snd (sto_Query S st maxVersionCQL [VInt32 (fst k), VInt64 (snd k)]) = None"

text \<open>The version the compensating event gets.\<close>

definition maxVersion :: "EventRow list \<Rightarrow> int64" where
  "maxVersion es = (if es = [] then 0 else ev_version (last es))"

lemma scanMaxVersion_rows [simp]: "scanMaxVersion (max_version_rows es) = maxVersion es"
  by (auto simp: max_version_rows_def maxVersion_def split: list.splits)

text \<open>A partition a compensating event can be appended to.\<close>

definition appendable :: "(int64 \<times> int64) option \<Rightarrow> EventRow list \<Rightarrow> bool" where
  "appendable s es \<longleftrightarrow> sint (maxVersion es) < 2 ^ 63 - 1 \<and>
     sint (snd (snap_of s)) \<le> sint (maxVersion es)"

lemma upsert_max:
  assumes "strictly_sorted es" and "ev_version e = maxVersion es + 1" and "sint (maxVersion es) < 2 ^ 63 - 1"
  shows "upsert e es = es @ [e]"
proof -
  have lt: "sint (maxVersion es) < sint (ev_version e)"
    using sint_inc_exact [OF assms(3)] assms(2) by simp
  have "sint (ev_version x) \<le> sint (maxVersion es)" if "x \<in> set es" for x
    using that assms(1) by (induction es) (auto simp: strictly_sorted_def maxVersion_def intro: less_imp_le)
  with lt have "\<forall>x \<in> set es. sint (ev_version x) < sint (ev_version e)" by fastforce
  from upsert_append [OF this, of "[]"] show ?thesis by simp
qed

lemma trueBalance_append:
  assumes "appendable s es" and "ev_version e = maxVersion es + 1"
  shows "trueBalance s (es @ [e]) = trueBalance s es + ev_delta e"
proof -
  have "sint (ev_version e) = sint (maxVersion es) + 1"
    using assms sint_inc_exact [of "maxVersion es"] by (simp add: appendable_def)
  with assms(1) have "snd (snap_of s) <s ev_version e"
    by (simp add: appendable_def word_sless_alt)
  then show ?thesis by (simp add: trueBalance_def events_after_def)
qed

context wallet_store
begin

lemma StoreQuery_ok:
  "sto_Query S st cql args = (rows, None) \<Longrightarrow> StoreQuery S st cql args (\<lambda>rows. (f rows, None)) = (f rows, None)"
  by (simp add: StoreQuery_def)

lemma computeTrueBalance_eq:
  assumes "invar st" and "audit_reads S st (t, u)"
  shows "computeTrueBalance S st t u = Inr (trueBalance (sn st (t, u)) (ev st (t, u)))"
proof -
  let ?s = "snap_of (sn st (t, u))"
  obtain r1 where q1: "sto_Query S st snapCQL [VInt32 t, VInt64 u] = (r1, None)"
    using assms(2) unfolding audit_reads_def by (metis fst_conv prod.collapse snd_conv)
  obtain r2 where q2: "sto_Query S st deltaCQL [VInt32 t, VInt64 u, VInt64 (snd ?s)] = (r2, None)"
    using assms(2) unfolding audit_reads_def by (metis fst_conv prod.collapse snd_conv)
  have "scanSnapshot r1 (0, 0) = ?s"
    using q_snap [OF assms(1), of "(t, u)"] q1 by (simp add: snap_of_def)
  moreover have "scanDeltas r2 (fst ?s) = trueBalance (sn st (t, u)) (ev st (t, u))"
    using q_delta [OF assms(1), of "(t, u)" "snd ?s" r2] q2 by (simp add: trueBalance_def)
  ultimately show ?thesis
    using q1 q2
    by (cases ?s) (simp add: computeTrueBalance_def StoreQuery_ok)
qed

lemma issueCompensatingTransaction_eq:
  assumes "invar st" and "audit_reads S st (t, u)" and "bal <s 0"
  shows "issueCompensatingTransaction S st now t u bal =
    sto_ExecuteBatch S st UnloggedBatch [eventStmt (t, u)
      \<lparr>ev_version = maxVersion (ev st (t, u)) + 1, ev_createdAt = now,
       ev_txID = compensationTxID t u now, ev_delta = - bal, ev_payload = compensationPayload\<rparr>]"
proof -
  obtain r where q: "sto_Query S st maxVersionCQL [VInt32 t, VInt64 u] = (r, None)"
    using assms(2) unfolding audit_reads_def by (metis fst_conv prod.collapse snd_conv)
  then have "scanMaxVersion r = maxVersion (ev st (t, u))"
    using q_max [OF assms(1), of "(t, u)"] by simp
  with q assms(3) show ?thesis
    by (simp add: issueCompensatingTransaction_def StoreQuery_ok Let_def)
qed

lemma compensation:
  assumes "invar st" and "audit_reads S st (t, u)"
    and "appendable (sn st (t, u)) (ev st (t, u))"
    and "computeTrueBalance S st t u = Inr bal" and "bal <s 0"
    and "issueCompensatingTransaction S st now t u bal = (st', None)"
  shows "invar st' \<and> sn st' = sn st \<and> trueBalance (sn st' (t, u)) (ev st' (t, u)) = 0 \<and>
    (\<forall>k. k \<noteq> (t, u) \<longrightarrow> ev st' k = ev st k)"
proof -
  let ?e = "\<lparr>ev_version = maxVersion (ev st (t, u)) + 1, ev_createdAt = now,
       ev_txID = compensationTxID t u now, ev_delta = - bal, ev_payload = compensationPayload\<rparr>"
  have x: "sto_ExecuteBatch S st UnloggedBatch [eventStmt (t, u) ?e] = (st', None)"
    using issueCompensatingTransaction_eq [OF assms(1,2,5)] assms(6) by simp
  note ok = x_event_ok [OF assms(1) x]
  have "upsert ?e (ev st (t, u)) = ev st (t, u) @ [?e]"
    using upsert_max [OF ev_sorted [OF assms(1)]] assms(3) by (simp add: appendable_def)
  with ok have "ev st' (t, u) = ev st (t, u) @ [?e]" by simp
  with ok trueBalance_append [OF assms(3), of ?e] computeTrueBalance_eq [OF assms(1,2)] assms(4)
  show ?thesis by simp
qed

end

text \<open>A store that answers every query and accepts every event.\<close>

definition healthy :: "'st Store \<Rightarrow> ('st \<Rightarrow> bool) \<Rightarrow> bool" where
  "healthy S invar \<longleftrightarrow> (\<forall>st k. invar st \<longrightarrow> audit_reads S st k) \<and>
     (\<forall>st k e. invar st \<longrightarrow> snd (sto_ExecuteBatch S st UnloggedBatch [eventStmt k e]) = None)"

text \<open>The audited balance after the loop: raised to zero for a target, and left alone otherwise.\<close>

definition floored :: "int64 \<Rightarrow> int64" where
  "floored bal = (if bal <s 0 then 0 else bal)"

context wallet_store
begin

lemma reconcile_target:
  assumes "invar st" and "healthy S invar" and "appendable (sn st (t, u)) (ev st (t, u))"
    and "ctxErr i = None"
  shows "\<exists>st' ok' disc'. reconcileTargets S ctxErr clock i ((t, u) # targets) st ok disc =
      reconcileTargets S ctxErr clock (Suc i) targets st' ok' disc' \<and>
    ok' = Suc ok \<and> invar st' \<and> sn st' = sn st \<and> (\<forall>k. k \<noteq> (t, u) \<longrightarrow> ev st' k = ev st k) \<and>
    trueBalance (sn st' (t, u)) (ev st' (t, u)) = floored (trueBalance (sn st (t, u)) (ev st (t, u)))"
proof -
  let ?bal = "trueBalance (sn st (t, u)) (ev st (t, u))"
  have reads: "audit_reads S st (t, u)" using assms(1,2) by (simp add: healthy_def)
  note bal = computeTrueBalance_eq [OF assms(1) reads]
  show ?thesis
  proof (cases "?bal <s 0")
    case False
    with assms bal show ?thesis by (auto simp: floored_def)
  next
    case True
    obtain st' where i: "issueCompensatingTransaction S st (clock i) t u ?bal = (st', None)"
      using issueCompensatingTransaction_eq [OF assms(1) reads True] assms(1,2)
      unfolding healthy_def by (metis prod.collapse)
    from compensation [OF assms(1) reads assms(3) bal True i] i bal True assms(4)
    show ?thesis by (auto simp: floored_def)
  qed
qed

lemma reconcile_loop:
  assumes "healthy S invar" and "\<forall>i. ctxErr i = None" and "distinct targets" and "invar st"
    and "\<forall>k \<in> set targets. appendable (sn st k) (ev st k)"
  shows "\<exists>st' disc'. reconcileTargets S ctxErr clock i targets st ok disc =
      (st', ok + length targets, disc', None) \<and> invar st' \<and>
    (\<forall>k. trueBalance (sn st' k) (ev st' k) =
      (if k \<in> set targets then floored (trueBalance (sn st k) (ev st k))
       else trueBalance (sn st k) (ev st k)))"
  using assms(3-5)
proof (induction targets arbitrary: i st ok disc)
  case Nil
  then show ?case by simp
next
  case (Cons k targets)
  obtain t u where k: "k = (t, u)" by (cases k)
  have app: "appendable (sn st (t, u)) (ev st (t, u))" using Cons.prems(3) k by simp
  from reconcile_target [where ctxErr = ctxErr and i = i and clock = clock and targets = targets
      and ok = ok and disc = disc, OF Cons.prems(2) assms(1) app assms(2) [rule_format]]
  obtain st' disc' where s: "reconcileTargets S ctxErr clock i (k # targets) st ok disc =
      reconcileTargets S ctxErr clock (Suc i) targets st' (Suc ok) disc'"
    "invar st'" "sn st' = sn st" "\<forall>k'. k' \<noteq> k \<longrightarrow> ev st' k' = ev st k'"
    "trueBalance (sn st' k) (ev st' k) = floored (trueBalance (sn st k) (ev st k))"
    unfolding k by blast
  have "\<forall>k' \<in> set targets. appendable (sn st' k') (ev st' k')"
    using Cons.prems(1,3) s(3,4) by (metis distinct.simps(2) list.set_intros(2))
  from Cons.IH [OF _ s(2) this, of "Suc i" "Suc ok" disc'] Cons.prems(1) obtain st'' disc'' where
    r: "reconcileTargets S ctxErr clock (Suc i) targets st' (Suc ok) disc' =
      (st'', Suc ok + length targets, disc'', None)" "invar st''"
    "\<forall>k. trueBalance (sn st'' k) (ev st'' k) =
      (if k \<in> set targets then floored (trueBalance (sn st' k) (ev st' k))
       else trueBalance (sn st' k) (ev st' k))"
    by auto
  have "trueBalance (sn st'' k') (ev st'' k') = (if k' \<in> set (k # targets)
      then floored (trueBalance (sn st k') (ev st k')) else trueBalance (sn st k') (ev st k'))" for k'
    using r(3) [rule_format, of k'] s(3,5) s(4) [rule_format, of k'] Cons.prems(1)
    by (cases "k' = k") simp_all
  with r(1,2) s(1) show ?case by simp
qed

end

section \<open>Properties\<close>

text \<open>
  C23: The audit agrees with the actor. Whenever an actor can be rehydrated from the event store
  and the audit can read it, \<^const>\<open>computeTrueBalance\<close> returns the balance the rehydrated actor
  has.
\<close>

theorem audit_agrees_with_rehydration:
  assumes "wallet_store S ev sn invar" and "invar st" and "reads_ok S st (t, u)"
    and "audit_reads S st (t, u)"
    and "rehydrate S st (newBusinessActor t u now) = (b, None)"
  shows "computeTrueBalance S st t u = Inr (ba_balance b)"
proof -
  let ?s = "snap_of (sn st (t, u))" and ?n = "newBusinessActor t u now"
  have k: "(t, u) = (ba_tenantID ?n, ba_uid ?n)" by (simp add: newBusinessActor_def)
  note r = wallet_store.rehydrate_reads [OF assms(1-3) k]
  have "chain (snd ?s) (events_after (snd ?s) (ev st (t, u)))"
    using r(2) assms(5) by fastforce
  from r(1) [OF this] assms(5)
  have "ba_balance b = trueBalance (sn st (t, u)) (ev st (t, u))"
    by (auto simp: rehydrated_def trueBalance_def)
  then show ?thesis
    using wallet_store.computeTrueBalance_eq [OF assms(1,2,4)] by simp
qed

lemma demo_audit [simp]: "audit_reads (cassandra_Store mem_session) s k"
  by (simp add: audit_reads_def cassandra_Store_def mem_session_def)

theorem audit_agrees_with_rehydration_witness:
  "computeTrueBalance (cassandra_Store mem_session) demo_st 1 7 = Inr 0"
  using audit_agrees_with_rehydration
    [OF mem.store.wallet_store_axioms _ demo_reads demo_audit demo_rehydrate [of 5]]
  by (simp add: demo_defs mem_inv_def strictly_sorted_def newBusinessActor_def)








text \<open>The scheduled job itself has no targets: whatever the store holds, it changes nothing.\<close>

lemma RunDailyReconciliation_idle: "RunDailyReconciliation S ctxErr clock st = (st, 0, 0, None)"
  by (simp add: RunDailyReconciliation_def)

end
