(* ===== verification/Mailbox.thy ===== *)
theory Mailbox
  imports Messages
begin

text \<open>
  \<^verbatim>\<open>pkg/actor/actor.go\<close>: the actor's intrusive lock-free queue with its recycled nodes, the event
  loop and \<^verbatim>\<open>Drain\<close>, as a transition system whose steps are the code's atomic operations. Any
  number of goroutines may be inside \<^verbatim>\<open>Send\<close>, \<^verbatim>\<open>SendEnvelope\<close> or \<^verbatim>\<open>Stop\<close> at the same time,
  each at its own program point; one goroutine runs \<^verbatim>\<open>loop\<close>, and one may run \<^verbatim>\<open>Drain\<close> once the
  actor is dead. The node pool is shared with the rest of the process: nodes in \<^term>\<open>foreign\<close> belong
  to other mailboxes or to callers of \<^verbatim>\<open>GetEnvelope\<close>, and may change at any time.
\<close>

section \<open>Memory\<close>

datatype actor_status = statusInit | statusRunning | statusStopping | statusDead

record Envelope =
  en_Msg :: "RemoteEnvelope option"
  en_next :: "nat option"

text \<open>
  The process memory an actor touches. Nodes are addresses; \<^term>\<open>fresh\<close> bounds the addresses in use.
  The handler's own state is \<^term>\<open>hstate\<close>; \<^term>\<open>shutdownFn\<close> acts on it.
\<close>

record 's Actor =
  heap :: "nat \<Rightarrow> Envelope"
  pool :: "nat set"
  foreign :: "nat set"
  fresh :: nat
  processMailboxPending :: uint64
  processHandleDurationNsSum :: uint64
  processHandleDurationNsCount :: uint64
  head :: nat
  tail :: nat
  status :: actor_status
  wake :: bool
  ctxDone :: bool
  hstate :: 's
  shutdownFn :: "('s \<Rightarrow> 's) option"

definition emptyEnvelope :: Envelope where
  "emptyEnvelope = \<lparr>en_Msg = None, en_next = None\<rparr>"

text \<open>\<^verbatim>\<open>new(Envelope)\<close>, and \<^verbatim>\<open>sync.Pool.Get\<close>: any pooled node, or a new one.\<close>

definition newEnvelope :: "'s Actor \<Rightarrow> nat \<times> 's Actor" where
  "newEnvelope a = (fresh a, a\<lparr>heap := (heap a)(fresh a := emptyEnvelope), fresh := Suc (fresh a)\<rparr>)"

definition GetEnvelope :: "nat option \<Rightarrow> 's Actor \<Rightarrow> nat \<times> 's Actor" where
  "GetEnvelope choice a = (case choice of
     Some n \<Rightarrow> if n \<in> pool a then (n, a\<lparr>pool := pool a - {n}\<rparr>) else newEnvelope a
   | None \<Rightarrow> newEnvelope a)"

definition PutEnvelope :: "nat option \<Rightarrow> 's Actor \<Rightarrow> 's Actor" where
  "PutEnvelope env a = (case env of None \<Rightarrow> a
   | Some n \<Rightarrow> a\<lparr>heap := (heap a)(n := (heap a n)\<lparr>en_Msg := None, en_next := None\<rparr>),
                 pool := insert n (pool a)\<rparr>)"

definition New :: "'s \<Rightarrow> 's Actor \<Rightarrow> 's Actor" where
  "New handler a = (let (dummy, a') = newEnvelope a in
     a'\<lparr>head := dummy, tail := dummy, status := statusInit, wake := False, hstate := handler,
        shutdownFn := None\<rparr>)"

text \<open>\<^verbatim>\<open>Start\<close>: the new state, and whether the loop goroutine was started.\<close>

definition Start :: "'s Actor \<Rightarrow> 's Actor \<times> bool" where
  "Start a = (if status a = statusInit then (a\<lparr>status := statusRunning\<rparr>, True) else (a, False))"

definition SetShutdownFunc :: "('s \<Rightarrow> 's) \<Rightarrow> 's Actor \<Rightarrow> 's Actor" where
  "SetShutdownFunc fn a = a\<lparr>shutdownFn := Some fn\<rparr>"

definition IsAlive :: "'s Actor \<Rightarrow> bool" where
  "IsAlive a \<longleftrightarrow> status a = statusInit \<or> status a = statusRunning"

definition IsDead :: "'s Actor \<Rightarrow> bool" where
  "IsDead a \<longleftrightarrow> status a = statusDead"

definition completeResult :: "RemoteResult \<Rightarrow> RemoteEnvelope \<Rightarrow> RemoteResult" where
  "completeResult result env =
     (let r1 = (if res_TenantId result = 0 then result\<lparr>res_TenantId := env_TenantId env\<rparr> else result);
          r2 = (if res_Uid r1 = 0 then r1\<lparr>res_Uid := env_Uid env\<rparr> else r1);
          r3 = (if res_RequestId r2 = 0 then r2\<lparr>res_RequestId := env_RequestId env\<rparr> else r2);
          r4 = (if res_TxId r3 = '''' then r3\<lparr>res_TxId := env_TxId env\<rparr> else r3)
      in if res_OpCode r4 = 0 then r4\<lparr>res_OpCode := env_OpCode env\<rparr> else r4)"

text \<open>The counters that the metrics page of the node reads.\<close>

definition ProcessMailboxPending :: "'s Actor \<Rightarrow> uint64" where
  "ProcessMailboxPending a = processMailboxPending a"

definition ProcessHandleDurationNsSum :: "'s Actor \<Rightarrow> uint64" where
  "ProcessHandleDurationNsSum a = processHandleDurationNsSum a"

definition ProcessHandleDurationNsCount :: "'s Actor \<Rightarrow> uint64" where
  "ProcessHandleDurationNsCount a = processHandleDurationNsCount a"

section \<open>Threads\<close>

text \<open>
  What the outside observes: a message enters the queue, the handler runs on a message, a result is
  emitted, a message is drained, a call of \<^verbatim>\<open>Send\<close> returns; and that other mailboxes of the
  process have changed the shared counter by some amount.
\<close>

datatype event =
    Enqueued RemoteEnvelope
  | Handled RemoteEnvelope
  | Emitted RemoteResult
  | Drained "RemoteEnvelope option"
  | Returned RemoteEnvelope bool
  | Others uint64

text \<open>Program points of \<^verbatim>\<open>Send\<close>, \<^verbatim>\<open>SendEnvelope\<close>, \<^verbatim>\<open>sendEnvelope\<close> and \<^verbatim>\<open>Stop\<close>, with the locals in scope.\<close>

datatype thread_pc =
    Idle
  | SendGet RemoteEnvelope
  | SendMsg RemoteEnvelope nat
  | EnqNext RemoteEnvelope nat
  | EnqCount RemoteEnvelope nat
  | EnqSwap RemoteEnvelope nat
  | EnqLink RemoteEnvelope nat nat
  | EnqWake RemoteEnvelope
  | StopLoad
  | StopCAS actor_status
  | StopWake

definition accepting :: "'s Actor \<Rightarrow> bool" where
  "accepting a \<longleftrightarrow> \<not> (status a = statusStopping \<or> status a = statusDead)"

text \<open>The first atomic step of the two calls: the load of the status.\<close>

definition Send :: "RemoteEnvelope \<Rightarrow> 's Actor \<Rightarrow> thread_pc \<times> event list" where
  "Send env a = (if accepting a then (SendGet env, []) else (Idle, [Returned env False]))"

definition SendEnvelope :: "nat option \<Rightarrow> RemoteEnvelope \<Rightarrow> 's Actor \<Rightarrow> thread_pc \<times> event list" where
  "SendEnvelope n env a = (case n of None \<Rightarrow> (Idle, [Returned env False])
   | Some n \<Rightarrow> if accepting a then (EnqNext env n, []) else (Idle, [Returned env False]))"

text \<open>The atomic steps that follow. \<^term>\<open>choice\<close> is the node the pool hands out.\<close>

fun thread_step :: "nat option \<Rightarrow> thread_pc \<Rightarrow> 's Actor \<Rightarrow> thread_pc \<times> 's Actor \<times> event list" where
  "thread_step choice Idle a = (Idle, a, [])"
| "thread_step choice (SendGet env) a =
     (case GetEnvelope choice a of (qnode, a') \<Rightarrow> (SendMsg env qnode, a', []))"
| "thread_step choice (SendMsg env qnode) a =
     (EnqNext env qnode, a\<lparr>heap := (heap a)(qnode := (heap a qnode)\<lparr>en_Msg := Some env\<rparr>)\<rparr>, [])"
| "thread_step choice (EnqNext env n) a =
     (EnqCount env n, a\<lparr>heap := (heap a)(n := (heap a n)\<lparr>en_next := None\<rparr>)\<rparr>, [])"
| "thread_step choice (EnqCount env n) a =
     (EnqSwap env n, a\<lparr>processMailboxPending := processMailboxPending a + 1\<rparr>, [])"
| "thread_step choice (EnqSwap env n) a = (EnqLink env (tail a) n, a\<lparr>tail := n\<rparr>, [Enqueued env])"
| "thread_step choice (EnqLink env prev n) a =
     (EnqWake env, a\<lparr>heap := (heap a)(prev := (heap a prev)\<lparr>en_next := Some n\<rparr>)\<rparr>, [])"
| "thread_step choice (EnqWake env) a = (Idle, a\<lparr>wake := True\<rparr>, [Returned env True])"
| "thread_step choice StopLoad a = (if accepting a then StopCAS (status a) else Idle, a, [])"
| "thread_step choice (StopCAS st) a =
     (if status a = st then (StopWake, a\<lparr>status := statusStopping\<rparr>, []) else (StopLoad, a, []))"
| "thread_step choice StopWake a = (Idle, a\<lparr>wake := True\<rparr>, [])"

text \<open>Program points of \<^verbatim>\<open>loop\<close> with \<^verbatim>\<open>dequeue\<close> inlined.\<close>

datatype loop_pc =
    NotStarted
  | Deq
  | DeqStore nat nat
  | DeqCount nat nat
  | DeqPut nat nat
  | Handling nat
  | Clear nat
  | Empty
  | Wait
  | Shutdown
  | Exited
  | Panicked

datatype select_case = SelectDone | SelectWake

type_synonym 's handler = "'s \<Rightarrow> RemoteEnvelope \<Rightarrow> RemoteResult option \<times> 's"

text \<open>
  \<^term>\<open>None\<close>: the goroutine cannot step, because it has ended or its \<^verbatim>\<open>select\<close> case is not ready.
  The yield of \<^verbatim>\<open>dequeue\<close> has no effect on memory. A node without a message makes the handler
  dereference nil.
\<close>

fun loop_step :: "'s handler \<Rightarrow> select_case \<Rightarrow> uint64 \<Rightarrow> loop_pc \<Rightarrow> 's Actor
    \<Rightarrow> (loop_pc \<times> 's Actor \<times> event list) option" where
  "loop_step H sel elapsed Deq a = (case en_next (heap a (head a)) of
     None \<Rightarrow> Some (Empty, a, [])
   | Some next \<Rightarrow> Some (DeqStore (head a) next, a, []))"
| "loop_step H sel elapsed (DeqStore h next) a = Some (DeqCount h next, a\<lparr>head := next\<rparr>, [])"
| "loop_step H sel elapsed (DeqCount h next) a =
     Some (DeqPut h next, a\<lparr>processMailboxPending := processMailboxPending a - 1\<rparr>, [])"
| "loop_step H sel elapsed (DeqPut h next) a = Some (Handling next, PutEnvelope (Some h) a, [])"
| "loop_step H sel elapsed (Handling qnode) a = (case en_Msg (heap a qnode) of
     None \<Rightarrow> Some (Panicked, a, [])
   | Some env \<Rightarrow> (case H (hstate a) env of (result, hs) \<Rightarrow>
       Some (Clear qnode,
             a\<lparr>hstate := hs,
               processHandleDurationNsSum := processHandleDurationNsSum a + elapsed,
               processHandleDurationNsCount := processHandleDurationNsCount a + 1\<rparr>,
             Handled env # (case result of None \<Rightarrow> [] | Some r \<Rightarrow> [Emitted (completeResult r env)]))))"
| "loop_step H sel elapsed (Clear qnode) a =
     Some (Deq, a\<lparr>heap := (heap a)(qnode := (heap a qnode)\<lparr>en_Msg := None\<rparr>)\<rparr>, [])"
| "loop_step H sel elapsed Empty a =
     Some (if status a = statusStopping then Shutdown else Wait, a, [])"
| "loop_step H sel elapsed Wait a = (case sel of
     SelectDone \<Rightarrow> if ctxDone a then Some (Exited, a\<lparr>status := statusDead\<rparr>, []) else None
   | SelectWake \<Rightarrow> if wake a then Some (Deq, a\<lparr>wake := False\<rparr>, []) else None)"
| "loop_step H sel elapsed Shutdown a =
     Some (Exited, a\<lparr>status := statusDead,
        hstate := (case shutdownFn a of None \<Rightarrow> hstate a | Some fn \<Rightarrow> fn (hstate a))\<rparr>, [])"
| "loop_step H sel elapsed _ a = None"

text \<open>
  \<^verbatim>\<open>Drain\<close>: one iteration reads the next node, appends its message to the result, clears it and
  advances the head; these touch only what the draining goroutine owns.
\<close>

datatype drain_pc = DrainOff | DrainTop | DrainCount nat | DrainPut nat

fun drain_step :: "drain_pc \<Rightarrow> 's Actor \<Rightarrow> (drain_pc \<times> 's Actor \<times> event list) option" where
  "drain_step DrainOff a = None"
| "drain_step DrainTop a = (case en_next (heap a (head a)) of
     None \<Rightarrow> Some (DrainOff, a, [])
   | Some next \<Rightarrow>
       Some (DrainCount (head a),
             a\<lparr>heap := (heap a)(next := (heap a next)\<lparr>en_Msg := None\<rparr>), head := next\<rparr>,
             [Drained (en_Msg (heap a next))]))"
| "drain_step (DrainCount h) a =
     Some (DrainPut h, a\<lparr>processMailboxPending := processMailboxPending a - 1\<rparr>, [])"
| "drain_step (DrainPut h) a = Some (DrainTop, PutEnvelope (Some h) a, [])"

section \<open>The system\<close>

record 's sys =
  act :: "'s Actor"
  thr :: "nat \<Rightarrow> thread_pc"
  lp :: loop_pc
  dr :: drain_pc

definition boot :: "'s Actor \<Rightarrow> 's sys" where
  "boot a = \<lparr>act = a, thr = (\<lambda>_. Idle), lp = NotStarted, dr = DrainOff\<rparr>"

text \<open>
  One step of the system. \<^verbatim>\<open>Drain\<close> is called only after \<^verbatim>\<open>IsDead\<close>, as its callers do. The last
  rules are the rest of the process: the context is cancelled; a node moves between the pool and
  other owners; a foreign node changes; another mailbox changes the process-wide counter.
\<close>

inductive mstep :: "'s handler \<Rightarrow> 's sys \<Rightarrow> event list \<Rightarrow> 's sys \<Rightarrow> bool" for H where
  call_send: "thr s t = Idle \<Longrightarrow> Send env (act s) = (pc, es) \<Longrightarrow>
     mstep H s es (s\<lparr>thr := (thr s)(t := pc)\<rparr>)"
| call_sendEnvelope: "thr s t = Idle \<Longrightarrow> n \<in> foreign (act s) \<Longrightarrow> en_Msg (heap (act s) n) = Some env \<Longrightarrow>
     SendEnvelope (Some n) env (act s) = (pc, es) \<Longrightarrow>
     mstep H s es (s\<lparr>thr := (thr s)(t := pc),
       act := if pc = Idle then act s else (act s)\<lparr>foreign := foreign (act s) - {n}\<rparr>\<rparr>)"
| call_stop: "thr s t = Idle \<Longrightarrow> mstep H s [] (s\<lparr>thr := (thr s)(t := StopLoad)\<rparr>)"
| call_start: "Start (act s) = (a, True) \<Longrightarrow> mstep H s [] (s\<lparr>act := a, lp := Deq\<rparr>)"
| thread: "thread_step choice (thr s t) (act s) = (pc, a, es) \<Longrightarrow>
     mstep H s es (s\<lparr>act := a, thr := (thr s)(t := pc)\<rparr>)"
| loop: "loop_step H sel elapsed (lp s) (act s) = Some (pc, a, es) \<Longrightarrow>
     mstep H s es (s\<lparr>act := a, lp := pc\<rparr>)"
| call_drain: "IsDead (act s) \<Longrightarrow> dr s = DrainOff \<Longrightarrow> mstep H s [] (s\<lparr>dr := DrainTop\<rparr>)"
| drain: "drain_step (dr s) (act s) = Some (pc, a, es) \<Longrightarrow>
     mstep H s es (s\<lparr>act := a, dr := pc\<rparr>)"
| cancel: "mstep H s [] (s\<lparr>act := (act s)\<lparr>ctxDone := True\<rparr>\<rparr>)"
| foreign_get: "GetEnvelope choice (act s) = (n, a) \<Longrightarrow>
     mstep H s [] (s\<lparr>act := a\<lparr>foreign := insert n (foreign a)\<rparr>\<rparr>)"
| foreign_put: "n \<in> foreign (act s) \<Longrightarrow>
     mstep H s [] (s\<lparr>act := (PutEnvelope (Some n) (act s))\<lparr>foreign := foreign (act s) - {n}\<rparr>\<rparr>)"
| foreign_write: "n \<in> foreign (act s) \<Longrightarrow>
     mstep H s [] (s\<lparr>act := (act s)\<lparr>heap := (heap (act s))(n := e)\<rparr>\<rparr>)"
| foreign_count: "mstep H s [Others w]
     (s\<lparr>act := (act s)\<lparr>processMailboxPending := processMailboxPending (act s) + w\<rparr>\<rparr>)"

inductive mrun :: "'s handler \<Rightarrow> 's sys \<Rightarrow> event list \<Rightarrow> 's sys \<Rightarrow> bool" for H where
  mrun_refl: "mrun H s [] s"
| mrun_step: "mrun H s tr s' \<Longrightarrow> mstep H s' es s'' \<Longrightarrow> mrun H s (tr @ es) s''"

section \<open>Ownership of nodes\<close>

text \<open>
  Every node has one owner. A ghost assignment of owners and the ghost list of the queue's nodes
  (the dummy first, in the order of the swaps) describe the memory.
\<close>

datatype owner = InQueue | InPool | InForeign | OfThread nat | OfLoop | OfDrain | Unused

fun held :: "thread_pc \<Rightarrow> nat set" where
  "held (SendMsg env n) = {n}"
| "held (EnqNext env n) = {n}"
| "held (EnqCount env n) = {n}"
| "held (EnqSwap env n) = {n}"
| "held _ = {}"

fun retired :: "loop_pc \<Rightarrow> nat set" where
  "retired (DeqCount h n) = {h}"
| "retired (DeqPut h n) = {h}"
| "retired _ = {}"

fun drain_retired :: "drain_pc \<Rightarrow> nat set" where
  "drain_retired (DrainCount h) = {h}"
| "drain_retired (DrainPut h) = {h}"
| "drain_retired _ = {}"

definition owned_by :: "nat list \<Rightarrow> 's sys \<Rightarrow> nat \<Rightarrow> owner \<Rightarrow> bool" where
  "owned_by q s n w \<longleftrightarrow>
     (n \<in> set q \<longleftrightarrow> w = InQueue) \<and> (n \<in> pool (act s) \<longleftrightarrow> w = InPool) \<and>
     (n \<in> foreign (act s) \<longleftrightarrow> w = InForeign) \<and> (\<forall>t. n \<in> held (thr s t) \<longleftrightarrow> w = OfThread t) \<and>
     (n \<in> retired (lp s) \<longleftrightarrow> w = OfLoop) \<and> (n \<in> drain_retired (dr s) \<longleftrightarrow> w = OfDrain) \<and>
     (fresh (act s) \<le> n \<longrightarrow> w = Unused)"

definition owners :: "(nat \<Rightarrow> owner) \<Rightarrow> nat list \<Rightarrow> 's sys \<Rightarrow> bool" where
  "owners own q s \<longleftrightarrow> (\<forall>n. owned_by q s n (own n))"

text \<open>
  The queue's nodes are linked in order, except that the link behind a node may be missing while the
  goroutine that swapped the tail is about to write it.
\<close>

definition pairs :: "nat list \<Rightarrow> (nat \<times> nat) set" where
  "pairs q = set (zip q (tl q))"

abbreviation nxt :: "'s sys \<Rightarrow> nat \<Rightarrow> nat option" where
  "nxt s n \<equiv> en_next (heap (act s) n)"

abbreviation msg :: "'s sys \<Rightarrow> nat \<Rightarrow> RemoteEnvelope option" where
  "msg s n \<equiv> en_Msg (heap (act s) n)"

definition ends :: "nat list \<Rightarrow> 's sys \<Rightarrow> bool" where
  "ends q s \<longleftrightarrow> q \<noteq> [] \<and> distinct q \<and> hd q = head (act s) \<and> last q = tail (act s) \<and>
     nxt s (last q) = None"

definition links :: "nat list \<Rightarrow> 's sys \<Rightarrow> bool" where
  "links q s \<longleftrightarrow>
     (\<forall>x y. (x, y) \<in> pairs q \<longrightarrow> nxt s x = Some y \<or> nxt s x = None \<and> (\<exists>t m. thr s t = EnqLink m x y)) \<and>
     (\<forall>t m x y. thr s t = EnqLink m x y \<longrightarrow> (x, y) \<in> pairs q \<and> nxt s x = None) \<and>
     (\<forall>t t' m m' x y y'. thr s t = EnqLink m x y \<longrightarrow> thr s t' = EnqLink m' x y' \<longrightarrow> t = t')"

lemma linksD:
  assumes "links q s"
  shows "(x, y) \<in> pairs q \<Longrightarrow> nxt s x = Some y \<or> nxt s x = None \<and> (\<exists>t m. thr s t = EnqLink m x y)"
    and "thr s t = EnqLink m x y \<Longrightarrow> (x, y) \<in> pairs q"
    and "thr s t = EnqLink m x y \<Longrightarrow> nxt s x = None"
    and "thr s t = EnqLink m x y \<Longrightarrow> thr s t' = EnqLink m' x y' \<Longrightarrow> t = t'"
  using assms unfolding links_def by blast+

lemma linksI:
  assumes "\<And>x y. (x, y) \<in> pairs q \<Longrightarrow> nxt s x = Some y \<or> nxt s x = None \<and> (\<exists>t m. thr s t = EnqLink m x y)"
    and "\<And>t m x y. thr s t = EnqLink m x y \<Longrightarrow> (x, y) \<in> pairs q \<and> nxt s x = None"
    and "\<And>t t' m m' x y y'. thr s t = EnqLink m x y \<Longrightarrow> thr s t' = EnqLink m' x y' \<Longrightarrow> t = t'"
  shows "links q s"
  using assms unfolding links_def by blast

text \<open>What a thread knows of its own node, and the loop of the head.\<close>

fun thread_ok :: "'s Actor \<Rightarrow> thread_pc \<Rightarrow> bool" where
  "thread_ok a (EnqNext m n) \<longleftrightarrow> en_Msg (heap a n) = Some m"
| "thread_ok a (EnqCount m n) \<longleftrightarrow> en_Msg (heap a n) = Some m \<and> en_next (heap a n) = None"
| "thread_ok a (EnqSwap m n) \<longleftrightarrow> en_Msg (heap a n) = Some m \<and> en_next (heap a n) = None"
| "thread_ok a (StopCAS st) \<longleftrightarrow> st = statusInit \<or> st = statusRunning"
| "thread_ok a _ \<longleftrightarrow> True"

definition IsRunning :: "actor_status \<Rightarrow> bool" where
  "IsRunning st \<longleftrightarrow> st = statusRunning \<or> st = statusStopping"

fun loop_ok :: "'s Actor \<Rightarrow> loop_pc \<Rightarrow> bool" where
  "loop_ok a NotStarted \<longleftrightarrow> status a = statusInit \<or> status a = statusStopping"
| "loop_ok a Exited \<longleftrightarrow> status a = statusDead"
| "loop_ok a (DeqStore h n) \<longleftrightarrow> h = head a \<and> en_next (heap a h) = Some n \<and> IsRunning (status a)"
| "loop_ok a (DeqCount h n) \<longleftrightarrow> n = head a \<and> IsRunning (status a)"
| "loop_ok a (DeqPut h n) \<longleftrightarrow> n = head a \<and> IsRunning (status a)"
| "loop_ok a (Handling n) \<longleftrightarrow> n = head a \<and> IsRunning (status a)"
| "loop_ok a (Clear n) \<longleftrightarrow> n = head a \<and> IsRunning (status a)"
| "loop_ok a Shutdown \<longleftrightarrow> status a = statusStopping"
| "loop_ok a _ \<longleftrightarrow> IsRunning (status a)"

definition shape :: "(nat \<Rightarrow> owner) \<Rightarrow> nat list \<Rightarrow> 's sys \<Rightarrow> bool" where
  "shape own q s \<longleftrightarrow> owners own q s \<and> ends q s \<and> links q s \<and>
     (\<forall>t. thread_ok (act s) (thr s t)) \<and> loop_ok (act s) (lp s) \<and>
     (dr s \<noteq> DrainOff \<longrightarrow> lp s = Exited)"

lemma pairs_snoc: "q \<noteq> [] \<Longrightarrow> pairs (q @ [n]) = insert (last q, n) (pairs q)"
proof (induction q)
  case (Cons x q)
  then show ?case by (cases q) (auto simp: pairs_def)
qed simp

lemma pairs_Cons: "pairs (h # n # r) = insert (h, n) (pairs (n # r))"
  by (simp add: pairs_def)

lemma pairs_mem: "(x, y) \<in> pairs q \<Longrightarrow> x \<in> set q \<and> y \<in> set q"
  by (cases q) (auto simp: pairs_def dest: set_zip_leftD set_zip_rightD)

lemma pairs_not_last: "distinct q \<Longrightarrow> (x, y) \<in> pairs q \<Longrightarrow> x \<noteq> last q"
proof (induction q)
  case (Cons a q)
  then show ?case
    by (cases q) (auto simp: pairs_def dest: set_zip_leftD)
qed (simp add: pairs_def)

lemma pairs_functional: "distinct q \<Longrightarrow> (x, y) \<in> pairs q \<Longrightarrow> (x, y') \<in> pairs q \<Longrightarrow> y = y'"
proof (induction q)
  case (Cons a q)
  then show ?case
    by (cases q) (auto simp: pairs_def dest: set_zip_leftD)
qed (simp add: pairs_def)

section \<open>Steps keep the shape\<close>

text \<open>
  Most steps leave the queue alone: they write a node outside it, move nodes between owners, or
  touch the flags. The list of nodes and the missing links are then the same.
\<close>

lemma ends_frame:
  assumes "ends q s" and "head (act s') = head (act s)" and "tail (act s') = tail (act s)"
    and "\<And>n. n \<in> set q \<Longrightarrow> nxt s' n = nxt s n"
  shows "ends q s'"
  using assms(1) unfolding ends_def assms(2,3) by (metis assms(4) last_in_set)

lemma links_frame:
  assumes "links q s" and "\<And>n. n \<in> set q \<Longrightarrow> nxt s' n = nxt s n"
    and "\<And>t m x y. thr s' t = EnqLink m x y \<longleftrightarrow> thr s t = EnqLink m x y"
  shows "links q s'"
proof -
  have eq: "nxt s' x = nxt s x" if "(x, y) \<in> pairs q" for x y
    using assms(2) pairs_mem [OF that] by simp
  have "nxt s' x = None" if "thr s t = EnqLink m x y" for t m x y
    using assms(1) that eq [of x y] by (simp add: links_def)
  with assms(1) show ?thesis
    unfolding links_def assms(3) by (simp add: eq cong: imp_cong)
qed

lemma own_disjoint:
  assumes "owners own q s"
  shows "n \<in> set q \<longleftrightarrow> own n = InQueue" "n \<in> pool (act s) \<longleftrightarrow> own n = InPool"
    "n \<in> foreign (act s) \<longleftrightarrow> own n = InForeign" "n \<in> held (thr s t) \<longleftrightarrow> own n = OfThread t"
    "n \<in> retired (lp s) \<longleftrightarrow> own n = OfLoop" "n \<in> drain_retired (dr s) \<longleftrightarrow> own n = OfDrain"
    "fresh (act s) \<le> n \<Longrightarrow> own n = Unused"
  using assms by (simp_all add: owners_def owned_by_def)

lemma owners_cong:
  assumes "owners own q s" and "pool (act s') = pool (act s)" "foreign (act s') = foreign (act s)"
      "fresh (act s') = fresh (act s)"
    and "\<And>t. held (thr s' t) = held (thr s t)" and "retired (lp s') = retired (lp s)"
      "drain_retired (dr s') = drain_retired (dr s)"
  shows "owners own q s'"
  using assms by (simp add: owners_def owned_by_def)

text \<open>When one node changes hands, the others keep their owners.\<close>

lemma owners_move:
  assumes "owners own q s" and "owned_by q' s' n w" and "\<And>m. m \<noteq> n \<Longrightarrow> owned_by q s m (own m) \<Longrightarrow> owned_by q' s' m (own m)"
  shows "owners (own(n := w)) q' s'"
  using assms by (auto simp: owners_def)

text \<open>A thread only relies on the node it holds.\<close>

lemma thread_ok_frame:
  "thread_ok a pc \<Longrightarrow> (\<And>n. n \<in> held pc \<Longrightarrow> heap a' n = heap a n) \<Longrightarrow> thread_ok a' pc"
  by (cases pc) auto

lemma loop_ok_frame:
  "loop_ok a pc \<Longrightarrow> head a' = head a \<Longrightarrow> status a' = status a \<Longrightarrow>
     en_next (heap a' (head a)) = en_next (heap a (head a)) \<Longrightarrow> loop_ok a' pc"
  by (cases pc) auto

lemma shape_frame:
  assumes "shape own q s" and "owners own' q s'"
    and "head (act s') = head (act s)" "tail (act s') = tail (act s)" "status (act s') = status (act s)"
    and "\<And>n. n \<in> set q \<Longrightarrow> nxt s' n = nxt s n"
    and "\<And>t m x y. thr s' t = EnqLink m x y \<longleftrightarrow> thr s t = EnqLink m x y"
    and "\<And>t. thread_ok (act s') (thr s' t)"
    and "lp s' = lp s" "dr s' = dr s"
  shows "shape own' q s'"
proof -
  have "head (act s) \<in> set q" using assms(1) unfolding shape_def ends_def by (metis hd_in_set)
  then have "nxt s' (head (act s)) = nxt s (head (act s))" by (rule assms(6))
  then have "loop_ok (act s') (lp s')"
    using assms(1) loop_ok_frame [OF _ assms(3,5)] by (simp add: shape_def assms(9))
  moreover have "ends q s'"
    by (rule ends_frame [of q s]) (use assms(1,3,4,6) in \<open>simp_all add: shape_def\<close>)
  moreover have "links q s'"
    by (rule links_frame [of q s]) (use assms(1,6,7) in \<open>simp_all add: shape_def\<close>)
  ultimately show ?thesis using assms(1,2,8,9,10) by (simp add: shape_def)
qed

lemma shape_flags:
  assumes "shape own q s" and "thr s' = thr s" "lp s' = lp s" "drain_retired (dr s') = drain_retired (dr s)"
    and "heap (act s') = heap (act s)" "pool (act s') = pool (act s)" "foreign (act s') = foreign (act s)"
      "fresh (act s') = fresh (act s)" "head (act s') = head (act s)" "tail (act s') = tail (act s)"
      "status (act s') = status (act s)"
    and "dr s' \<noteq> DrainOff \<longrightarrow> lp s = Exited"
  shows "shape own q s'"
proof -
  have "owners own q s'" by (rule owners_cong [of own q s]) (use assms in \<open>simp_all add: shape_def\<close>)
  moreover have "ends q s'" by (rule ends_frame [of q s]) (use assms in \<open>simp_all add: shape_def\<close>)
  moreover have "links q s'" by (rule links_frame [of q s]) (use assms in \<open>simp_all add: shape_def\<close>)
  moreover have "loop_ok (act s') (lp s)"
    by (rule loop_ok_frame [of "act s"]) (use assms in \<open>simp_all add: shape_def\<close>)
  moreover have "thread_ok (act s') (thr s t)" for t
    by (rule thread_ok_frame [of "act s"]) (use assms in \<open>simp_all add: shape_def\<close>)
  ultimately show ?thesis using assms by (simp add: shape_def)
qed

text \<open>How a node leaves the pool.\<close>

lemma GetEnvelope_cases:
  assumes "GetEnvelope choice a = (n, a')"
  obtains (pooled) "n \<in> pool a" "a' = a\<lparr>pool := pool a - {n}\<rparr>"
  | (new) "n = fresh a" "a' = a\<lparr>heap := (heap a)(n := emptyEnvelope), fresh := Suc n\<rparr>"
  using assms by (auto simp: GetEnvelope_def newEnvelope_def split: option.splits if_splits)

lemma GetEnvelope_frame:
  assumes "GetEnvelope choice a = (n, a')"
  shows "head a' = head a" "tail a' = tail a" "status a' = status a" "foreign a' = foreign a"
    "m \<noteq> n \<Longrightarrow> heap a' m = heap a m" "pool a' = pool a - {n} \<or> pool a' = pool a"
    "wake a' = wake a" "hstate a' = hstate a" "processMailboxPending a' = processMailboxPending a"
  using assms by (auto elim: GetEnvelope_cases)

lemma GetEnvelope_owner:
  assumes "GetEnvelope choice (act s) = (n, a)" and "owners own q s"
  shows "own n = InPool \<or> own n = Unused"
  using assms(1) own_disjoint [OF assms(2)] by (auto elim: GetEnvelope_cases)

text \<open>A step that writes at most one node outside the queue, and changes at most one thread.\<close>

lemma shape_write:
  assumes "shape own q s" and "owners own' q s'"
    and "head (act s') = head (act s)" "tail (act s') = tail (act s)" "status (act s') = status (act s)"
    and "lp s' = lp s" "dr s' = dr s"
    and "\<And>m. m \<noteq> n \<Longrightarrow> heap (act s') m = heap (act s) m"
    and "own n \<noteq> InQueue" and "\<And>t'. t' \<noteq> t \<Longrightarrow> own n \<noteq> OfThread t'"
    and "\<And>t'. t' \<noteq> t \<Longrightarrow> thr s' t' = thr s t'"
    and "thread_ok (act s') (thr s' t)"
    and "\<And>m x y. thr s' t = EnqLink m x y \<longleftrightarrow> thr s t = EnqLink m x y"
  shows "shape own' q s'"
proof -
  have ow: "owners own q s" using assms(1) by (simp add: shape_def)
  show ?thesis
  proof (rule shape_frame [OF assms(1-5) _ _ _ assms(6,7)])
    show "nxt s' m = nxt s m" if "m \<in> set q" for m
      using that own_disjoint(1) [OF ow, of m] assms(9) by (subst assms(8)) auto
    show "thr s' t' = EnqLink m x y \<longleftrightarrow> thr s t' = EnqLink m x y" for t' m x y
      using assms(11,13) by (cases "t' = t") auto
    show "thread_ok (act s') (thr s' t')" for t'
    proof (cases "t' = t")
      case False
      have "thread_ok (act s') (thr s t')"
      proof (rule thread_ok_frame)
        show "thread_ok (act s) (thr s t')" using assms(1) by (simp add: shape_def)
        show "heap (act s') m = heap (act s) m" if "m \<in> held (thr s t')" for m
          using that False own_disjoint(4) [OF ow, of m t'] assms(10) by (intro assms(8)) auto
      qed
      with False show ?thesis using assms(11) by simp
    qed (use assms(12) in simp)
  qed
qed

lemma owners_GetEnvelope:
  assumes "owners own q s" and "GetEnvelope choice (act s) = (n, a)"
  shows "owners (own(n := InForeign)) q (s\<lparr>act := a\<lparr>foreign := insert n (foreign a)\<rparr>\<rparr>)"
    and "held (thr s t) = {} \<Longrightarrow> held pc = {n} \<Longrightarrow>
      owners (own(n := OfThread t)) q (s\<lparr>act := a, thr := (thr s)(t := pc)\<rparr>)"
proof -
  have n: "own n = InPool \<or> own n = Unused" by (rule GetEnvelope_owner [OF assms(2,1)])
  have free: "n \<notin> set q" "n \<notin> foreign (act s)" "\<And>t. n \<notin> held (thr s t)" "n \<notin> retired (lp s)"
    "n \<notin> drain_retired (dr s)"
    using n own_disjoint [OF assms(1), of n] by auto
  have fresh: "n < fresh a \<and> n \<notin> pool a"
    using assms(2)
  proof (cases rule: GetEnvelope_cases)
    case pooled
    then show ?thesis using own_disjoint(2,7) [OF assms(1), of n] by (cases "fresh (act s) \<le> n") auto
  next
    case new
    then show ?thesis using own_disjoint(2,7) [OF assms(1), of n] by auto
  qed
  have rest: "foreign a = foreign (act s)" "m \<noteq> n \<Longrightarrow> m \<in> pool a \<longleftrightarrow> m \<in> pool (act s)"
      "fresh (act s) \<le> fresh a" for m
    using assms(2) by (auto elim: GetEnvelope_cases)
  show "owners (own(n := InForeign)) q (s\<lparr>act := a\<lparr>foreign := insert n (foreign a)\<rparr>\<rparr>)"
    by (rule owners_move [OF assms(1)]) (use free fresh rest in \<open>auto simp: owned_by_def\<close>)
  assume "held (thr s t) = {}" "held pc = {n}"
  then show "owners (own(n := OfThread t)) q (s\<lparr>act := a, thr := (thr s)(t := pc)\<rparr>)"
    by (intro owners_move [OF assms(1)]) (use free fresh rest in \<open>auto simp: owned_by_def\<close>)
qed

lemma shape_get:
  assumes "shape own q s" and "thr s t = SendGet env" and "GetEnvelope choice (act s) = (n, a)"
  shows "shape (own(n := OfThread t)) q (s\<lparr>act := a, thr := (thr s)(t := SendMsg env n)\<rparr>)"
proof -
  have ow: "owners own q s" using assms(1) by (simp add: shape_def)
  have n: "own n = InPool \<or> own n = Unused" by (rule GetEnvelope_owner [OF assms(3) ow])
  show ?thesis
    by (rule shape_write [OF assms(1) owners_GetEnvelope(2) [OF ow assms(3)], where n = n and t = t])
      (use GetEnvelope_frame [OF assms(3)] n assms(2) in auto)
qed

lemma shape_simple:
  assumes "shape own q s" and "\<And>m x y. thr s t \<noteq> EnqLink m x y" and "\<And>m x y. pc \<noteq> EnqLink m x y"
    and "held pc = held (thr s t)" and "thread_ok a pc"
    and "head a = head (act s)" "tail a = tail (act s)" "status a = status (act s)"
      "pool a = pool (act s)" "foreign a = foreign (act s)" "fresh a = fresh (act s)"
    and "\<And>m. m \<notin> held pc \<Longrightarrow> heap a m = heap (act s) m"
  shows "shape own q (s\<lparr>act := a, thr := (thr s)(t := pc)\<rparr>)"
proof -
  have ow: "owners own q s" using assms(1) by (simp add: shape_def)
  then have ow': "owners own q (s\<lparr>act := a, thr := (thr s)(t := pc)\<rparr>)"
    by (rule owners_cong) (use assms(4,9-11) in auto)
  show ?thesis
  proof (cases "held pc = {}")
    case True
    then show ?thesis
      by (intro shape_frame [OF assms(1) ow'])
        (use assms thread_ok_frame [of "act s" _ a] in \<open>auto simp: shape_def\<close>)
  next
    case False
    then obtain n where n: "held pc = {n}" by (cases pc) auto
    then have "own n = OfThread t" using own_disjoint(4) [OF ow, of n t] assms(4) by simp
    with n show ?thesis
      by (intro shape_write [OF assms(1) ow', where n = n and t = t]) (use assms in auto)
  qed
qed

text \<open>The swap of the tail appends a node; its link is missing until the goroutine writes it.\<close>

lemma shape_swap:
  assumes "shape own q s" and "thr s t = EnqSwap m n"
  shows "shape (own(n := InQueue)) (q @ [n])
    (s\<lparr>act := (act s)\<lparr>tail := n\<rparr>, thr := (thr s)(t := EnqLink m (tail (act s)) n)\<rparr>)"
proof -
  let ?s = "s\<lparr>act := (act s)\<lparr>tail := n\<rparr>, thr := (thr s)(t := EnqLink m (tail (act s)) n)\<rparr>"
  from assms(1) have ow: "owners own q s" and e: "ends q s" and l: "links q s"
    and th: "\<And>t. thread_ok (act s) (thr s t)" and lo: "loop_ok (act s) (lp s)"
    and dr: "dr s \<noteq> DrainOff \<longrightarrow> lp s = Exited"
    by (auto simp: shape_def)
  have own: "own n = OfThread t" using own_disjoint(4) [OF ow, of n t] assms(2) by simp
  have free: "n \<notin> set q" "n \<notin> pool (act s)" "n \<notin> foreign (act s)" "n \<notin> retired (lp s)"
    "n \<notin> drain_retired (dr s)" "n < fresh (act s)"
    using own own_disjoint [OF ow, of n] by (auto simp: linorder_not_le [symmetric] simp del: linorder_not_le)
  have "owners (own(n := InQueue)) (q @ [n]) ?s"
  proof (rule owners_move [OF ow])
    have "\<forall>t'. n \<in> held (thr s t') \<longleftrightarrow> t' = t" using own own_disjoint(4) [OF ow, of n] by auto
    with free show "owned_by (q @ [n]) ?s n InQueue" by (simp add: owned_by_def)
    show "owned_by (q @ [n]) ?s m' (own m')" if "m' \<noteq> n" "owned_by q s m' (own m')" for m'
      using that assms(2) own_disjoint(4) [OF ow, of m' t] by (auto simp: owned_by_def)
  qed
  moreover have "ends (q @ [n]) ?s"
    using e free(1) th [of t] assms(2) by (auto simp: ends_def)
  moreover have "links (q @ [n]) ?s"
  proof -
    have tl: "tail (act s) = last q" "q \<noteq> []" "distinct q" "nxt s (last q) = None"
      using e by (auto simp: ends_def)
    have nl: "x \<noteq> last q" if "thr s t' = EnqLink m' x y" for t' m' x y
      using pairs_not_last [OF tl(3) linksD(2) [OF l that]] .
    show ?thesis
    proof (rule linksI, goal_cases)
      case (1 x y)
      show ?case
      proof (cases "(x, y) \<in> pairs q")
        case True
        have "(\<exists>t' m'. thr ?s t' = EnqLink m' x y)" if "thr s t' = EnqLink m' x y" for t' m'
          using that assms(2) by (intro exI [of _ t']) auto
        moreover have "nxt ?s x = nxt s x" by simp
        ultimately show ?thesis using linksD(1) [OF l True] by metis
      next
        case False
        with 1 tl show ?thesis by (auto simp: pairs_snoc)
      qed
    next
      case (2 t' m' x y)
      with linksD(2,3) [OF l, of t' m' x y] tl show ?case by (auto simp: pairs_snoc split: if_splits)
    next
      case (3 t' t'' m' m'' x y y')
      with linksD(4) [OF l, of t' m' x y t'' m'' y'] nl tl(1) show ?case by (auto split: if_splits)
    qed
  qed
  moreover have "thread_ok (act ?s) (thr ?s t')" for t'
    using th [of t'] by (auto intro: thread_ok_frame)
  moreover have "loop_ok (act ?s) (lp ?s)" using lo by (auto intro: loop_ok_frame)
  ultimately show ?thesis using dr by (simp add: shape_def)
qed

lemma shape_link:
  assumes "shape own q s" and "thr s t = EnqLink m p n"
  shows "shape own q (s\<lparr>act := (act s)\<lparr>heap := (heap (act s))(p := (heap (act s) p)\<lparr>en_next := Some n\<rparr>)\<rparr>,
    thr := (thr s)(t := EnqWake m)\<rparr>)"
    (is "shape own q ?s")
proof -
  from assms(1) have ow: "owners own q s" and e: "ends q s" and l: "links q s"
    and th: "\<And>t. thread_ok (act s) (thr s t)" and lo: "loop_ok (act s) (lp s)"
    and dr: "dr s \<noteq> DrainOff \<longrightarrow> lp s = Exited"
    by (auto simp: shape_def)
  have p: "(p, n) \<in> pairs q" "nxt s p = None" using l assms(2) by (auto simp: links_def)
  have uniq: "x \<noteq> p" if "thr s t' = EnqLink m' x y" "t' \<noteq> t" for t' m' x y
    using linksD(4) [OF l assms(2)] that by metis
  have "owners own q ?s" by (rule owners_cong [OF ow]) (use assms(2) in auto)
  moreover have "ends q ?s"
    using e pairs_not_last [OF _ p(1)] by (auto simp: ends_def)
  moreover have "links q ?s"
  proof -
    have "distinct q" using e by (simp add: ends_def)
    from pairs_functional [OF this p(1)] have fn: "y = n" if "(p, y) \<in> pairs q" for y
      using that by auto
    show ?thesis
    proof (rule linksI, goal_cases)
      case (1 x y)
      show ?case
      proof (cases "x = p")
        case False
        have "(\<exists>t' m'. thr ?s t' = EnqLink m' x y)" if "thr s t' = EnqLink m' x y" for t' m'
          using that assms(2) False by (intro exI [of _ t']) auto
        moreover have "nxt ?s x = nxt s x" using False by simp
        ultimately show ?thesis using linksD(1) [OF l 1] by metis
      qed (use 1 fn in auto)
    next
      case (2 t' m' x y)
      with linksD(2,3) [OF l, of t' m' x y] uniq [of t' m' x y] show ?case by (auto split: if_splits)
    next
      case (3 t' t'' m' m'' x y y')
      with linksD(4) [OF l, of t' m' x y t'' m'' y'] show ?case by (auto split: if_splits)
    qed
  qed
  moreover have "thread_ok (act ?s) (thr ?s t')" for t'
  proof -
    have "own p = InQueue" using pairs_mem [OF p(1)] own_disjoint(1) [OF ow] by simp
    then have "p \<notin> held (thr s t')" using own_disjoint(4) [OF ow, of p t'] by simp
    then have "thread_ok (act ?s) (thr s t')" by (intro thread_ok_frame [OF th [of t']]) auto
    then show ?thesis by simp
  qed
  moreover have "loop_ok (act ?s) (lp ?s)" using lo p(2) by (cases "lp s") auto
  ultimately show ?thesis using dr by (simp add: shape_def)
qed

lemma shape_status:
  assumes "shape own q s" and "thr s t = StopCAS (status (act s))"
  shows "shape own q (s\<lparr>act := (act s)\<lparr>status := statusStopping\<rparr>, thr := (thr s)(t := StopWake)\<rparr>)"
proof -
  let ?s = "s\<lparr>act := (act s)\<lparr>status := statusStopping\<rparr>, thr := (thr s)(t := StopWake)\<rparr>"
  have ow: "owners own q ?s"
    by (rule owners_cong [of own q s]) (use assms in \<open>auto simp: shape_def\<close>)
  have "links q ?s" by (rule links_frame [of q s]) (use assms in \<open>auto simp: shape_def\<close>)
  moreover have "thread_ok (act ?s) (thr ?s t')" for t'
    using assms(1) by (auto simp: shape_def intro: thread_ok_frame)
  moreover have "status (act s) = statusInit \<or> status (act s) = statusRunning"
    using assms by (metis shape_def thread_ok.simps(4))
  then have "loop_ok (act ?s) (lp ?s)"
    using assms(1) unfolding shape_def by (cases "lp s") (auto simp: IsRunning_def)
  moreover have "ends q ?s" by (rule ends_frame [of q s]) (use assms(1) in \<open>auto simp: shape_def\<close>)
  ultimately show ?thesis using assms(1) ow by (simp add: shape_def)
qed

text \<open>The queue after a thread's step.\<close>

fun enq :: "thread_pc \<Rightarrow> nat list \<Rightarrow> nat list" where
  "enq (EnqSwap m n) q = q @ [n]"
| "enq _ q = q"

lemma shape_thread:
  assumes "shape own q s" and "thread_step choice (thr s t) (act s) = (pc, a, es)"
  shows "\<exists>own'. shape own' (enq (thr s t) q) (s\<lparr>act := a, thr := (thr s)(t := pc)\<rparr>)"
proof (cases "thr s t")
  case Idle
  with assms show ?thesis by (auto simp: fun_upd_idem)
next
  case (SendGet env)
  with assms shape_get [OF assms(1) SendGet] show ?thesis by (auto split: prod.splits)
next
  case (EnqSwap m n)
  with assms(2) shape_swap [OF assms(1) EnqSwap] show ?thesis by auto
next
  case (EnqLink m p n)
  with assms(2) shape_link [OF assms(1) EnqLink] show ?thesis by auto
next
  case (StopCAS st)
  show ?thesis
  proof (cases "status (act s) = st")
    case True
    with assms(2) shape_status [OF assms(1)] StopCAS show ?thesis by auto
  next
    case False
    with assms StopCAS show ?thesis by (intro exI [of _ own]) (auto intro!: shape_simple)
  qed
next
  case StopLoad
  moreover have "pc = Idle \<or> pc = StopCAS (status (act s)) \<and>
      (status (act s) = statusInit \<or> status (act s) = statusRunning)"
    using assms(2) StopLoad by (cases "status (act s)") (auto simp: accepting_def)
  ultimately show ?thesis
    using assms by (intro exI [of _ own]) (auto intro!: shape_simple)
next
  case (EnqNext m n)
  moreover have "thread_ok (act s) (thr s t)" using assms(1) by (simp add: shape_def)
  ultimately show ?thesis using assms by (intro exI [of _ own]) (auto intro!: shape_simple)
next
  case (EnqCount m n)
  moreover have "thread_ok (act s) (thr s t)" using assms(1) by (simp add: shape_def)
  ultimately show ?thesis using assms by (intro exI [of _ own]) (auto intro!: shape_simple)
qed (use assms in \<open>auto intro!: exI [of _ own] shape_simple\<close>)

lemma shape_call:
  assumes "shape own q s" and "thr s t = Idle" and "held pc = {}"
    and "thread_ok (act s) pc" and "\<And>m x y. pc \<noteq> EnqLink m x y"
  shows "shape own q (s\<lparr>thr := (thr s)(t := pc)\<rparr>)"
  using shape_simple [of own q s t pc "act s"] assms by simp

text \<open>A non-empty queue, seen from the head.\<close>

lemma shape_head_next:
  assumes "shape own q s" and "nxt s (head (act s)) = Some n"
  shows "\<exists>r. q = head (act s) # n # r"
proof -
  let ?h = "head (act s)"
  from assms(1) have e: "ends q s" and l: "links q s" by (auto simp: shape_def)
  from e obtain r where q: "q = ?h # r" unfolding ends_def by (cases q) auto
  with e assms(2) obtain y r' where r: "r = y # r'" by (cases r) (auto simp: ends_def)
  have "nxt s ?h = Some y" using linksD(1) [OF l, of ?h y] assms(2) q r by (auto simp: pairs_Cons)
  with q r assms(2) show ?thesis by auto
qed

lemma links_advance:
  assumes "shape own (h # n # r) s" and "nxt s h = Some n" and "\<And>m. nxt s' m = nxt s m" and "thr s' = thr s"
  shows "links (n # r) s'"
proof -
  from assms(1) have l: "links (h # n # r) s" by (simp add: shape_def)
  show ?thesis
  proof (rule linksI, goal_cases)
    case (1 x y)
    with linksD(1) [OF l, of x y] assms(3,4) show ?case by (simp add: pairs_Cons)
  next
    case (2 t m x y)
    then have "thr s t = EnqLink m x y" using assms(4) by simp
    from linksD(2,3) [OF l this] assms(2,3) show ?case by (auto simp: pairs_Cons)
  next
    case (3 t t' m m' x y y')
    with linksD(4) [OF l] assms(4) show ?case by simp
  qed
qed

lemma owners_advance:
  assumes "owners own (h # r) s" and "h \<notin> set r"
  shows "retired (lp s) = {} \<Longrightarrow> retired pc = {h} \<Longrightarrow>
      owners (own(h := OfLoop)) r (s\<lparr>act := (act s)\<lparr>head := n\<rparr>, lp := pc\<rparr>)"
    and "drain_retired (dr s) = {} \<Longrightarrow> drain_retired dpc = {h} \<Longrightarrow>
      owners (own(h := OfDrain)) r (s\<lparr>act := (act s)\<lparr>heap := hp, head := n\<rparr>, dr := dpc\<rparr>)"
proof -
  have "own h = InQueue" using own_disjoint(1) [OF assms(1), of h] by simp
  then have free: "h \<notin> pool (act s)" "h \<notin> foreign (act s)" "\<And>t. h \<notin> held (thr s t)"
    "h \<notin> retired (lp s)" "h \<notin> drain_retired (dr s)" "h < fresh (act s)"
    using own_disjoint [OF assms(1), of h]
    by (auto simp: linorder_not_le [symmetric] simp del: linorder_not_le)
  show "owners (own(h := OfLoop)) r (s\<lparr>act := (act s)\<lparr>head := n\<rparr>, lp := pc\<rparr>)"
    if "retired (lp s) = {}" "retired pc = {h}"
    by (rule owners_move [OF assms(1)]) (use free assms(2) that in \<open>auto simp: owned_by_def\<close>)
  show "owners (own(h := OfDrain)) r (s\<lparr>act := (act s)\<lparr>heap := hp, head := n\<rparr>, dr := dpc\<rparr>)"
    if "drain_retired (dr s) = {}" "drain_retired dpc = {h}"
    by (rule owners_move [OF assms(1)]) (use free assms(2) that in \<open>auto simp: owned_by_def\<close>)
qed

lemma shape_advance:
  assumes "shape own q s" and "lp s = DeqStore h n"
  shows "q = h # tl q \<and>
    shape (own(h := OfLoop)) (tl q) (s\<lparr>act := (act s)\<lparr>head := n\<rparr>, lp := DeqCount h n\<rparr>)"
proof -
  let ?s = "s\<lparr>act := (act s)\<lparr>head := n\<rparr>, lp := DeqCount h n\<rparr>"
  have lo: "h = head (act s)" "nxt s h = Some n" "IsRunning (status (act s))"
    using assms by (auto simp: shape_def)
  with shape_head_next [OF assms(1)] obtain r where q: "q = h # n # r" by auto
  have e: "ends q s" and th: "\<And>t. thread_ok (act s) (thr s t)" and dr: "dr s = DrainOff"
    using assms by (auto simp: shape_def)
  have ow: "owners own (h # n # r) s" "h \<notin> set (n # r)"
    using assms(1) e q by (auto simp: shape_def ends_def)
  have "owners (own(h := OfLoop)) (n # r) ?s"
    by (rule owners_advance(1) [OF ow]) (use assms(2) in simp_all)
  moreover have "ends (n # r) ?s" using e q by (auto simp: ends_def split: if_splits)
  moreover have "links (n # r) ?s"
    using assms(1) lo unfolding q by (intro links_advance [of own h n r s]) auto
  moreover have "thread_ok (act ?s) (thr ?s t)" for t using th [of t] by (auto intro: thread_ok_frame)
  ultimately show ?thesis using q lo dr by (simp add: shape_def)
qed

text \<open>A node that is put back into the pool is nobody's.\<close>

lemma shape_put:
  assumes "shape own q s" and "own h = OfLoop \<or> own h = OfDrain \<or> own h = InForeign"
    and "owners (own(h := InPool)) q s'" and "act s' = (PutEnvelope (Some h) (act s))\<lparr>foreign := f\<rparr>"
    and "thr s' = thr s" "dr s' \<noteq> DrainOff \<longrightarrow> dr s \<noteq> DrainOff"
    and "loop_ok (act s) (lp s')" "lp s = Exited \<longrightarrow> lp s' = Exited"
  shows "shape (own(h := InPool)) q s'"
proof -
  have ow: "owners own q s" using assms(1) by (simp add: shape_def)
  have mem: "heap (act s') m = heap (act s) m" if "m \<noteq> h" for m
    using that assms(4) by (simp add: PutEnvelope_def)
  have fr: "head (act s') = head (act s)" "tail (act s') = tail (act s)" "status (act s') = status (act s)"
    using assms(4) by (simp_all add: PutEnvelope_def)
  have "h \<notin> set q" using assms(2) own_disjoint(1) [OF ow, of h] by auto
  then have q: "nxt s' m = nxt s m" if "m \<in> set q" for m using mem that by metis
  have "head (act s) \<in> set q" using assms(1) unfolding shape_def ends_def by (metis hd_in_set)
  then have "loop_ok (act s') (lp s')" using q by (intro loop_ok_frame [OF assms(7) fr(1,3)]) simp
  moreover have "ends q s'" by (rule ends_frame [OF _ fr(1,2) q]) (use assms(1) in \<open>simp add: shape_def\<close>)
  moreover have "links q s'" by (rule links_frame [OF _ q]) (use assms(1,5) in \<open>auto simp: shape_def\<close>)
  moreover have "thread_ok (act s') (thr s' t)" for t
  proof -
    have "h \<notin> held (thr s t)" using assms(2) own_disjoint(4) [OF ow, of h t] by auto
    moreover have "thread_ok (act s) (thr s t)" using assms(1) by (simp add: shape_def)
    ultimately show ?thesis unfolding assms(5) using mem by (metis thread_ok_frame)
  qed
  ultimately show ?thesis using assms(1,3,6,8) by (auto simp: shape_def)
qed

lemma owners_put:
  assumes "owners own q s"
  shows "retired (lp s) = {h} \<Longrightarrow> retired pc = {} \<Longrightarrow>
      owners (own(h := InPool)) q (s\<lparr>act := PutEnvelope (Some h) (act s), lp := pc\<rparr>)"
    and "drain_retired (dr s) = {h} \<Longrightarrow> drain_retired dpc = {} \<Longrightarrow>
      owners (own(h := InPool)) q (s\<lparr>act := PutEnvelope (Some h) (act s), dr := dpc\<rparr>)"
    and "h \<in> foreign (act s) \<Longrightarrow>
      owners (own(h := InPool)) q
        (s\<lparr>act := (PutEnvelope (Some h) (act s))\<lparr>foreign := foreign (act s) - {h}\<rparr>\<rparr>)"
proof -
  have lt: "h < fresh (act s)" if "own h \<noteq> Unused"
    using that own_disjoint(7) [OF assms, of h] by (cases "fresh (act s) \<le> h") auto
  have nq: "own h = w \<Longrightarrow> w \<noteq> InQueue \<Longrightarrow> h \<notin> set q"
    and nt: "own h = w \<Longrightarrow> w \<noteq> OfThread t \<Longrightarrow> h \<notin> held (thr s t)"
    and nl: "own h = w \<Longrightarrow> w \<noteq> OfLoop \<Longrightarrow> h \<notin> retired (lp s)"
    and nd: "own h = w \<Longrightarrow> w \<noteq> OfDrain \<Longrightarrow> h \<notin> drain_retired (dr s)"
    and nf: "own h = w \<Longrightarrow> w \<noteq> InForeign \<Longrightarrow> h \<notin> foreign (act s)" for w t
    using own_disjoint [OF assms, of h] by auto
  show "owners (own(h := InPool)) q (s\<lparr>act := PutEnvelope (Some h) (act s), lp := pc\<rparr>)"
    if "retired (lp s) = {h}" "retired pc = {}"
  proof (rule owners_move [OF assms])
    have "own h = OfLoop" using that own_disjoint(5) [OF assms, of h] by simp
    with lt nq nt nd nf that
    show "owned_by q (s\<lparr>act := PutEnvelope (Some h) (act s), lp := pc\<rparr>) h InPool"
      by (simp add: owned_by_def PutEnvelope_def)
  qed (use that in \<open>auto simp: owned_by_def PutEnvelope_def\<close>)
  show "owners (own(h := InPool)) q (s\<lparr>act := PutEnvelope (Some h) (act s), dr := dpc\<rparr>)"
    if "drain_retired (dr s) = {h}" "drain_retired dpc = {}"
  proof (rule owners_move [OF assms])
    have "own h = OfDrain" using that own_disjoint(6) [OF assms, of h] by simp
    with lt nq nt nl nf that
    show "owned_by q (s\<lparr>act := PutEnvelope (Some h) (act s), dr := dpc\<rparr>) h InPool"
      by (simp add: owned_by_def PutEnvelope_def)
  qed (use that in \<open>auto simp: owned_by_def PutEnvelope_def\<close>)
  show "owners (own(h := InPool)) q
      (s\<lparr>act := (PutEnvelope (Some h) (act s))\<lparr>foreign := foreign (act s) - {h}\<rparr>\<rparr>)"
    if "h \<in> foreign (act s)"
  proof (rule owners_move [OF assms])
    have "own h = InForeign" using that own_disjoint(3) [OF assms, of h] by simp
    with lt nq nt nl nd
    show "owned_by q (s\<lparr>act := (PutEnvelope (Some h) (act s))\<lparr>foreign := foreign (act s) - {h}\<rparr>\<rparr>) h InPool"
      by (simp add: owned_by_def PutEnvelope_def)
  qed (auto simp: owned_by_def PutEnvelope_def)
qed

text \<open>A step of the loop that neither moves the head nor recycles a node.\<close>

lemma shape_lp:
  assumes "shape own q s" and "lp s \<noteq> Exited"
    and "head a = head (act s)" "tail a = tail (act s)" "pool a = pool (act s)"
      "foreign a = foreign (act s)" "fresh a = fresh (act s)"
    and "\<And>m. en_next (heap a m) = nxt s m" and "\<And>m. m \<notin> set q \<Longrightarrow> heap a m = heap (act s) m"
    and "retired pc = retired (lp s)" and "loop_ok a pc"
  shows "shape own q (s\<lparr>act := a, lp := pc\<rparr>)"
proof -
  let ?s = "s\<lparr>act := a, lp := pc\<rparr>"
  have ow: "owners own q s" using assms(1) by (simp add: shape_def)
  then have "owners own q ?s" by (rule owners_cong) (use assms in simp_all)
  moreover have "ends q ?s" by (rule ends_frame [of q s]) (use assms in \<open>simp_all add: shape_def\<close>)
  moreover have "links q ?s" by (rule links_frame [of q s]) (use assms in \<open>simp_all add: shape_def\<close>)
  moreover have "thread_ok a (thr s t)" for t
  proof (rule thread_ok_frame)
    show "thread_ok (act s) (thr s t)" using assms(1) by (simp add: shape_def)
    show "heap a m = heap (act s) m" if "m \<in> held (thr s t)" for m
      using that own_disjoint(1,4) [OF ow, of m] by (intro assms(9)) auto
  qed
  ultimately show ?thesis using assms(1,2,11) by (auto simp: shape_def)
qed

text \<open>The queue after a step of the loop, and of the draining goroutine.\<close>

fun deq :: "loop_pc \<Rightarrow> nat list \<Rightarrow> nat list" where
  "deq (DeqStore h n) q = tl q"
| "deq _ q = q"

lemma shape_loop:
  assumes "shape own q s" and "loop_step H sel elapsed (lp s) (act s) = Some (pc, a, es)"
  shows "\<exists>own'. shape own' (deq (lp s) q) (s\<lparr>act := a, lp := pc\<rparr>)"
proof -
  have lo: "loop_ok (act s) (lp s)" using assms(1) by (simp add: shape_def)
  have hq: "head (act s) \<in> set q" using assms(1) unfolding shape_def ends_def by (metis hd_in_set)
  show ?thesis
  proof (cases "lp s")
    case (DeqStore h n)
    with assms shape_advance [OF assms(1) DeqStore] show ?thesis by auto
  next
    case (DeqPut h n)
    have ow: "owners own q s" using assms(1) by (simp add: shape_def)
    have "own h = OfLoop" using DeqPut own_disjoint(5) [OF ow, of h] by simp
    moreover have "owners (own(h := InPool)) q (s\<lparr>act := PutEnvelope (Some h) (act s), lp := Handling n\<rparr>)"
      by (rule owners_put(1) [OF ow]) (simp_all add: DeqPut)
    ultimately have "shape (own(h := InPool)) q (s\<lparr>act := PutEnvelope (Some h) (act s), lp := Handling n\<rparr>)"
      by (intro shape_put [OF assms(1), where f = "foreign (act s)"])
        (use lo DeqPut in \<open>auto simp: PutEnvelope_def\<close>)
    with assms(2) DeqPut show ?thesis by auto
  next
    case Deq
    with assms lo show ?thesis
      by (auto intro!: exI [of _ own] shape_lp [of own q s "act s"] split: option.splits)
  next
    case (Handling n)
    with assms lo show ?thesis
      by (auto intro!: exI [of _ own] shape_lp split: option.splits prod.splits)
  next
    case (Clear n)
    with assms lo hq show ?thesis by (auto intro!: exI [of _ own] shape_lp)
  next
    case Empty
    with assms lo show ?thesis
      by (cases "status (act s) = statusStopping")
        (auto intro!: exI [of _ own] shape_lp [of own q s "act s"])
  next
    case Wait
    with assms lo show ?thesis
      by (auto intro!: exI [of _ own] shape_lp split: select_case.splits if_splits)
  qed (use assms lo in \<open>auto intro!: exI [of _ own] shape_lp\<close>)
qed

definition drained_queue :: "'s sys \<Rightarrow> nat list \<Rightarrow> nat list" where
  "drained_queue s q = (if dr s = DrainTop \<and> nxt s (head (act s)) \<noteq> None then tl q else q)"

lemma shape_drain_take:
  assumes "shape own q s" and "dr s = DrainTop" and "nxt s (head (act s)) = Some n"
  shows "shape (own(head (act s) := OfDrain)) (tl q)
    (s\<lparr>act := (act s)\<lparr>heap := (heap (act s))(n := (heap (act s) n)\<lparr>en_Msg := None\<rparr>), head := n\<rparr>,
       dr := DrainCount (head (act s))\<rparr>)"
    (is "shape ?own _ ?s")
proof -
  let ?h = "head (act s)"
  from shape_head_next [OF assms(1,3)] obtain r where q: "q = ?h # n # r" by auto
  have ow: "owners own (?h # n # r) s" "?h \<notin> set (n # r)" and e: "ends q s" and lp: "lp s = Exited"
    and th: "\<And>t. thread_ok (act s) (thr s t)" and lo: "loop_ok (act s) (lp s)"
    using assms(1,2) q by (auto simp: shape_def ends_def)
  have nxt: "nxt ?s m = nxt s m" for m by simp
  have "owners ?own (n # r) ?s"
    by (rule owners_advance(2) [OF ow]) (use assms(2) in simp_all)
  moreover have "ends (n # r) ?s" using e q by (auto simp: ends_def split: if_splits)
  moreover have "links (n # r) ?s"
    using assms(1,3) q by (intro links_advance [of own ?h n r s]) auto
  moreover have "thread_ok (act ?s) (thr ?s t)" for t
  proof -
    have "n \<notin> held (thr s t)" using own_disjoint(1,4) [OF ow(1), of n] by auto
    then show ?thesis using th [of t] by (auto intro!: thread_ok_frame [of "act s"])
  qed
  ultimately show ?thesis using q lp lo by (simp add: shape_def)
qed

lemma shape_drain:
  assumes "shape own q s" and "drain_step (dr s) (act s) = Some (pc, a, es)"
  shows "\<exists>own'. shape own' (drained_queue s q) (s\<lparr>act := a, dr := pc\<rparr>)"
proof (cases "dr s")
  case DrainTop
  show ?thesis
  proof (cases "nxt s (head (act s))")
    case None
    have "shape own q (s\<lparr>dr := DrainOff\<rparr>)"
      by (rule shape_flags [OF assms(1)]) (use DrainTop in simp_all)
    with assms(2) DrainTop None show ?thesis by (auto simp: drained_queue_def)
  next
    case (Some n)
    with assms(2) DrainTop shape_drain_take [OF assms(1) DrainTop Some] show ?thesis
      by (auto simp: drained_queue_def)
  qed
next
  case (DrainCount h)
  have "shape own q (s\<lparr>act := (act s)\<lparr>processMailboxPending := w\<rparr>, dr := DrainPut h\<rparr>)" for w
    by (rule shape_flags [OF assms(1)]) (use assms(1) DrainCount in \<open>simp_all add: shape_def\<close>)
  with assms(2) DrainCount show ?thesis by (auto simp: drained_queue_def)
next
  case (DrainPut h)
  have ow: "owners own q s" using assms(1) by (simp add: shape_def)
  have "own h = OfDrain" using DrainPut own_disjoint(6) [OF ow, of h] by simp
  moreover have "owners (own(h := InPool)) q (s\<lparr>act := PutEnvelope (Some h) (act s), dr := DrainTop\<rparr>)"
    by (rule owners_put(2) [OF ow]) (simp_all add: DrainPut)
  ultimately have "shape (own(h := InPool)) q (s\<lparr>act := PutEnvelope (Some h) (act s), dr := DrainTop\<rparr>)"
    by (intro shape_put [OF assms(1), where f = "foreign (act s)"])
      (use assms(1) DrainPut in \<open>auto simp: PutEnvelope_def shape_def\<close>)
  with assms(2) DrainPut show ?thesis by (auto simp: drained_queue_def)
qed (use assms in simp)

text \<open>The queue after a step, read off the two ends.\<close>

definition next_queue :: "'s sys \<Rightarrow> 's sys \<Rightarrow> nat list \<Rightarrow> nat list" where
  "next_queue s s' q = (if head (act s') = head (act s) then q else tl q) @
     (if tail (act s') = tail (act s) then [] else [tail (act s')])"

lemma next_queue_same [simp]:
  "head (act s') = head (act s) \<Longrightarrow> tail (act s') = tail (act s) \<Longrightarrow> next_queue s s' q = q"
  by (simp add: next_queue_def)

lemma next_queue_thread:
  assumes "shape own q s" and "thread_step choice (thr s t) (act s) = (pc, a, es)"
  shows "next_queue s (s\<lparr>act := a, thr := (thr s)(t := pc)\<rparr>) q = enq (thr s t) q"
proof (cases "thr s t")
  case (EnqSwap m n)
  have ow: "owners own q s" and e: "ends q s" using assms(1) by (auto simp: shape_def)
  have "n \<notin> set q" using EnqSwap own_disjoint(1,4) [OF ow, of n] by (metis held.simps(4) owner.distinct(5) singletonI)
  moreover have "tail (act s) \<in> set q" using e unfolding ends_def by (metis last_in_set)
  ultimately have "n \<noteq> tail (act s)" by auto
  with EnqSwap assms(2) show ?thesis by (auto simp: next_queue_def)
next
  case (SendGet env)
  with assms(2) obtain n where "GetEnvelope choice (act s) = (n, a)" by (auto split: prod.splits)
  with SendGet GetEnvelope_frame(1,2) [OF this] show ?thesis by simp
qed (use assms(2) in \<open>auto split: if_splits\<close>)

lemma next_queue_loop:
  assumes "shape own q s" and "loop_step H sel elapsed (lp s) (act s) = Some (pc, a, es)"
  shows "next_queue s (s\<lparr>act := a, lp := pc\<rparr>) q = deq (lp s) q"
proof (cases "lp s")
  case (DeqStore h n)
  have e: "ends q s" and h: "h = head (act s)" "nxt s (head (act s)) = Some n"
    using assms(1) DeqStore by (auto simp: shape_def)
  from shape_head_next [OF assms(1) h(2)] e have "n \<noteq> head (act s)" by (auto simp: ends_def)
  with DeqStore assms(2) show ?thesis by (auto simp: next_queue_def)
qed (use assms(2) in \<open>auto simp: PutEnvelope_def split: option.splits prod.splits if_splits select_case.splits\<close>)

lemma next_queue_drain:
  assumes "shape own q s" and "drain_step (dr s) (act s) = Some (pc, a, es)"
  shows "next_queue s (s\<lparr>act := a, dr := pc\<rparr>) q = drained_queue s q"
proof (cases "dr s = DrainTop \<and> nxt s (head (act s)) \<noteq> None")
  case True
  then obtain n where n: "nxt s (head (act s)) = Some n" by auto
  have e: "ends q s" using assms(1) by (simp add: shape_def)
  from shape_head_next [OF assms(1) n] e have "n \<noteq> head (act s)" by (auto simp: ends_def)
  with True n assms(2) show ?thesis by (auto simp: next_queue_def drained_queue_def)
next
  case False
  with assms(2) show ?thesis
    by (cases "dr s") (auto simp: drained_queue_def PutEnvelope_def)
qed

lemma shape_sendEnvelope:
  assumes "shape own q s" and "thr s t = Idle" and "n \<in> foreign (act s)" and "msg s n = Some env"
  shows "shape (own(n := OfThread t)) q
    (s\<lparr>thr := (thr s)(t := EnqNext env n), act := (act s)\<lparr>foreign := foreign (act s) - {n}\<rparr>\<rparr>)"
proof -
  let ?s = "s\<lparr>thr := (thr s)(t := EnqNext env n), act := (act s)\<lparr>foreign := foreign (act s) - {n}\<rparr>\<rparr>"
  have ow: "owners own q s" using assms(1) by (simp add: shape_def)
  have own: "own n = InForeign" using assms(3) own_disjoint(3) [OF ow, of n] by simp
  then have "n \<notin> set q" "n \<notin> pool (act s)" "n \<notin> retired (lp s)" "n \<notin> drain_retired (dr s)"
    "\<And>t. n \<notin> held (thr s t)" "\<not> fresh (act s) \<le> n"
    using own_disjoint [OF ow, of n] by auto
  moreover have "own m \<noteq> OfThread t" for m using own_disjoint(4) [OF ow, of m t] assms(2) by auto
  ultimately have "owners (own(n := OfThread t)) q ?s"
    by (intro owners_move [OF ow]) (use assms(2) in \<open>auto simp: owned_by_def\<close>)
  then show ?thesis
    by (rule shape_write [OF assms(1), where n = n and t = t]) (use own assms in auto)
qed

lemma shape_start:
  assumes "shape own q s" and "Start (act s) = (a, True)"
  shows "shape own q (s\<lparr>act := a, lp := Deq\<rparr>)"
proof -
  have st: "status (act s) = statusInit" "a = (act s)\<lparr>status := statusRunning\<rparr>"
    using assms(2) by (auto simp: Start_def split: if_splits)
  have "loop_ok (act s) (lp s)" using assms(1) by (simp add: shape_def)
  with st have "lp s = NotStarted" by (cases "lp s") (auto simp: IsRunning_def)
  with st show ?thesis by (intro shape_lp [OF assms(1)]) (auto simp: IsRunning_def)
qed

lemma shape_foreign_get:
  assumes "shape own q s" and "GetEnvelope choice (act s) = (n, a)"
  shows "shape (own(n := InForeign)) q (s\<lparr>act := a\<lparr>foreign := insert n (foreign a)\<rparr>\<rparr>)"
proof -
  have ow: "owners own q s" using assms(1) by (simp add: shape_def)
  have n: "own n = InPool \<or> own n = Unused" by (rule GetEnvelope_owner [OF assms(2) ow])
  have th: "thread_ok (act s) (thr s 0)" using assms(1) by (simp add: shape_def)
  have "n \<notin> held (thr s 0)" using n own_disjoint(4) [OF ow, of n 0] by auto
  then have "thread_ok a (thr s 0)"
    using GetEnvelope_frame(5) [OF assms(2)] by (intro thread_ok_frame [OF th]) metis
  then have "thread_ok (a\<lparr>foreign := insert n (foreign a)\<rparr>) (thr s 0)"
    by (rule thread_ok_frame) simp
  then show ?thesis
    by (intro shape_write [OF assms(1) owners_GetEnvelope(1) [OF ow assms(2)], where n = n and t = 0])
      (use GetEnvelope_frame [OF assms(2)] n in auto)
qed

lemma shape_foreign_write:
  assumes "shape own q s" and "n \<in> foreign (act s)"
  shows "shape own q (s\<lparr>act := (act s)\<lparr>heap := (heap (act s))(n := e)\<rparr>\<rparr>)"
proof -
  let ?s = "s\<lparr>act := (act s)\<lparr>heap := (heap (act s))(n := e)\<rparr>\<rparr>"
  have ow: "owners own q s" using assms(1) by (simp add: shape_def)
  have own: "own n = InForeign" using assms(2) own_disjoint(3) [OF ow, of n] by simp
  have "n \<notin> held (thr s 0)" using own own_disjoint(4) [OF ow, of n 0] by auto
  then have mem: "heap (act ?s) m = heap (act s) m" if "m \<in> held (thr s 0)" for m using that by auto
  have th: "thread_ok (act s) (thr s 0)" using assms(1) by (simp add: shape_def)
  have "thread_ok (act ?s) (thr s 0)" by (rule thread_ok_frame [OF th mem])
  moreover have "owners own q ?s" by (rule owners_cong [OF ow]) auto
  ultimately show ?thesis
    by (intro shape_write [OF assms(1), where n = n and t = 0]) (use own in auto)
qed

theorem shape_step:
  assumes "shape own q s" and "mstep H s es s'"
  shows "\<exists>own'. shape own' (next_queue s s' q) s'"
  using assms(2)
proof cases
  case (call_send t env pc)
  then have "pc = SendGet env \<or> pc = Idle" by (auto simp: Send_def split: if_splits)
  with call_send shape_call [OF assms(1) call_send(2), of pc] show ?thesis by auto
next
  case (call_sendEnvelope t n env pc)
  then have "pc = EnqNext env n \<or> pc = Idle" by (auto simp: SendEnvelope_def split: if_splits)
  with call_sendEnvelope shape_sendEnvelope [OF assms(1) call_sendEnvelope(2-4)] shape_call [OF assms(1) call_sendEnvelope(2), of pc]
  show ?thesis by auto
next
  case (call_stop t)
  with shape_call [OF assms(1) call_stop(3), of StopLoad] show ?thesis by auto
next
  case (call_start a)
  with shape_start [OF assms(1)] show ?thesis by (auto simp: Start_def split: if_splits)
next
  case (thread choice t pc a)
  with shape_thread [OF assms(1)] next_queue_thread [OF assms(1)] show ?thesis by metis
next
  case (loop sel elapsed pc a)
  with shape_loop [OF assms(1)] next_queue_loop [OF assms(1)] show ?thesis by metis
next
  case call_drain
  have "lp s = Exited"
    using assms(1) call_drain(3) unfolding shape_def IsDead_def by (cases "lp s") (auto simp: IsRunning_def)
  with call_drain shape_flags [OF assms(1), of s'] show ?thesis by auto
next
  case (drain pc a)
  with shape_drain [OF assms(1)] next_queue_drain [OF assms(1)] show ?thesis by metis
next
  case cancel
  with shape_flags [OF assms(1), of s'] assms(1) show ?thesis by (auto simp: shape_def)
next
  case (foreign_get choice n a)
  with shape_foreign_get [OF assms(1) foreign_get(3)] GetEnvelope_frame(1,2) [OF foreign_get(3)]
  show ?thesis by auto
next
  case (foreign_put n)
  have ow: "owners own q s" using assms(1) by (simp add: shape_def)
  have "own n = InForeign" using foreign_put(3) own_disjoint(3) [OF ow, of n] by simp
  then have "shape (own(n := InPool)) q s'"
    by (intro shape_put [OF assms(1), where f = "foreign (act s) - {n}"])
      (use foreign_put owners_put(3) [OF ow] assms(1) in \<open>auto simp: shape_def\<close>)
  with foreign_put show ?thesis by (auto simp: PutEnvelope_def)
next
  case (foreign_write n e)
  with shape_foreign_write [OF assms(1)] show ?thesis by auto
next
  case (foreign_count w)
  with shape_flags [OF assms(1), of s'] assms(1) show ?thesis by (auto simp: shape_def)
qed

end
