(* ===== verification/MailboxTrace.thy ===== *)
theory MailboxTrace
  imports Mailbox
begin

text \<open>
  What the runs of an actor (\<^verbatim>\<open>pkg/actor/actor.go\<close>) show to the outside: which messages enter the
  queue, which are handled, with what results, and when a goroutine that waits will be woken. The
  invariants relate the events of a run to the queue that \<^verbatim>\<open>Mailbox\<close> describes.
\<close>

section \<open>Events of a run\<close>

fun enqueued1 :: "event \<Rightarrow> RemoteEnvelope list" where
  "enqueued1 (Enqueued m) = [m]"
| "enqueued1 _ = []"

fun handled1 :: "event \<Rightarrow> RemoteEnvelope list" where
  "handled1 (Handled m) = [m]"
| "handled1 _ = []"

fun drained1 :: "event \<Rightarrow> RemoteEnvelope option list" where
  "drained1 (Drained m) = [m]"
| "drained1 _ = []"

fun emitted1 :: "event \<Rightarrow> RemoteResult list" where
  "emitted1 (Emitted r) = [r]"
| "emitted1 _ = []"

fun accepted1 :: "event \<Rightarrow> RemoteEnvelope list" where
  "accepted1 (Returned m True) = [m]"
| "accepted1 _ = []"

fun others1 :: "event \<Rightarrow> uint64" where
  "others1 (Others w) = w"
| "others1 _ = 0"

definition enqueued :: "event list \<Rightarrow> RemoteEnvelope list" where
  "enqueued tr = concat (map enqueued1 tr)"

definition handled :: "event list \<Rightarrow> RemoteEnvelope list" where
  "handled tr = concat (map handled1 tr)"

definition drained :: "event list \<Rightarrow> RemoteEnvelope option list" where
  "drained tr = concat (map drained1 tr)"

definition emitted :: "event list \<Rightarrow> RemoteResult list" where
  "emitted tr = concat (map emitted1 tr)"

text \<open>The messages whose \<^verbatim>\<open>Send\<close> has returned true.\<close>

definition accepted :: "event list \<Rightarrow> RemoteEnvelope list" where
  "accepted tr = concat (map accepted1 tr)"

definition others :: "event list \<Rightarrow> uint64" where
  "others tr = sum_list (map others1 tr)"

lemma event_append [simp]:
  "enqueued (xs @ ys) = enqueued xs @ enqueued ys" "handled (xs @ ys) = handled xs @ handled ys"
  "drained (xs @ ys) = drained xs @ drained ys" "emitted (xs @ ys) = emitted xs @ emitted ys"
  "accepted (xs @ ys) = accepted xs @ accepted ys" "others (xs @ ys) = others xs + others ys"
  by (simp_all add: enqueued_def handled_def drained_def emitted_def accepted_def others_def)

lemma event_simps [simp]:
  "enqueued [] = []" "handled [] = []" "drained [] = []" "emitted [] = []" "accepted [] = []"
  "others [] = 0"
  "enqueued (e # es) = enqueued1 e @ enqueued es" "handled (e # es) = handled1 e @ handled es"
  "drained (e # es) = drained1 e @ drained es" "emitted (e # es) = emitted1 e @ emitted es"
  "accepted (e # es) = accepted1 e @ accepted es" "others (e # es) = others1 e + others es"
  by (simp_all add: enqueued_def handled_def drained_def emitted_def accepted_def others_def)

section \<open>Order of messages\<close>

text \<open>The message the loop has taken from the queue and not handled yet.\<close>

fun in_hand :: "'s Actor \<Rightarrow> loop_pc \<Rightarrow> RemoteEnvelope option list" where
  "in_hand a (DeqCount h n) = [en_Msg (heap a n)]"
| "in_hand a (DeqPut h n) = [en_Msg (heap a n)]"
| "in_hand a (Handling n) = [en_Msg (heap a n)]"
| "in_hand a _ = []"

text \<open>
  First in, first out: what was enqueued is what was handled, then what was drained, then what the
  loop holds, then what is in the queue behind the dummy.
\<close>

definition fifo :: "nat list \<Rightarrow> 's sys \<Rightarrow> event list \<Rightarrow> bool" where
  "fifo q s tr \<longleftrightarrow> map Some (enqueued tr) =
     map Some (handled tr) @ drained tr @ in_hand (act s) (lp s) @ map (msg s) (tl q) \<and>
     (lp s \<noteq> Exited \<longrightarrow> drained tr = [])"

lemma in_hand_frame:
  "loop_ok a pc \<Longrightarrow> en_Msg (heap a' (head a)) = en_Msg (heap a (head a)) \<Longrightarrow> in_hand a' pc = in_hand a pc"
  by (cases pc) auto

lemma fifo_frame:
  assumes "fifo q s tr" and "shape own q s" and "\<And>m. m \<in> set q \<Longrightarrow> msg s' m = msg s m" and "lp s' = lp s"
    and "enqueued es = []" "handled es = []" "drained es = []"
  shows "fifo q s' (tr @ es)"
proof -
  have h: "head (act s) \<in> set q" using assms(2) unfolding shape_def ends_def by (metis hd_in_set)
  have "map (msg s') (tl q) = map (msg s) (tl q)"
    using assms(3) by (auto dest: list.set_sel(2) [rotated] intro: list.set_sel(2)) (metis list.sel(2) list.set_sel(2))
  moreover have "in_hand (act s') (lp s') = in_hand (act s) (lp s)"
    unfolding assms(4) using assms(2,3) h by (intro in_hand_frame) (simp_all add: shape_def)
  ultimately show ?thesis using assms by (simp add: fifo_def)
qed

lemma heap_frame_queue:
  assumes "shape own q s" and "m \<in> set q"
  shows "m \<notin> held (thr s t)" "m \<notin> pool (act s)" "m \<notin> foreign (act s)" "m \<noteq> fresh (act s)"
    "m \<notin> retired (lp s)" "m \<notin> drain_retired (dr s)"
proof -
  have ow: "owners own q s" using assms(1) by (simp add: shape_def)
  have "own m = InQueue" using assms(2) own_disjoint(1) [OF ow] by simp
  then show "m \<notin> held (thr s t)" "m \<notin> pool (act s)" "m \<notin> foreign (act s)" "m \<noteq> fresh (act s)"
    "m \<notin> retired (lp s)" "m \<notin> drain_retired (dr s)"
    using own_disjoint [OF ow, of m] by auto
qed

lemma GetEnvelope_queue:
  assumes "shape own q s" and "GetEnvelope choice (act s) = (n, a)" and "m \<in> set q"
  shows "heap a m = heap (act s) m"
proof -
  have "m \<noteq> n"
    using assms(2) heap_frame_queue(2,4) [OF assms(1,3)] by (auto elim: GetEnvelope_cases)
  then show ?thesis by (rule GetEnvelope_frame(5) [OF assms(2)])
qed

lemma fifo_thread:
  assumes "fifo q s tr" and "shape own q s"
    and "thread_step choice (thr s t) (act s) = (pc, a, es)"
  shows "fifo (enq (thr s t) q) (s\<lparr>act := a, thr := (thr s)(t := pc)\<rparr>) (tr @ es)"
proof (cases "thr s t")
  case (EnqSwap m n)
  have "thread_ok (act s) (thr s t)" "q \<noteq> []" using assms(2) by (auto simp: shape_def ends_def)
  moreover have "in_hand a (lp s) = in_hand (act s) (lp s)"
    using assms(3) EnqSwap by (cases "lp s") auto
  ultimately show ?thesis using assms(1,3) EnqSwap by (auto simp: fifo_def)
next
  case (SendGet env)
  with assms(3) obtain n where g: "GetEnvelope choice (act s) = (n, a)" "es = []"
    by (auto split: prod.splits)
  show ?thesis unfolding SendGet enq.simps
    by (rule fifo_frame [OF assms(1,2)]) (use g GetEnvelope_queue [OF assms(2) g(1)] in auto)
next
  case (SendMsg env n)
  show ?thesis unfolding SendMsg enq.simps
    by (rule fifo_frame [OF assms(1,2)])
      (use assms(3) SendMsg heap_frame_queue(1) [OF assms(2), of _ t] in auto)
qed (use fifo_frame [OF assms(1,2), of "s\<lparr>act := a, thr := (thr s)(t := pc)\<rparr>" es] assms(3)
      in \<open>auto split: if_splits\<close>)

text \<open>The loop never meets a node without a message.\<close>

lemma fifo_message:
  assumes "fifo q s tr" and "lp s = Handling n"
  shows "\<exists>m. msg s n = Some m"
proof (rule ccontr)
  assume "\<nexists>m. msg s n = Some m"
  then have "None \<in> set (map Some (enqueued tr))" using assms by (simp add: fifo_def)
  then show False by auto
qed

lemma fifo_loop:
  assumes "fifo q s tr" and "shape own q s"
    and "loop_step H sel elapsed (lp s) (act s) = Some (pc, a, es)"
  shows "fifo (deq (lp s) q) (s\<lparr>act := a, lp := pc\<rparr>) (tr @ es)"
proof (cases "lp s")
  case (DeqStore h n)
  have "h = head (act s)" "nxt s h = Some n" using assms(2) DeqStore by (auto simp: shape_def)
  with shape_head_next [OF assms(2)] obtain r where "q = h # n # r" by auto
  with assms(1,3) DeqStore show ?thesis by (auto simp: fifo_def)
next
  case (DeqPut h n)
  have n: "n \<in> set q" using assms(2) DeqPut unfolding shape_def ends_def by (metis hd_in_set loop_ok.simps(5))
  have "m \<noteq> h" if "m \<in> set q" for m using heap_frame_queue(5) [OF assms(2) that] DeqPut by auto
  then have "msg (s\<lparr>act := a, lp := pc\<rparr>) m = msg s m" if "m \<in> set q" for m
    using that assms(3) DeqPut by (auto simp: PutEnvelope_def)
  moreover have "set (tl q) \<subseteq> set q" by (cases q) auto
  ultimately have "map (msg (s\<lparr>act := a, lp := pc\<rparr>)) (tl q) = map (msg s) (tl q)"
      "in_hand a pc = [msg s n]"
    using assms(3) DeqPut n by (auto simp: subset_iff)
  with assms(1,3) DeqPut show ?thesis by (auto simp: fifo_def)
next
  case (Clear n)
  have "n = hd q" "distinct q" "q \<noteq> []" using assms(2) Clear by (auto simp: shape_def ends_def)
  then have "n \<notin> set (tl q)" by (cases q) auto
  then have "map (msg (s\<lparr>act := a, lp := pc\<rparr>)) (tl q) = map (msg s) (tl q)"
    using assms(3) Clear by auto
  with assms(1,3) Clear show ?thesis by (auto simp: fifo_def)
next
  case (Handling n)
  with fifo_message [OF assms(1) Handling] assms(1,3) show ?thesis
    by (auto simp: fifo_def split: prod.splits option.splits)
qed (use assms(1,3) in \<open>auto simp: fifo_def split: option.splits prod.splits if_splits select_case.splits\<close>)

lemma fifo_drain:
  assumes "fifo q s tr" and "shape own q s" and "drain_step (dr s) (act s) = Some (pc, a, es)"
  shows "fifo (drained_queue s q) (s\<lparr>act := a, dr := pc\<rparr>) (tr @ es)"
proof (cases "dr s")
  case DrainTop
  have lp: "lp s = Exited" using assms(2) DrainTop by (simp add: shape_def)
  show ?thesis
  proof (cases "nxt s (head (act s))")
    case None
    with assms(1,3) DrainTop show ?thesis by (auto simp: fifo_def drained_queue_def)
  next
    case (Some n)
    from shape_head_next [OF assms(2) this] obtain r where q: "q = head (act s) # n # r" by auto
    have "n \<notin> set r" using assms(2) q by (auto simp: shape_def ends_def)
    with assms(1,3) DrainTop Some q lp show ?thesis by (auto simp: fifo_def drained_queue_def)
  qed
next
  case (DrainPut h)
  have "m \<noteq> h" if "m \<in> set q" for m using heap_frame_queue(6) [OF assms(2) that] DrainPut by auto
  then have "fifo q (s\<lparr>act := a, dr := pc\<rparr>) (tr @ [])"
    by (intro fifo_frame [OF assms(1,2)]) (use assms(3) DrainPut in \<open>auto simp: PutEnvelope_def\<close>)
  with assms(3) DrainPut show ?thesis by (auto simp: drained_queue_def)
next
  case (DrainCount h)
  have "fifo q (s\<lparr>act := a, dr := pc\<rparr>) (tr @ [])"
    by (rule fifo_frame [OF assms(1,2)]) (use assms(3) DrainCount in auto)
  with assms(3) DrainCount show ?thesis by (auto simp: drained_queue_def)
qed (use assms(3) in simp)

lemma fifo_step:
  assumes "fifo q s tr" and "shape own q s" and "mstep H s es s'"
  shows "fifo (next_queue s s' q) s' (tr @ es)"
  using assms(3)
proof cases
  case (thread choice t pc a)
  with fifo_thread [OF assms(1,2)] next_queue_thread [OF assms(2)] show ?thesis by metis
next
  case (loop sel elapsed pc a)
  with fifo_loop [OF assms(1,2)] next_queue_loop [OF assms(2)] show ?thesis by metis
next
  case (drain pc a)
  with fifo_drain [OF assms(1,2)] next_queue_drain [OF assms(2)] show ?thesis by metis
next
  case (call_start a)
  with assms(1,2) show ?thesis
    by (cases "lp s") (auto simp: fifo_def Start_def shape_def IsRunning_def split: if_splits)
next
  case (foreign_get choice n a)
  with GetEnvelope_frame(1,2) [OF foreign_get(3)] fifo_frame [OF assms(1,2), of s' es]
    GetEnvelope_queue [OF assms(2) foreign_get(3)] show ?thesis by auto
next
  case (foreign_put n)
  have "m \<noteq> n" if "m \<in> set q" for m using heap_frame_queue(3) [OF assms(2) that] foreign_put by auto
  with foreign_put fifo_frame [OF assms(1,2), of s' es] show ?thesis by (auto simp: PutEnvelope_def)
next
  case (foreign_write n e)
  have "m \<noteq> n" if "m \<in> set q" for m using heap_frame_queue(3) [OF assms(2) that] foreign_write by auto
  with foreign_write fifo_frame [OF assms(1,2), of s' es] show ?thesis by auto
qed (use fifo_frame [OF assms(1,2), of s' es] in \<open>auto simp: Send_def SendEnvelope_def split: if_splits\<close>)

section \<open>The handler runs alone\<close>

text \<open>The handler applied to messages one after the other: the results and its final state.\<close>

fun run_handler :: "'s handler \<Rightarrow> 's \<Rightarrow> RemoteEnvelope list \<Rightarrow> RemoteResult list \<times> 's" where
  "run_handler H hs [] = ([], hs)"
| "run_handler H hs (m # ms) = (case H hs m of (r, hs1) \<Rightarrow>
     (case run_handler H hs1 ms of (rs, hs2) \<Rightarrow>
       ((case r of None \<Rightarrow> [] | Some x \<Rightarrow> [completeResult x m]) @ rs, hs2)))"

lemma run_handler_snoc:
  "run_handler H hs (ms @ [m]) = (case run_handler H hs ms of (rs, hs1) \<Rightarrow>
     (case H hs1 m of (r, hs2) \<Rightarrow>
       (rs @ (case r of None \<Rightarrow> [] | Some x \<Rightarrow> [completeResult x m]), hs2)))"
  by (induction ms arbitrary: hs) (auto split: prod.splits)

definition serial :: "'s handler \<Rightarrow> 's \<Rightarrow> 's sys \<Rightarrow> event list \<Rightarrow> bool" where
  "serial H hs s tr \<longleftrightarrow> emitted tr = fst (run_handler H hs (handled tr)) \<and>
     (lp s \<noteq> Exited \<longrightarrow> hstate (act s) = snd (run_handler H hs (handled tr))) \<and> lp s \<noteq> Panicked"

lemma serial_frame:
  "serial H hs s tr \<Longrightarrow> lp s' = lp s \<Longrightarrow> hstate (act s') = hstate (act s) \<Longrightarrow> emitted es = [] \<Longrightarrow> handled es = []
     \<Longrightarrow> serial H hs s' (tr @ es)"
  by (simp add: serial_def)

lemma thread_step_frame:
  "thread_step choice pc a = (pc', a', es) \<Longrightarrow> hstate a' = hstate a \<and> handled es = [] \<and> emitted es = []
     \<and> drained es = [] \<and> head a' = head a \<and> others es = 0"
  by (cases pc) (auto split: prod.splits if_splits dest: GetEnvelope_frame)

lemma drain_step_frame:
  "drain_step pc a = Some (pc', a', es) \<Longrightarrow> hstate a' = hstate a \<and> handled es = [] \<and> emitted es = []
     \<and> enqueued es = [] \<and> accepted es = [] \<and> others es = 0 \<and> wake a' = wake a \<and> status a' = status a"
  by (cases pc) (auto split: option.splits simp: PutEnvelope_def)

lemma serial_loop:
  assumes "serial H hs s tr" and "fifo q s tr"
    and "loop_step H sel elapsed (lp s) (act s) = Some (pc, a, es)"
  shows "serial H hs (s\<lparr>act := a, lp := pc\<rparr>) (tr @ es)"
proof (cases "lp s")
  case (Handling n)
  with fifo_message [OF assms(2) Handling] assms(1,3) show ?thesis
    by (auto simp: serial_def run_handler_snoc split: prod.splits option.splits)
qed (use assms(1,3) in
    \<open>auto simp: serial_def PutEnvelope_def split: option.splits prod.splits if_splits select_case.splits\<close>)

lemma serial_step:
  assumes "serial H hs s tr" and "fifo q s tr" and "shape own q s" and "mstep H s es s'"
  shows "serial H hs s' (tr @ es)"
  using assms(4)
proof cases
  case (loop sel elapsed pc a)
  with serial_loop [OF assms(1,2)] show ?thesis by simp
next
  case (thread choice t pc a)
  with thread_step_frame [OF thread(2)] serial_frame [OF assms(1), of s' es] show ?thesis by simp
next
  case (drain pc a)
  with drain_step_frame [OF drain(2)] serial_frame [OF assms(1), of s' es] show ?thesis by simp
next
  case (call_start a)
  have "loop_ok (act s) (lp s)" using assms(3) by (simp add: shape_def)
  with call_start assms(1) show ?thesis
    by (cases "lp s") (auto simp: serial_def Start_def IsRunning_def split: if_splits)
next
  case (foreign_get choice n a)
  with GetEnvelope_frame(8) [OF foreign_get(3)] serial_frame [OF assms(1), of s' es] show ?thesis by simp
qed (use serial_frame [OF assms(1), of s' es] in
    \<open>auto simp: Send_def SendEnvelope_def PutEnvelope_def split: if_splits\<close>)

section \<open>Counting threads\<close>

text \<open>A sum over the threads of what each contributes at its program point.\<close>

definition thr_sum :: "(thread_pc \<Rightarrow> 'a::comm_monoid_add) \<Rightarrow> (nat \<Rightarrow> thread_pc) \<Rightarrow> 'a" where
  "thr_sum f g = (\<Sum>t \<in> {t. g t \<noteq> Idle}. f (g t))"

abbreviation busy :: "(nat \<Rightarrow> thread_pc) \<Rightarrow> nat set" where
  "busy g \<equiv> {t. g t \<noteq> Idle}"

lemma finite_busy_upd: "finite (busy g) \<Longrightarrow> finite (busy (g(t := pc)))"
  by (rule finite_subset [of _ "insert t (busy g)"]) auto

lemma thr_sum_superset:
  assumes "finite A" and "busy g \<subseteq> A" and "f Idle = 0"
  shows "thr_sum f g = (\<Sum>t \<in> A. f (g t))"
  unfolding thr_sum_def using assms by (intro sum.mono_neutral_left) auto

lemma thr_sum_upd:
  assumes "finite (busy g)" and "f Idle = 0"
  shows "thr_sum f (g(t := pc)) + f (g t) = thr_sum f g + f pc"
proof -
  let ?A = "insert t (busy g)"
  have A: "finite ?A" "busy (g(t := pc)) \<subseteq> ?A" "busy g \<subseteq> ?A" using assms(1) by auto
  have "(\<Sum>u \<in> ?A - {t}. f ((g(t := pc)) u)) = (\<Sum>u \<in> ?A - {t}. f (g u))"
    by (rule sum.cong) auto
  then show ?thesis
    using sum.remove [OF A(1), of t "\<lambda>u. f ((g(t := pc)) u)"] sum.remove [OF A(1), of t "\<lambda>u. f (g u)"]
      thr_sum_superset [of ?A "g(t := pc)" f] thr_sum_superset [of ?A g f] A assms(2)
    by (simp add: add_ac)
qed

lemma thr_sum_idle: "(\<And>t. g t = Idle) \<Longrightarrow> thr_sum f g = 0"
  by (simp add: thr_sum_def)

text \<open>Messages that are in the queue while their \<^verbatim>\<open>Send\<close> has not returned.\<close>

fun sending :: "thread_pc \<Rightarrow> RemoteEnvelope multiset" where
  "sending (EnqLink m p n) = {#m#}"
| "sending (EnqWake m) = {#m#}"
| "sending _ = {#}"

definition sends :: "'s sys \<Rightarrow> event list \<Rightarrow> bool" where
  "sends s tr \<longleftrightarrow> finite (busy (thr s)) \<and>
     mset (enqueued tr) = mset (accepted tr) + thr_sum sending (thr s)"

lemma sends_upd:
  assumes "sends s tr" and "mset (enqueued es) + sending (thr s t) = mset (accepted es) + sending pc"
    and "thr s' = (thr s)(t := pc)"
  shows "sends s' (tr @ es)"
proof -
  have fin: "finite (busy (thr s))" using assms(1) by (simp add: sends_def)
  have "thr_sum sending (thr s') + sending (thr s t) = thr_sum sending (thr s) + sending pc"
    using thr_sum_upd [OF fin, of sending t pc] assms(3) by simp
  then have "mset (enqueued (tr @ es)) + sending (thr s t) =
      mset (accepted (tr @ es)) + thr_sum sending (thr s') + sending (thr s t)"
    using assms(1,2) by (simp add: sends_def add_ac)
  then have "mset (enqueued (tr @ es)) = mset (accepted (tr @ es)) + thr_sum sending (thr s')"
    by (simp only: add_right_cancel)
  with finite_busy_upd [OF fin, of t pc] assms(3) show ?thesis by (simp add: sends_def)
qed

lemma sends_thread:
  "thread_step choice pc a = (pc', a', es) \<Longrightarrow>
     mset (enqueued es) + sending pc = mset (accepted es) + sending pc'"
  by (cases pc) (auto split: prod.splits if_splits)

lemma loop_step_frame:
  "loop_step H sel elapsed pc a = Some (pc', a', es) \<Longrightarrow> enqueued es = [] \<and> accepted es = [] \<and> drained es = []
     \<and> others es = 0 \<and> tail a' = tail a"
  by (cases pc) (auto split: option.splits prod.splits if_splits select_case.splits simp: PutEnvelope_def)

lemma sends_step:
  assumes "sends s tr" and "mstep H s es s'"
  shows "sends s' (tr @ es)"
  using assms(2)
proof cases
  case (call_send t env pc)
  with sends_upd [OF assms(1), of es t pc s'] show ?thesis by (auto simp: Send_def split: if_splits)
next
  case (call_sendEnvelope t n env pc)
  with sends_upd [OF assms(1), of es t pc s'] show ?thesis
    by (auto simp: SendEnvelope_def split: if_splits)
next
  case (call_stop t)
  with sends_upd [OF assms(1), of es t StopLoad s'] show ?thesis by simp
next
  case (thread choice t pc a)
  with sends_upd [OF assms(1) sends_thread [OF thread(2)], of s'] show ?thesis by simp
next
  case (loop sel elapsed pc a)
  with loop_step_frame [OF loop(2)] assms(1) show ?thesis by (simp add: sends_def)
next
  case (drain pc a)
  with drain_step_frame [OF drain(2)] assms(1) show ?thesis by (simp add: sends_def)
qed (use assms(1) in \<open>auto simp: sends_def\<close>)

section \<open>The backlog counter\<close>

fun counted :: "thread_pc \<Rightarrow> uint64" where
  "counted (EnqSwap m n) = 1"
| "counted _ = 0"

fun loop_counted :: "loop_pc \<Rightarrow> uint64" where
  "loop_counted (DeqCount h n) = 1"
| "loop_counted _ = 0"

fun drain_counted :: "drain_pc \<Rightarrow> uint64" where
  "drain_counted (DrainCount h) = 1"
| "drain_counted _ = 0"

text \<open>
  The counter is ahead of the queue by the goroutines that are about to swap the tail, and by the
  node the loop (or the draining goroutine) has just unlinked.
\<close>

definition backlog :: "uint64 \<Rightarrow> nat list \<Rightarrow> 's sys \<Rightarrow> event list \<Rightarrow> bool" where
  "backlog p0 q s tr \<longleftrightarrow> processMailboxPending (act s) = p0 + others tr + of_nat (length (tl q)) +
     thr_sum counted (thr s) + loop_counted (lp s) + drain_counted (dr s)"

lemma backlog_thread:
  assumes "backlog p0 q s tr" and "finite (busy (thr s))" and "shape own q s"
    and "thread_step choice (thr s t) (act s) = (pc, a, es)"
  shows "backlog p0 (enq (thr s t) q) (s\<lparr>act := a, thr := (thr s)(t := pc)\<rparr>) (tr @ es)"
proof -
  have u: "thr_sum counted ((thr s)(t := pc)) + counted (thr s t) = thr_sum counted (thr s) + counted pc"
    by (rule thr_sum_upd [OF assms(2)]) simp
  have o: "others es = 0" using thread_step_frame [OF assms(4)] by simp
  have p: "processMailboxPending a + of_nat (length (tl q)) + counted (thr s t) =
      processMailboxPending (act s) + of_nat (length (tl (enq (thr s t) q))) + counted pc"
    using assms(3,4) by (cases "thr s t")
      (auto simp: shape_def ends_def Suc_le_eq [symmetric] split: prod.splits if_splits dest: GetEnvelope_frame)
  define base where "base = p0 + others (tr @ es) + loop_counted (lp s) + drain_counted (dr s)"
  have "processMailboxPending (act s) = base + of_nat (length (tl q)) + thr_sum counted (thr s)"
    using assms(1) o by (simp add: backlog_def base_def add_ac)
  with p have "processMailboxPending a + counted (thr s t) =
      base + of_nat (length (tl (enq (thr s t) q))) + (thr_sum counted (thr s) + counted pc)"
    by (simp add: algebra_simps)
  then have "processMailboxPending a =
      base + of_nat (length (tl (enq (thr s t) q))) + thr_sum counted ((thr s)(t := pc))"
    unfolding u [symmetric] by (simp only: add.assoc [symmetric] add_right_cancel)
  then show ?thesis by (simp add: backlog_def base_def add_ac)
qed

lemma backlog_loop:
  assumes "backlog p0 q s tr" and "shape own q s"
    and "loop_step H sel elapsed (lp s) (act s) = Some (pc, a, es)"
  shows "backlog p0 (deq (lp s) q) (s\<lparr>act := a, lp := pc\<rparr>) (tr @ es)"
proof (cases "lp s")
  case (DeqStore h n)
  have "h = head (act s)" "nxt s h = Some n" using assms(2) DeqStore by (auto simp: shape_def)
  with shape_head_next [OF assms(2)] obtain r where "q = h # n # r" by auto
  with assms(1,3) DeqStore show ?thesis by (auto simp: backlog_def algebra_simps)
qed (use assms(1,3) in
    \<open>auto simp: backlog_def PutEnvelope_def split: option.splits prod.splits if_splits select_case.splits\<close>)

lemma backlog_drain:
  assumes "backlog p0 q s tr" and "shape own q s" and "drain_step (dr s) (act s) = Some (pc, a, es)"
  shows "backlog p0 (drained_queue s q) (s\<lparr>act := a, dr := pc\<rparr>) (tr @ es)"
proof (cases "dr s = DrainTop \<and> nxt s (head (act s)) \<noteq> None")
  case True
  then obtain n where n: "nxt s (head (act s)) = Some n" by auto
  from shape_head_next [OF assms(2) n] obtain r where "q = head (act s) # n # r" by auto
  with assms(1,3) True n show ?thesis by (auto simp: backlog_def drained_queue_def algebra_simps)
next
  case False
  with assms(1,3) show ?thesis
    by (cases "dr s") (auto simp: backlog_def drained_queue_def PutEnvelope_def split: option.splits)
qed

lemma backlog_call:
  assumes "backlog p0 q s tr" and "finite (busy (thr s))"
    and "thr s' = (thr s)(t := pc)" and "counted pc = counted (thr s t)"
    and "processMailboxPending (act s') = processMailboxPending (act s)" "lp s' = lp s" "dr s' = dr s"
    and "others es = 0"
  shows "backlog p0 q s' (tr @ es)"
  using assms thr_sum_upd [OF assms(2), of counted t pc] by (simp add: backlog_def)

lemma backlog_step:
  assumes "backlog p0 q s tr" and "sends s tr" and "shape own q s" and "mstep H s es s'"
  shows "backlog p0 (next_queue s s' q) s' (tr @ es)"
  using assms(4)
proof -
  have fin: "finite (busy (thr s))" using assms(2) by (simp add: sends_def)
  from assms(4) show ?thesis
  proof cases
    case (call_send t env pc)
    with backlog_call [OF assms(1) fin, of s' t pc es] show ?thesis
      by (auto simp: Send_def split: if_splits)
  next
    case (call_sendEnvelope t n env pc)
    with backlog_call [OF assms(1) fin, of s' t pc es] show ?thesis
      by (auto simp: SendEnvelope_def split: if_splits)
  next
    case (call_stop t)
    with backlog_call [OF assms(1) fin, of s' t StopLoad es] show ?thesis by auto
  next
    case (thread choice t pc a)
    with backlog_thread [OF assms(1) fin assms(3)] next_queue_thread [OF assms(3)] show ?thesis by metis
  next
    case (loop sel elapsed pc a)
    with backlog_loop [OF assms(1,3)] next_queue_loop [OF assms(3)] show ?thesis by metis
  next
    case (drain pc a)
    with backlog_drain [OF assms(1,3)] next_queue_drain [OF assms(3)] show ?thesis by metis
  next
    case (call_start a)
    have "loop_ok (act s) (lp s)" using assms(3) by (simp add: shape_def)
    with call_start assms(1) show ?thesis
      by (cases "lp s") (auto simp: backlog_def Start_def IsRunning_def split: if_splits)
  next
    case (foreign_get choice n a)
    with GetEnvelope_frame [OF foreign_get(3)] assms(1) show ?thesis by (auto simp: backlog_def)
  qed (use assms(1) in \<open>auto simp: backlog_def PutEnvelope_def\<close>)
qed

section \<open>Wake-ups\<close>

text \<open>Goroutines that are about to put a token into the wake channel.\<close>

definition waking :: "'s sys \<Rightarrow> bool" where
  "waking s \<longleftrightarrow> (\<exists>t m. thr s t = EnqWake m) \<or> (\<exists>t. thr s t = StopWake)"

definition woken :: "'s sys \<Rightarrow> bool" where
  "woken s \<longleftrightarrow>
     ((lp s = Empty \<or> lp s = Wait) \<and> nxt s (head (act s)) \<noteq> None \<longrightarrow> wake (act s) \<or> waking s) \<and>
     (lp s = Wait \<and> status (act s) = statusStopping \<longrightarrow> wake (act s) \<or> waking s)"

lemma woken_frame:
  assumes "woken s" and "waking s \<Longrightarrow> waking s'" and "lp s' = lp s"
    and "nxt s' (head (act s')) = nxt s (head (act s))" "wake (act s') = wake (act s)"
      "status (act s') = status (act s)"
  shows "woken s'"
  using assms by (auto simp: woken_def)

lemma waking_upd:
  "thr s' = (thr s)(t := pc) \<Longrightarrow> (\<And>m. thr s t \<noteq> EnqWake m) \<Longrightarrow> thr s t \<noteq> StopWake \<Longrightarrow> waking s \<Longrightarrow> waking s'"
  unfolding waking_def by (metis fun_upd_other)

lemma woken_thread:
  assumes "woken s" and "shape own q s" and "thread_step choice (thr s t) (act s) = (pc, a, es)"
  shows "woken (s\<lparr>act := a, thr := (thr s)(t := pc)\<rparr>)"
proof -
  let ?s = "s\<lparr>act := a, thr := (thr s)(t := pc)\<rparr>"
  have h: "head (act s) \<in> set q" using assms(2) unfolding shape_def ends_def by (metis hd_in_set)
  note free = heap_frame_queue(1) [OF assms(2) h, of t]
  have fr: "woken ?s" if "\<And>m. thr s t \<noteq> EnqWake m" "thr s t \<noteq> StopWake"
      "nxt ?s (head (act s)) = nxt s (head (act s))" "wake a = wake (act s)" "status a = status (act s)"
    using thread_step_frame [OF assms(3)] that waking_upd [of ?s s t pc]
    by (intro woken_frame [OF assms(1)]) auto
  show ?thesis
  proof (cases "thr s t")
    case (SendGet env)
    with assms(3) obtain n where g: "GetEnvelope choice (act s) = (n, a)" by (auto split: prod.splits)
    show ?thesis
      by (rule fr) (use SendGet GetEnvelope_frame [OF g] GetEnvelope_queue [OF assms(2) g h] in auto)
  next
    case (EnqLink m p n)
    then have "waking ?s" using assms(3) by (auto simp: waking_def)
    then show ?thesis by (simp add: woken_def)
  next
    case (EnqWake m)
    then show ?thesis using assms(3) by (auto simp: woken_def)
  next
    case StopWake
    then show ?thesis using assms(3) by (auto simp: woken_def)
  next
    case (StopCAS st)
    show ?thesis
    proof (cases "status (act s) = st")
      case True
      then have "waking ?s" using assms(3) StopCAS by (auto simp: waking_def)
      then show ?thesis by (simp add: woken_def)
    next
      case False
      show ?thesis by (rule fr) (use StopCAS assms(3) False in auto)
    qed
  qed (rule fr; use assms(3) free in auto)+
qed

lemma woken_step:
  assumes "woken s" and "shape own q s" and "mstep H s es s'"
  shows "woken s'"
proof -
  have h: "head (act s) \<in> set q" using assms(2) unfolding shape_def ends_def by (metis hd_in_set)
  from assms(3) show ?thesis
  proof cases
    case (thread choice t pc a)
    with woken_thread [OF assms(1,2)] show ?thesis by simp
  next
    case (loop sel elapsed pc a)
    with assms(1) show ?thesis
      by (cases "lp s") (auto simp: woken_def waking_def PutEnvelope_def
          split: option.splits prod.splits if_splits select_case.splits)
  next
    case (call_start a)
    then show ?thesis by (simp add: woken_def)
  next
    case (drain pc a)
    have "dr s \<noteq> DrainOff" using drain(2) by auto
    with assms(2) have "lp s = Exited" by (simp add: shape_def)
    with drain show ?thesis by (simp add: woken_def)
  next
    case (call_send t env pc)
    with waking_upd [of s' s t pc] show ?thesis by (intro woken_frame [OF assms(1)]) auto
  next
    case (call_sendEnvelope t n env pc)
    with waking_upd [of s' s t pc] show ?thesis by (intro woken_frame [OF assms(1)]) auto
  next
    case (call_stop t)
    with waking_upd [of s' s t StopLoad] show ?thesis by (intro woken_frame [OF assms(1)]) auto
  next
    case (foreign_get choice n a)
    with GetEnvelope_frame [OF foreign_get(3)] GetEnvelope_queue [OF assms(2) foreign_get(3) h] show ?thesis
      by (intro woken_frame [OF assms(1)]) (auto simp: waking_def)
  next
    case (foreign_put n)
    then have "head (act s) \<noteq> n" using heap_frame_queue(3) [OF assms(2) h] by auto
    with foreign_put show ?thesis
      by (intro woken_frame [OF assms(1)]) (auto simp: waking_def PutEnvelope_def)
  next
    case (foreign_write n e)
    then have "head (act s) \<noteq> n" using heap_frame_queue(3) [OF assms(2) h] by auto
    with foreign_write show ?thesis by (intro woken_frame [OF assms(1)]) (auto simp: waking_def)
  qed (auto intro!: woken_frame [OF assms(1)] simp: waking_def)
qed

section \<open>Runs\<close>

text \<open>
  The memory in which an actor is created: pooled and foreign nodes are allocated and distinct.
\<close>

definition memory_ok :: "'s Actor \<Rightarrow> bool" where
  "memory_ok a \<longleftrightarrow> pool a \<inter> foreign a = {} \<and> (\<forall>n \<in> pool a \<union> foreign a. n < fresh a)"

definition run_inv :: "'s handler \<Rightarrow> 's \<Rightarrow> uint64 \<Rightarrow> 's sys \<Rightarrow> event list \<Rightarrow> bool" where
  "run_inv H hs p0 s tr \<longleftrightarrow> (\<exists>own q. shape own q s \<and> fifo q s tr \<and> serial H hs s tr \<and> sends s tr \<and>
     backlog p0 q s tr \<and> woken s)"

lemma shape_boot:
  assumes "memory_ok a"
  shows "shape (\<lambda>n. if n = fresh a then InQueue else if n \<in> pool a then InPool
      else if n \<in> foreign a then InForeign else Unused) [fresh a] (boot (New hs a))"
proof -
  have lt: "n \<in> pool a \<Longrightarrow> \<not> fresh a \<le> n" "n \<in> foreign a \<Longrightarrow> \<not> fresh a \<le> n" for n
    using assms unfolding memory_ok_def by (meson UnI1 UnI2 not_le)+
  then have "n \<in> pool a \<Longrightarrow> \<not> Suc (fresh a) \<le> n" "n \<in> foreign a \<Longrightarrow> \<not> Suc (fresh a) \<le> n" for n
    using Suc_leD by blast+
  moreover have "pool a \<inter> foreign a = {}" using assms by (simp add: memory_ok_def)
  ultimately show ?thesis using lt [of "fresh a"]
    by (auto simp: shape_def owners_def owned_by_def ends_def links_def boot_def New_def
        newEnvelope_def emptyEnvelope_def pairs_def simp del: not_less_eq_eq)
qed

lemma run_inv_boot:
  assumes "memory_ok a"
  shows "run_inv H hs (processMailboxPending a) (boot (New hs a)) []"
proof -
  let ?s = "boot (New hs a)"
  have "fifo [fresh a] ?s []" "serial H hs ?s []" "sends ?s []" "backlog (processMailboxPending a) [fresh a] ?s []"
      "woken ?s"
    by (simp_all add: fifo_def serial_def sends_def backlog_def woken_def boot_def New_def newEnvelope_def
        thr_sum_def)
  with shape_boot [OF assms, of hs] show ?thesis unfolding run_inv_def by blast
qed

lemma run_inv_step:
  assumes "run_inv H hs p0 s tr" and "mstep H s es s'"
  shows "run_inv H hs p0 s' (tr @ es)"
proof -
  from assms(1) obtain own q where i: "shape own q s" "fifo q s tr" "serial H hs s tr" "sends s tr"
    "backlog p0 q s tr" "woken s"
    by (auto simp: run_inv_def)
  from shape_step [OF i(1) assms(2)] obtain own' where "shape own' (next_queue s s' q) s'" by blast
  with fifo_step [OF i(2,1) assms(2)] serial_step [OF i(3,2,1) assms(2)] sends_step [OF i(4) assms(2)]
    backlog_step [OF i(5,4,1) assms(2)] woken_step [OF i(6,1) assms(2)]
  show ?thesis unfolding run_inv_def by blast
qed

lemma run_inv_run:
  assumes "mrun H (boot (New hs a)) tr s" and "memory_ok a"
  shows "run_inv H hs (processMailboxPending a) s tr"
  using assms by (induction "boot (New hs a)" tr s rule: mrun.induct)
    (auto intro: run_inv_boot run_inv_step)

lemma mrun_cons:
  assumes "mstep H s es s'" and "mrun H s' tr s''"
  shows "mrun H s (es @ tr) s''"
  using assms(2,1)
proof (induction rule: mrun.induct)
  case (mrun_refl s)
  with mrun_step [OF mrun.mrun_refl] show ?case by fastforce
next
  case (mrun_step s' tr s'' es' s''')
  then show ?case using mrun.mrun_step [of H s "es @ tr" s'' es' s'''] by simp
qed

lemma quiet_queue:
  assumes "shape own q s" and "\<And>t. thr s t = Idle" and "nxt s (head (act s)) = None"
  shows "q = [head (act s)]"
proof -
  from assms(1) have e: "ends q s" and l: "links q s" by (auto simp: shape_def)
  from e obtain r where q: "q = head (act s) # r" unfolding ends_def by (cases q) auto
  show ?thesis
  proof (cases r)
    case (Cons y r')
    then have "(head (act s), y) \<in> pairs q" using q by (simp add: pairs_Cons)
    from linksD(1) [OF l this] assms(2,3) show ?thesis by auto
  qed (use q in simp)
qed

lemma quiet_handled:
  assumes "run_inv H hs p0 s tr" and "\<And>t. thr s t = Idle" and "lp s = Wait" and "\<not> wake (act s)"
  shows "handled tr = enqueued tr" and "mset (accepted tr) = mset (enqueued tr)"
    and "processMailboxPending (act s) = p0 + others tr" and "status (act s) \<noteq> statusStopping"
proof -
  from assms(1) obtain own q where i: "shape own q s" "fifo q s tr" "sends s tr" "backlog p0 q s tr" "woken s"
    by (auto simp: run_inv_def)
  have "\<not> waking s" using assms(2) by (simp add: waking_def)
  with i(5) assms(3,4) have "nxt s (head (act s)) = None" and st: "status (act s) \<noteq> statusStopping"
    by (auto simp: woken_def)
  from quiet_queue [OF i(1) assms(2) this(1)] have q: "tl q = []" by simp
  have dr: "dr s = DrainOff" using i(1) assms(3) by (auto simp: shape_def)
  have "map Some (enqueued tr) = map Some (handled tr)"
    using i(2) assms(3) q by (simp add: fifo_def)
  then show "handled tr = enqueued tr" by (simp add: inj_map_eq_map)
  show "mset (accepted tr) = mset (enqueued tr)"
    using i(3) thr_sum_idle [of "thr s" sending] assms(2) by (simp add: sends_def)
  show "processMailboxPending (act s) = p0 + others tr"
    using i(4) thr_sum_idle [of "thr s" counted] assms(2,3) q dr by (simp add: backlog_def)
  show "status (act s) \<noteq> statusStopping" by (rule st)
qed

section \<open>Progress of the loop\<close>

text \<open>A bound on the steps the loop can take on its own.\<close>

fun rank :: "loop_pc \<Rightarrow> nat" where
  "rank (DeqCount h n) = 6"
| "rank (DeqPut h n) = 5"
| "rank (Handling n) = 4"
| "rank (Clear n) = 3"
| "rank Deq = 2"
| "rank (DeqStore h n) = 1"
| "rank Empty = 1"
| "rank _ = 0"

definition work :: "nat list \<Rightarrow> 's sys \<Rightarrow> nat" where
  "work q s = 10 * length q + (if wake (act s) then 4 else 0) + rank (lp s)"

definition looping :: "'s sys \<Rightarrow> bool" where
  "looping s \<longleftrightarrow> status (act s) = statusRunning \<and> lp s \<noteq> NotStarted \<and> lp s \<noteq> Exited \<and> lp s \<noteq> Panicked \<and>
     \<not> ctxDone (act s) \<and> (\<forall>t. thr s t = Idle)"

lemma loop_enabled:
  assumes "looping s" and "fifo q s tr" and "lp s \<noteq> Wait \<or> wake (act s)"
  shows "\<exists>pc a es. loop_step H SelectWake 0 (lp s) (act s) = Some (pc, a, es)"
proof (cases "lp s")
  case (Handling n)
  from fifo_message [OF assms(2) this] obtain m where "msg s n = Some m" by blast
  with Handling show ?thesis by (cases "H (hstate (act s)) m") simp
qed (use assms(1,3) in \<open>auto simp: looping_def split: option.splits\<close>)

lemma loop_progress:
  assumes "looping s" and "shape own q s" and "fifo q s tr"
    and "loop_step H sel elapsed (lp s) (act s) = Some (pc, a, es)"
  shows "looping (s\<lparr>act := a, lp := pc\<rparr>)" and "work (deq (lp s) q) (s\<lparr>act := a, lp := pc\<rparr>) < work q s"
proof -
  have q: "q \<noteq> []" and lo: "loop_ok (act s) (lp s)" using assms(2) by (simp_all add: shape_def ends_def)
  have "\<exists>m. msg s n = Some m" if "lp s = Handling n" for n using fifo_message [OF assms(3) that] .
  then show "looping (s\<lparr>act := a, lp := pc\<rparr>)"
    using assms(1,4) lo by (cases "lp s")
      (auto simp: looping_def PutEnvelope_def split: option.splits prod.splits if_splits select_case.splits)
  show "work (deq (lp s) q) (s\<lparr>act := a, lp := pc\<rparr>) < work q s"
    using assms(1,4) lo q by (cases "lp s"; cases q)
      (auto simp: looping_def work_def PutEnvelope_def split: option.splits prod.splits if_splits select_case.splits)
qed

text \<open>
  Runs in which only the loop moves, with the number of its steps; what \<^verbatim>\<open>select\<close> would choose and
  the measured durations are arbitrary.
\<close>

inductive loop_only :: "'s handler \<Rightarrow> 's sys \<Rightarrow> nat \<Rightarrow> event list \<Rightarrow> 's sys \<Rightarrow> bool" for H s where
  loop_none: "loop_only H s 0 [] s"
| loop_more: "loop_only H s n tr s' \<Longrightarrow> loop_step H sel elapsed (lp s') (act s') = Some (pc, a, es) \<Longrightarrow>
    loop_only H s (Suc n) (tr @ es) (s'\<lparr>act := a, lp := pc\<rparr>)"

lemma loop_only_inv:
  assumes "loop_only H s n tr' s'" and "run_inv H hs p0 s tr" and "looping s" and "shape own q s" and "fifo q s tr"
  shows "\<exists>own' q'. shape own' q' s' \<and> fifo q' s' (tr @ tr') \<and> run_inv H hs p0 s' (tr @ tr') \<and> looping s' \<and>
    n + work q' s' \<le> work q s \<and> enqueued tr' = []"
  using assms(1)
proof (induction rule: loop_only.induct)
  case loop_none
  show ?case using assms(2-5) by auto
next
  case (loop_more n tr' s' sel elapsed pc a es)
  from loop_more.IH obtain own' q' where i: "shape own' q' s'" "fifo q' s' (tr @ tr')"
    "run_inv H hs p0 s' (tr @ tr')" "looping s'" "n + work q' s' \<le> work q s" "enqueued tr' = []"
    by blast
  let ?s = "s'\<lparr>act := a, lp := pc\<rparr>"
  have step: "mstep H s' es ?s" by (rule mstep.loop [OF loop_more(2)])
  from shape_loop [OF i(1) loop_more(2)] obtain own'' where "shape own'' (deq (lp s') q') ?s" by blast
  moreover have "fifo (deq (lp s') q') ?s (tr @ tr' @ es)"
    using fifo_loop [OF i(2,1) loop_more(2)] by simp
  moreover have "run_inv H hs p0 ?s (tr @ tr' @ es)" using run_inv_step [OF i(3) step] by simp
  moreover have "looping ?s" "Suc n + work (deq (lp s') q') ?s \<le> work q s"
    using loop_progress [OF i(4,1,2) loop_more(2)] i(5) by simp_all
  moreover have "enqueued (tr' @ es) = []" using i(6) loop_step_frame [OF loop_more(2)] by simp
  ultimately show ?case by blast
qed

lemma work_bound:
  assumes "fifo q s tr" and "q \<noteq> []"
  shows "work q s \<le> 10 * (length (enqueued tr) - length (handled tr)) + 20"
proof -
  have "length (map Some (enqueued tr)) =
      length (map Some (handled tr) @ drained tr @ in_hand (act s) (lp s) @ map (msg s) (tl q))"
    using assms(1) unfolding fifo_def by (metis (no_types))
  then have "length q \<le> Suc (length (enqueued tr) - length (handled tr))" by simp
  moreover have "rank (lp s) \<le> 6" by (cases "lp s") auto
  ultimately show ?thesis by (simp add: work_def)
qed

section \<open>Schedules\<close>

text \<open>Runs given by a list of scheduling choices, so that concrete interleavings can be evaluated.\<close>

datatype choice = ASend nat RemoteEnvelope | AStop nat | AStart | AThread nat | ALoop | ACallDrain | ADrain

fun exec1 :: "'s handler \<Rightarrow> choice \<Rightarrow> 's sys \<Rightarrow> (event list \<times> 's sys) option" where
  "exec1 H (ASend t env) s = (if thr s t = Idle then
     (case Send env (act s) of (pc, es) \<Rightarrow> Some (es, s\<lparr>thr := (thr s)(t := pc)\<rparr>)) else None)"
| "exec1 H (AStop t) s = (if thr s t = Idle then Some ([], s\<lparr>thr := (thr s)(t := StopLoad)\<rparr>) else None)"
| "exec1 H AStart s = (case Start (act s) of (a, b) \<Rightarrow> if b then Some ([], s\<lparr>act := a, lp := Deq\<rparr>) else None)"
| "exec1 H (AThread t) s = (case thread_step None (thr s t) (act s) of (pc, a, es) \<Rightarrow>
     Some (es, s\<lparr>act := a, thr := (thr s)(t := pc)\<rparr>))"
| "exec1 H ALoop s = (case loop_step H SelectWake 0 (lp s) (act s) of None \<Rightarrow> None
     | Some (pc, a, es) \<Rightarrow> Some (es, s\<lparr>act := a, lp := pc\<rparr>))"
| "exec1 H ACallDrain s = (if IsDead (act s) \<and> dr s = DrainOff then Some ([], s\<lparr>dr := DrainTop\<rparr>) else None)"
| "exec1 H ADrain s = (case drain_step (dr s) (act s) of None \<Rightarrow> None
     | Some (pc, a, es) \<Rightarrow> Some (es, s\<lparr>act := a, dr := pc\<rparr>))"

fun exec :: "'s handler \<Rightarrow> choice list \<Rightarrow> 's sys \<Rightarrow> (event list \<times> 's sys) option" where
  "exec H [] s = Some ([], s)"
| "exec H (c # cs) s = (case exec1 H c s of None \<Rightarrow> None
     | Some (es, s1) \<Rightarrow> (case exec H cs s1 of None \<Rightarrow> None | Some (tr, s2) \<Rightarrow> Some (es @ tr, s2)))"

lemma exec1_mstep: "exec1 H c s = Some (es, s') \<Longrightarrow> mstep H s es s'"
  by (cases c) (auto split: if_splits prod.splits option.splits intro: mstep.intros)

lemma exec_mrun: "exec H cs s = Some (tr, s') \<Longrightarrow> mrun H s tr s'"
proof (induction cs arbitrary: s tr)
  case Nil
  then show ?case by (simp add: mrun_refl)
next
  case (Cons c cs)
  then obtain es s1 tr' where "exec1 H c s = Some (es, s1)" "exec H cs s1 = Some (tr', s')" "tr = es @ tr'"
    by (auto split: option.splits)
  with Cons.IH show ?case by (metis mrun_cons exec1_mstep)
qed

text \<open>An empty process memory, and a handler that answers every message.\<close>

definition demo_mem :: "nat Actor" where
  "demo_mem = \<lparr>heap = (\<lambda>_. emptyEnvelope), pool = {}, foreign = {}, fresh = 0,
     processMailboxPending = 0, processHandleDurationNsSum = 0, processHandleDurationNsCount = 0,
     head = 0, tail = 0, status = statusInit, wake = False, ctxDone = False, hstate = 0, shutdownFn = None\<rparr>"

definition demo_handler :: "nat handler" where
  "demo_handler n env = (Some zero_RemoteResult, Suc n)"

definition demo_msg :: "uint64 \<Rightarrow> RemoteEnvelope" where
  "demo_msg r = \<lparr>env_TenantId = 1, env_Uid = 7, env_TxId = ''a'', env_RequestId = r, env_OpCode = 1,
     env_Payload = [], env_DeadlineUnixMs = 0\<rparr>"

lemma demo_memory: "memory_ok demo_mem"
  by (simp add: memory_ok_def demo_mem_def)

lemmas exec_defs = boot_def New_def newEnvelope_def demo_mem_def emptyEnvelope_def Send_def accepting_def
  Start_def GetEnvelope_def PutEnvelope_def IsDead_def demo_handler_def

text \<open>Two sends are interleaved with the loop, which handles both messages and then waits.\<close>

definition demo_schedule :: "choice list" where
  "demo_schedule = [AStart, ASend 0 (demo_msg 1), ASend 1 (demo_msg 2), AThread 0, AThread 1, AThread 0, AThread 1,
     AThread 0, AThread 1, AThread 0, AThread 1, AThread 1, AThread 0, AThread 1, AThread 0, AThread 0, AThread 1,
     ALoop, ALoop, ALoop, ALoop, ALoop, ALoop,
     ALoop, ALoop, ALoop, ALoop, ALoop, ALoop, ALoop, ALoop, ALoop, ALoop, ALoop]"

lemma demo_run:
  "\<exists>tr s. exec demo_handler demo_schedule (boot (New 0 demo_mem)) = Some (tr, s) \<and> (\<forall>t. thr s t = Idle) \<and>
     lp s = Wait \<and> \<not> wake (act s) \<and> status (act s) = statusRunning \<and> dr s = DrainOff \<and>
     handled tr = [demo_msg 2, demo_msg 1]"
  by (simp add: demo_schedule_def exec_defs)

text \<open>
  A message is lost: the sender loads the status and is suspended, the actor is stopped, its loop
  ends, its mailbox is drained, and only then does the sender enqueue; \<^verbatim>\<open>Send\<close> returns true.
\<close>

definition lost_schedule :: "RemoteEnvelope \<Rightarrow> choice list" where
  "lost_schedule env = [AStart, ASend 0 env, AStop 1, AThread 1, AThread 1, AThread 1,
     ALoop, ALoop, ALoop, ACallDrain]"

definition late_schedule :: "choice list" where
  "late_schedule = [ADrain, AThread 0, AThread 0, AThread 0, AThread 0, AThread 0, AThread 0, AThread 0]"

section \<open>Properties\<close>

text \<open>
  C9: The concurrent mailbox refines a sequential loop over a FIFO queue. In every run, with any
  number of goroutines inside \<^verbatim>\<open>Send\<close> and \<^verbatim>\<open>Stop\<close> and nodes recycled through the shared pool, the
  messages handled so far, followed by those drained, are a prefix of the messages in the order in
  which they entered the queue, each exactly once; the emitted results are those of the handler
  applied to the handled messages one after the other; and the loop never meets an empty node.
\<close>

theorem mailbox_refines_fifo:
  assumes "memory_ok a" and "mrun H (boot (New hs a)) tr s"
  shows "(\<exists>rest. map Some (enqueued tr) = map Some (handled tr) @ drained tr @ rest) \<and>
    emitted tr = fst (run_handler H hs (handled tr)) \<and>
    (lp s \<noteq> Exited \<longrightarrow> hstate (act s) = snd (run_handler H hs (handled tr))) \<and> lp s \<noteq> Panicked"
  using run_inv_run [OF assms(2,1)] by (auto simp: run_inv_def fifo_def serial_def)

theorem mailbox_refines_fifo_witness:
  "\<exists>tr s. exec demo_handler demo_schedule (boot (New 0 demo_mem)) = Some (tr, s) \<and>
     handled tr = [demo_msg 2, demo_msg 1] \<and>
     emitted tr = fst (run_handler demo_handler 0 [demo_msg 2, demo_msg 1])"
proof -
  obtain tr s where r: "exec demo_handler demo_schedule (boot (New 0 demo_mem)) = Some (tr, s)"
    "handled tr = [demo_msg 2, demo_msg 1]"
    using demo_run by blast
  from mailbox_refines_fifo [OF demo_memory exec_mrun [OF r(1)]] r show ?thesis by auto
qed

text \<open>
  C11: No wake-up is lost. Whenever no goroutine is inside \<^verbatim>\<open>Send\<close> or \<^verbatim>\<open>Stop\<close> and the loop sleeps
  on an empty wake channel, every message for which \<^verbatim>\<open>Send\<close> returned true has been handled, in
  the order of entry, the backlog counter is back at its initial value up to what other mailboxes
  added, and no stop request is pending.
\<close>

theorem no_lost_wakeup:
  assumes "memory_ok a" and "mrun H (boot (New hs a)) tr s"
    and "\<And>t. thr s t = Idle" and "lp s = Wait" and "\<not> wake (act s)"
  shows "handled tr = enqueued tr \<and> mset (accepted tr) = mset (handled tr) \<and>
    processMailboxPending (act s) = processMailboxPending a + others tr \<and> status (act s) \<noteq> statusStopping"
  using quiet_handled [OF run_inv_run [OF assms(2,1)] assms(3-5)] by simp

theorem no_lost_wakeup_witness:
  "\<exists>tr s. exec demo_handler demo_schedule (boot (New 0 demo_mem)) = Some (tr, s) \<and>
     mset (accepted tr) = {#demo_msg 2, demo_msg 1#} \<and> processMailboxPending (act s) = others tr"
proof -
  obtain tr s where r: "exec demo_handler demo_schedule (boot (New 0 demo_mem)) = Some (tr, s)"
    "\<forall>t. thr s t = Idle" "lp s = Wait" "\<not> wake (act s)" "handled tr = [demo_msg 2, demo_msg 1]"
    using demo_run by blast
  from no_lost_wakeup [OF demo_memory exec_mrun [OF r(1)]] r show ?thesis
    by (auto simp: demo_mem_def)
qed

text \<open>
  C35: The loop catches up. Take any state of a running actor whose context is not cancelled and in
  which no goroutine is inside a call, and let only the loop move, whatever its \<^verbatim>\<open>select\<close> and its
  clock do. It takes at most ten steps for every message that entered the queue and is not handled
  yet, plus twenty; and at every point it either sleeps on an empty wake channel with every message
  that entered the queue handled, in the order of entry, or can take another step.
\<close>

theorem loop_catches_up:
  assumes "memory_ok a" and "mrun H (boot (New hs a)) tr s"
    and "\<And>t. thr s t = Idle" and "status (act s) = statusRunning" and "\<not> ctxDone (act s)"
    and "loop_only H s n tr' s'"
  shows "n \<le> 10 * (length (enqueued tr) - length (handled tr)) + 20 \<and> enqueued tr' = [] \<and>
    (lp s' = Wait \<and> \<not> wake (act s') \<and> handled (tr @ tr') = enqueued tr \<or>
     (\<exists>es s''. loop_only H s (Suc n) (tr' @ es) s''))"
proof -
  have inv: "run_inv H hs (processMailboxPending a) s tr" by (rule run_inv_run [OF assms(2,1)])
  then obtain own q where i: "shape own q s" "fifo q s tr" "serial H hs s tr" by (auto simp: run_inv_def)
  have "loop_ok (act s) (lp s)" and q: "q \<noteq> []" using i(1) by (simp_all add: shape_def ends_def)
  with assms(3,4,5) i(3) have "looping s" by (auto simp: looping_def serial_def)
  from loop_only_inv [OF assms(6) inv this i(1,2)] obtain own' q' where
    r: "fifo q' s' (tr @ tr')" "run_inv H hs (processMailboxPending a) s' (tr @ tr')" "looping s'"
      "n + work q' s' \<le> work q s" "enqueued tr' = []"
    by blast
  have n: "n \<le> 10 * (length (enqueued tr) - length (handled tr)) + 20"
    using r(4) work_bound [OF i(2) q] by linarith
  show ?thesis
  proof (cases "lp s' = Wait \<and> \<not> wake (act s')")
    case True
    then have "handled (tr @ tr') = enqueued (tr @ tr')"
      using quiet_handled(1) [OF r(2)] r(3) by (simp add: looping_def)
    with True n r(5) show ?thesis by simp
  next
    case False
    with loop_enabled [OF r(3,1), of H] obtain pc a es where
      "loop_step H SelectWake 0 (lp s') (act s') = Some (pc, a, es)" by auto
    with loop_more [OF assms(6)] n r(5) show ?thesis by blast
  qed
qed

theorem loop_catches_up_witness:
  "\<exists>tr s. exec demo_handler (take 17 demo_schedule) (boot (New 0 demo_mem)) = Some (tr, s) \<and>
     enqueued tr = [demo_msg 2, demo_msg 1] \<and> handled tr = [] \<and>
     (\<exists>es s''. loop_only demo_handler s 1 es s'')"
proof -
  obtain tr s where r: "exec demo_handler (take 17 demo_schedule) (boot (New 0 demo_mem)) = Some (tr, s)"
    "\<And>t. thr s t = Idle" "status (act s) = statusRunning" "\<not> ctxDone (act s)" "handled tr = []"
    "enqueued tr = [demo_msg 2, demo_msg 1]" "lp s \<noteq> Wait"
    by (simp add: demo_schedule_def exec_defs)
  from loop_catches_up [OF demo_memory exec_mrun [OF r(1)] r(2,3,4) loop_none] r show ?thesis by auto
qed

text \<open>
  The nodes that can be reached from the head: by the links that have been written, and by those
  that a goroutine which has swapped the tail is about to write.
\<close>

definition queue_link :: "'s sys \<Rightarrow> nat \<Rightarrow> nat \<Rightarrow> bool" where
  "queue_link s x y \<longleftrightarrow> nxt s x = Some y \<or> (\<exists>t m. thr s t = EnqLink m x y)"

lemma pairs_successor: "x \<in> set q \<Longrightarrow> x \<noteq> last q \<Longrightarrow> \<exists>y. (x, y) \<in> pairs q"
proof (induction q)
  case (Cons a q)
  then show ?case by (cases q) (auto simp: pairs_Cons)
qed simp

lemma queue_link_closed:
  assumes "shape own q s" and "x \<in> set q" and "queue_link s x y"
  shows "y \<in> set q"
proof (cases "nxt s x = Some y")
  case True
  have e: "ends q s" and l: "links q s" using assms(1) by (auto simp: shape_def)
  with True have "x \<noteq> last q" by (auto simp: ends_def)
  with assms(2) obtain y' where y': "(x, y') \<in> pairs q" using pairs_successor by blast
  from linksD(1) [OF l this] True have "y' = y" by auto
  with pairs_mem [OF y'] show ?thesis by simp
next
  case False
  with assms(1,3) show ?thesis
    by (auto simp: queue_link_def shape_def dest: linksD(2) pairs_mem)
qed

lemma queue_reachable:
  assumes "shape own q s"
  shows "(queue_link s)\<^sup>*\<^sup>* (head (act s)) n \<longleftrightarrow> n \<in> set q"
proof
  have h: "head (act s) \<in> set q" using assms unfolding shape_def ends_def by (metis hd_in_set)
  show "n \<in> set q" if "(queue_link s)\<^sup>*\<^sup>* (head (act s)) n"
    using that by (induction rule: rtranclp_induct) (auto intro: h queue_link_closed [OF assms])
  have l: "links q s" and hd: "hd q = head (act s)" using assms by (auto simp: shape_def ends_def)
  have link: "queue_link s x y" if "(x, y) \<in> pairs q" for x y
    using linksD(1) [OF l that] by (auto simp: queue_link_def)
  have path: "(queue_link s)\<^sup>*\<^sup>* (hd p) n" if "n \<in> set p" "pairs p \<subseteq> pairs q" for p
    using that
  proof (induction p)
    case (Cons x p)
    show ?case
    proof (cases "n = x")
      case False
      with Cons.prems obtain y r where p: "p = y # r" by (cases p) auto
      have "(queue_link s)\<^sup>*\<^sup>* (hd p) n"
        using Cons.IH Cons.prems False p by (simp add: pairs_Cons)
      moreover have "queue_link s x y" using Cons.prems(2) p by (intro link) (simp add: pairs_Cons)
      ultimately show ?thesis using p by (simp add: converse_rtranclp_into_rtranclp)
    qed simp
  qed simp
  show "(queue_link s)\<^sup>*\<^sup>* (head (act s)) n" if "n \<in> set q" using path [of q] that hd by simp
qed

text \<open>
  C36: Recycled nodes are never touched. In every reachable state no node that can be reached from
  the head of the queue, by links written or about to be written, is in the pool, or with another
  mailbox, or the one a goroutine is filling, or the one the loop or \<^verbatim>\<open>Drain\<close> has taken out; the
  tail is such a node, and so are both ends of a link that a goroutine is about to write. No node
  that a goroutine is filling or that was taken out is in the pool or with another mailbox, and
  no two goroutines fill the same node.
\<close>

theorem recycled_nodes_unreachable:
  assumes "memory_ok a" and "mrun H (boot (New hs a)) tr s"
    and "R = {n. (queue_link s)\<^sup>*\<^sup>* (head (act s)) n}"
  shows "R \<inter> (pool (act s) \<union> foreign (act s) \<union> (\<Union>t. held (thr s t)) \<union> retired (lp s) \<union> drain_retired (dr s)) = {} \<and>
    tail (act s) \<in> R \<and> (\<forall>t m p n. thr s t = EnqLink m p n \<longrightarrow> p \<in> R \<and> n \<in> R) \<and>
    (\<forall>t. held (thr s t) \<inter> (pool (act s) \<union> foreign (act s)) = {} \<and>
      (\<forall>t'. t' \<noteq> t \<longrightarrow> held (thr s t) \<inter> held (thr s t') = {})) \<and>
    (retired (lp s) \<union> drain_retired (dr s)) \<inter> (pool (act s) \<union> foreign (act s)) = {}"
proof -
  from run_inv_run [OF assms(2,1)] obtain own q where sh: "shape own q s" by (auto simp: run_inv_def)
  have ow: "owners own q s" and e: "ends q s" and l: "links q s" using sh by (auto simp: shape_def)
  have R: "R = set q" using queue_reachable [OF sh] assms(3) by auto
  note d = own_disjoint [OF ow]
  have 1: "R \<inter> (pool (act s) \<union> foreign (act s) \<union> (\<Union>t. held (thr s t)) \<union> retired (lp s) \<union> drain_retired (dr s)) = {}"
    unfolding R using heap_frame_queue [OF sh] by blast
  have 2: "tail (act s) \<in> R" unfolding R using e unfolding ends_def by (metis last_in_set)
  have 3: "p \<in> R \<and> n \<in> R" if "thr s t = EnqLink m p n" for t m p n
    unfolding R using pairs_mem [OF linksD(2) [OF l that]] .
  have 4: "held (thr s t) \<inter> (pool (act s) \<union> foreign (act s)) = {}" for t
    using d(2) d(3) d(4) [of _ t] by fastforce
  have 5: "held (thr s t) \<inter> held (thr s t') = {}" if "t' \<noteq> t" for t t'
    using d(4) [of _ t] d(4) [of _ t'] that by fastforce
  have 6: "(retired (lp s) \<union> drain_retired (dr s)) \<inter> (pool (act s) \<union> foreign (act s)) = {}"
    using d(2,3,5,6) by fastforce
  show ?thesis by (intro conjI allI impI 1 2 4 5 6) (use 3 in blast)+
qed

theorem recycled_nodes_unreachable_witness:
  "\<exists>tr s. exec demo_handler demo_schedule (boot (New 0 demo_mem)) = Some (tr, s) \<and>
     tail (act s) \<notin> pool (act s) \<and> pool (act s) \<noteq> {}"
proof -
  obtain tr s where r: "exec demo_handler demo_schedule (boot (New 0 demo_mem)) = Some (tr, s)"
    "pool (act s) \<noteq> {}"
    by (simp add: demo_schedule_def exec_defs)
  note u = recycled_nodes_unreachable [OF demo_memory exec_mrun [OF r(1)] refl]
  have "tail (act s) \<notin> pool (act s)" using u by blast
  with r show ?thesis by blast
qed

lemma thr_sum_counted:
  assumes "finite (busy g)"
  shows "thr_sum counted g = of_nat (card {t. \<exists>m n. g t = EnqSwap m n})"
proof -
  let ?C = "{t. \<exists>m n. g t = EnqSwap m n}"
  have "counted (g t) = (if t \<in> ?C then 1 else 0)" for t by (cases "g t") auto
  then have "thr_sum counted g = (\<Sum>t \<in> busy g. if t \<in> ?C then 1 else 0)" by (simp add: thr_sum_def)
  also have "\<dots> = (\<Sum>t \<in> busy g \<inter> ?C. 1)" by (rule sum.inter_restrict [symmetric, OF assms])
  also have "busy g \<inter> ?C = ?C" by auto
  finally show ?thesis by simp
qed

text \<open>
  C37: What the backlog counter that load shedding reads is, in every reachable state, with any
  number of goroutines anywhere inside their calls. The process-wide counter has grown by what
  other mailboxes added, by the messages of this mailbox that entered the queue and were neither
  handled nor drained, by the senders that have counted their message and not swapped the tail
  yet, and by one if \<^verbatim>\<open>Drain\<close> has taken a message it has not counted off yet; less one if the loop has
  counted off the message it is about to handle. So the counter is exact up to the goroutines
  under way; a counter that passes zero wraps as 64-bit words do.
\<close>

theorem pending_counter_exact:
  assumes "memory_ok a" and "mrun H (boot (New hs a)) tr s"
  shows "length (handled tr) + length (drained tr) \<le> length (enqueued tr) \<and>
    finite {t. thr s t \<noteq> Idle} \<and>
    processMailboxPending (act s) = processMailboxPending a + others tr +
      of_nat (length (enqueued tr) - length (handled tr) - length (drained tr)) +
      of_nat (card {t. \<exists>m n. thr s t = EnqSwap m n}) +
      (case dr s of DrainCount _ \<Rightarrow> 1 | _ \<Rightarrow> 0) -
      (case lp s of DeqPut _ _ \<Rightarrow> 1 | Handling _ \<Rightarrow> 1 | _ \<Rightarrow> 0)"
proof -
  from run_inv_run [OF assms(2,1)] obtain own q where f: "fifo q s tr" and sd: "sends s tr"
    and b: "backlog (processMailboxPending a) q s tr" by (auto simp: run_inv_def)
  have fin: "finite (busy (thr s))" using sd by (simp add: sends_def)
  have "length (map Some (enqueued tr)) =
      length (map Some (handled tr) @ drained tr @ in_hand (act s) (lp s) @ map (msg s) (tl q))"
    using f unfolding fifo_def by (metis (no_types))
  then have len: "length (enqueued tr) =
      length (handled tr) + length (drained tr) + length (in_hand (act s) (lp s)) + length (tl q)"
    by simp
  have dr: "drain_counted (dr s) = (case dr s of DrainCount _ \<Rightarrow> 1 | _ \<Rightarrow> 0)" by (cases "dr s") auto
  have lp: "loop_counted (lp s) = of_nat (length (in_hand (act s) (lp s))) -
      (case lp s of DeqPut _ _ \<Rightarrow> 1 | Handling _ \<Rightarrow> 1 | _ \<Rightarrow> 0)" by (cases "lp s") auto
  have rest: "length (enqueued tr) - length (handled tr) - length (drained tr) =
      length (in_hand (act s) (lp s)) + length (tl q)" using len by simp
  have "processMailboxPending (act s) = processMailboxPending a + others tr + of_nat (length (tl q)) +
      of_nat (card {t. \<exists>m n. thr s t = EnqSwap m n}) + loop_counted (lp s) + drain_counted (dr s)"
    using b thr_sum_counted [OF fin] by (simp add: backlog_def)
  then show ?thesis
    unfolding rest dr lp of_nat_add using len fin by (simp add: algebra_simps)
qed

theorem pending_counter_exact_witness:
  "\<exists>tr s. exec demo_handler (take 12 demo_schedule) (boot (New 0 demo_mem)) = Some (tr, s) \<and>
     enqueued tr = [demo_msg 2] \<and> processMailboxPending (act s) = 2"
proof -
  obtain tr s where r: "exec demo_handler (take 12 demo_schedule) (boot (New 0 demo_mem)) = Some (tr, s)"
    "\<forall>t. (\<exists>m n. thr s t = EnqSwap m n) \<longleftrightarrow> t = 0" "dr s = DrainOff" "lp s = Deq" "handled tr = []"
    "drained tr = []" "others tr = 0" "enqueued tr = [demo_msg 2]"
    by (simp add: demo_schedule_def exec_defs)
  have "card {t. \<exists>m n. thr s t = EnqSwap m n} = 1" using r(2) by simp
  with pending_counter_exact [OF demo_memory exec_mrun [OF r(1)]] r(1,3-8) show ?thesis
    by (auto simp: demo_mem_def)
qed

text \<open>
  An accepted message can be lost at shutdown. For every handler, memory and message there is a
  run in which the actor dies, its mailbox is drained afterwards, \<^verbatim>\<open>Send\<close> returns true, and the
  message is neither handled nor drained; the backlog counter stays one too high for good.
\<close>

theorem accepted_message_lost:
  "\<exists>tr1 s1 tr2 s. mrun H (boot (New hs a)) tr1 s1 \<and> lp s1 = Exited \<and> dr s1 = DrainTop \<and>
     mrun H s1 tr2 s \<and> dr s = DrainOff \<and> (\<forall>t. thr s t = Idle) \<and>
     accepted (tr1 @ tr2) = [env] \<and> handled (tr1 @ tr2) = [] \<and> drained (tr1 @ tr2) = [] \<and>
     processMailboxPending (act s) = processMailboxPending a + 1"
proof -
  obtain tr1 s1 tr2 s where
    "exec H (lost_schedule env) (boot (New hs a)) = Some (tr1, s1)" "lp s1 = Exited" "dr s1 = DrainTop"
    "exec H late_schedule s1 = Some (tr2, s)" "dr s = DrainOff" "\<forall>t. thr s t = Idle"
    "accepted (tr1 @ tr2) = [env]" "handled (tr1 @ tr2) = []" "drained (tr1 @ tr2) = []"
    "processMailboxPending (act s) = processMailboxPending a + 1"
    by (simp add: lost_schedule_def late_schedule_def exec_defs)
  then show ?thesis using exec_mrun by metis
qed

end
