(* ===== verification/NodeRuntime.thy ===== *)
theory NodeRuntime
  imports Wallet Mailbox
begin

text \<open>
  \<^verbatim>\<open>internal/node/node.go\<close>: the sharded table of actors, \<^verbatim>\<open>HandleBatch\<close>, the eviction of an
  actor the node no longer owns, passivation, shutdown and the aggregation of results. Every
  critical section, atomic operation and channel operation of the source is one step; any number of
  streams, actors and background goroutines interleave. An actor's mailbox is the FIFO list that
  \<^verbatim>\<open>MailboxTrace\<close> shows it to be; the status check and the enqueue of \<^verbatim>\<open>Send\<close> stay separate
  steps. A stream is a number, which also names the \<^verbatim>\<open>BatchSender\<close> it passes to \<^verbatim>\<open>HandleBatch\<close>.
\<close>

section \<open>Keys and shards\<close>

type_synonym RouteKey = "int32 \<times> int64 \<times> uint64"

definition envKey :: "RemoteEnvelope \<Rightarrow> RouteKey" where
  "envKey env = (env_TenantId env, env_Uid env, env_RequestId env)"

definition resultRouteKey :: "RemoteResult \<Rightarrow> RouteKey" where
  "resultRouteKey r = (res_TenantId r, res_Uid r, res_RequestId r)"

definition ActorKey :: "RemoteEnvelope \<Rightarrow> wkey" where
  "ActorKey env = (env_TenantId env, env_Uid env)"

text \<open>The conversion to \<^verbatim>\<open>uint64\<close> extends the sign of the 32-bit value.\<close>

definition shardIndex :: "wkey \<Rightarrow> nat" where
  "shardIndex k = unat ((scast (fst k XOR (ucast (snd k) :: int32)) :: uint64) mod 256)"

type_synonym queuedResult = "RemoteResult option \<times> nat option"

definition defaultMailboxLimit :: uint64 where "defaultMailboxLimit = 1500000"

definition resultChCap :: nat where "resultChCap = 10000"

section \<open>State\<close>

text \<open>
  An actor in memory: its wallet state, its mailbox, the status of its loop, and a result that its
  goroutine is emitting (before and after the reply route has been taken).
\<close>

datatype outbox = OutNone | OutResult RemoteResult | OutSend RemoteResult nat

record Obj =
  ob_b :: BusinessActor
  ob_mail :: "RemoteEnvelope list"
  ob_status :: actor_status
  ob_out :: outbox

text \<open>Program points of \<^verbatim>\<open>HandleBatch\<close> with the envelopes still to do.\<close>

datatype hb_pc =
    HIdle
  | HStart "RemoteEnvelope option list"
  | HOver "RemoteEnvelope option list"
  | HNext "RemoteEnvelope option list"
  | HKill nat RemoteEnvelope "RemoteEnvelope option list"
  | HReply RemoteResult "RemoteEnvelope option list"
  | HLookup RemoteEnvelope "RemoteEnvelope option list"
  | HCreate RemoteEnvelope "RemoteEnvelope option list"
  | HRoute nat RemoteEnvelope "RemoteEnvelope option list"
  | HCheck nat RemoteEnvelope "RemoteEnvelope option list"
  | HEnq nat RemoteEnvelope "RemoteEnvelope option list"
  | HUndo nat RemoteEnvelope "RemoteEnvelope option list"
  | HForget nat RemoteEnvelope "RemoteEnvelope option list"
  | HPanic "RemoteEnvelope option list"

text \<open>The goroutine of \<^verbatim>\<open>forceKillLocalActor\<close>, and the phases of \<^verbatim>\<open>Stop\<close>.\<close>

datatype drain_task = DNone | DWait nat | DEmit "RemoteEnvelope list" | DSend RemoteResult nat "RemoteEnvelope list"

datatype stop_pc = NRunning | NStopShard nat "nat set" | NStopWait "nat set" | NStopped

record 'st Node =
  n_shards :: "nat \<Rightarrow> wkey \<rightharpoonup> nat"
  n_objs :: "nat \<Rightarrow> Obj"
  n_nobj :: nat
  n_routes :: "RouteKey \<rightharpoonup> nat"
  n_resultCh :: "queuedResult list"
  n_store :: 'st
  n_snaps :: "Statement list"
  n_resolver :: "(int32 \<Rightarrow> int64 \<Rightarrow> string option) option"
  n_streams :: "nat \<Rightarrow> hb_pc"
  n_drains :: "nat \<Rightarrow> drain_task"
  n_ndrain :: nat
  n_batch :: "queuedResult list"
  n_sent :: "nat \<Rightarrow> RemoteResult list list"
  n_done :: bool
  n_aggRunning :: bool
  n_stop :: stop_pc

record 'st NodeConfig =
  nc_store :: "'st Store"
  nc_myIP :: string
  nc_mailboxLimit :: uint64

definition noObj :: Obj where
  "noObj = \<lparr>ob_b = newBusinessActor 0 0 0, ob_mail = [], ob_status = statusDead, ob_out = OutNone\<rparr>"

definition NewNode :: "'st Store \<Rightarrow> (int32 \<Rightarrow> int64 \<Rightarrow> string option) option \<Rightarrow> string \<Rightarrow> uint64 \<Rightarrow> 'st
    \<Rightarrow> 'st NodeConfig \<times> 'st Node" where
  "NewNode store resolver myIP limit st =
     (\<lparr>nc_store = store, nc_myIP = myIP,
       nc_mailboxLimit = (if limit = 0 then defaultMailboxLimit else limit)\<rparr>,
      \<lparr>n_shards = (\<lambda>_ _. None), n_objs = (\<lambda>_. noObj), n_nobj = 0, n_routes = (\<lambda>_. None),
       n_resultCh = [], n_store = st, n_snaps = [], n_resolver = resolver,
       n_streams = (\<lambda>_. HIdle), n_drains = (\<lambda>_. DNone), n_ndrain = 0, n_batch = [],
       n_sent = (\<lambda>_. []), n_done = False, n_aggRunning = True, n_stop = NRunning\<rparr>)"

text \<open>\<^verbatim>\<open>actor.ProcessMailboxPending\<close>: the messages in all mailboxes of the process.\<close>

definition mailboxPending :: "'st Node \<Rightarrow> uint64" where
  "mailboxPending n = of_nat (\<Sum>aid < n_nobj n. length (ob_mail (n_objs n aid)))"

section \<open>Operations\<close>

text \<open>What the outside sees of a step.\<close>

datatype nevent =
    Submitted nat "RemoteEnvelope option list"
  | Queued nat RemoteResult
  | Dropped RouteKey

text \<open>A send on the result channel blocks while it is full: \<^term>\<open>None\<close>.\<close>

definition enqueueResult :: "nat option \<Rightarrow> RemoteResult option \<Rightarrow> 'st Node \<Rightarrow> ('st Node \<times> nevent list) option" where
  "enqueueResult reply res n = (case (reply, res) of
     (Some s, Some r) \<Rightarrow>
       if length (n_resultCh n) < resultChCap
       then Some (n\<lparr>n_resultCh := n_resultCh n @ [(res, reply)]\<rparr>, [Queued s r]) else None
   | _ \<Rightarrow> Some (n, []))"

text \<open>\<^verbatim>\<open>sync.Map.LoadAndDelete\<close> on the reply routes.\<close>

definition takeRoute :: "RouteKey \<Rightarrow> 'st Node \<Rightarrow> nat option \<times> 'st Node" where
  "takeRoute rk n = (n_routes n rk, n\<lparr>n_routes := (n_routes n)(rk := None)\<rparr>)"

text \<open>The first step of \<^verbatim>\<open>Emit\<close>; the send on the channel is the next step of the actor's goroutine.\<close>

definition Emit :: "RemoteResult \<Rightarrow> 'st Node \<Rightarrow> outbox \<times> 'st Node \<times> nevent list" where
  "Emit r n = (case takeRoute (resultRouteKey r) n of
     (None, n') \<Rightarrow> (OutNone, n', [Dropped (resultRouteKey r)])
   | (Some reply, n') \<Rightarrow> (OutSend r reply, n', []))"

text \<open>\<^verbatim>\<open>core.Stop()\<close>: its status change; the wake-up is part of the mailbox.\<close>

definition stopStatus :: "actor_status \<Rightarrow> actor_status" where
  "stopStatus st = (if st = statusStopping \<or> st = statusDead then st else statusStopping)"

definition stopObj :: "nat \<Rightarrow> 'st Node \<Rightarrow> 'st Node" where
  "stopObj aid n = n\<lparr>n_objs := (n_objs n)(aid := (n_objs n aid)\<lparr>ob_status := stopStatus (ob_status (n_objs n aid))\<rparr>)\<rparr>"

definition deleteActor :: "wkey \<Rightarrow> 'st Node \<Rightarrow> 'st Node" where
  "deleteActor key n = n\<lparr>n_shards := (n_shards n)(shardIndex key := (n_shards n (shardIndex key))(key := None))\<rparr>"

definition overloadResult :: "RemoteEnvelope \<Rightarrow> RemoteResult" where
  "overloadResult env = errorResult env ErrNodeOverloaded ''node mailbox backlog limit reached, please retry''"

definition badRequest :: "RemoteEnvelope \<Rightarrow> bool" where
  "badRequest env \<longleftrightarrow> env_TenantId env = 0 \<or> env_Uid env = 0 \<or> env_TxId env = '''' \<or> env_RequestId env = 0"

definition badRequestResult :: "RemoteEnvelope \<Rightarrow> RemoteResult" where
  "badRequestResult env = errorResult env ErrBadRequest ''missing tenant_id, uid, tx_id, or request_id''"

definition wrongNodeResult :: "RemoteEnvelope \<Rightarrow> RemoteResult" where
  "wrongNodeResult env = errorResult env ErrWrongNode ''routing table indicates this node is not the owner''"

definition evictedResult :: "RemoteEnvelope \<Rightarrow> RemoteResult" where
  "evictedResult env = errorResult env ErrWrongNode ''actor evicted due to ownership change, please retry''"

text \<open>This literal has no \<^verbatim>\<open>OpCode\<close>.\<close>

definition rehydrationResult :: "RemoteEnvelope \<Rightarrow> string \<Rightarrow> RemoteResult" where
  "rehydrationResult env err = (errorResult env ErrRehydrationFailed err)\<lparr>res_OpCode := 0\<rparr>"

definition isOwner :: "'st NodeConfig \<Rightarrow> 'st Node \<Rightarrow> RemoteEnvelope \<Rightarrow> bool" where
  "isOwner c n env = (case n_resolver n of None \<Rightarrow> True
     | Some getNodeIP \<Rightarrow> getNodeIP (env_TenantId env) (env_Uid env) = Some (nc_myIP c))"

text \<open>\<^verbatim>\<open>forceKillLocalActor\<close>, first step: the lookup and delete under the shard's lock.\<close>

definition forceKillLocalActor :: "RemoteEnvelope \<Rightarrow> 'st Node \<Rightarrow> nat option \<times> 'st Node" where
  "forceKillLocalActor env n = (case n_shards n (shardIndex (ActorKey env)) (ActorKey env) of
     None \<Rightarrow> (None, n) | Some aid \<Rightarrow> (Some aid, deleteActor (ActorKey env) n))"

text \<open>Its second and third step: stop outside the lock, and start the draining goroutine.\<close>

definition killAndDrain :: "nat \<Rightarrow> 'st Node \<Rightarrow> 'st Node" where
  "killAndDrain aid n = (stopObj aid n)\<lparr>n_drains := (n_drains n)(n_ndrain n := DWait aid),
     n_ndrain := Suc (n_ndrain n)\<rparr>"

text \<open>
  The section under the write lock: look again, create the actor, rehydrate it, publish and start it.
\<close>

definition createActor :: "'st NodeConfig \<Rightarrow> int64 \<Rightarrow> RemoteEnvelope \<Rightarrow> 'st Node \<Rightarrow> string + (nat \<times> 'st Node)" where
  "createActor c now env n = (let key = ActorKey env; i = shardIndex key in
     case n_shards n i key of Some aid \<Rightarrow> Inr (aid, n)
   | None \<Rightarrow> (case rehydrate (nc_store c) (n_store n) (newBusinessActor (fst key) (snd key) now) of
       (_, Some err) \<Rightarrow> Inl err
     | (b, None) \<Rightarrow>
         Inr (n_nobj n, n\<lparr>n_objs := (n_objs n)(n_nobj n := \<lparr>ob_b = b, ob_mail = [], ob_status = statusRunning, ob_out = OutNone\<rparr>),
           n_nobj := Suc (n_nobj n),
           n_shards := (n_shards n)(i := (n_shards n i)(key \<mapsto> n_nobj n))\<rparr>)))"

definition enqueueMail :: "nat \<Rightarrow> RemoteEnvelope \<Rightarrow> 'st Node \<Rightarrow> 'st Node" where
  "enqueueMail aid env n = n\<lparr>n_objs := (n_objs n)(aid := (n_objs n aid)\<lparr>ob_mail := ob_mail (n_objs n aid) @ [env]\<rparr>)\<rparr>"

text \<open>One step of \<^verbatim>\<open>HandleBatch\<close> on stream \<^term>\<open>sid\<close>; \<^term>\<open>None\<close> when it is idle, blocked or has panicked.\<close>

fun hb_step :: "'st NodeConfig \<Rightarrow> int64 \<Rightarrow> nat \<Rightarrow> hb_pc \<Rightarrow> 'st Node \<Rightarrow> (hb_pc \<times> 'st Node \<times> nevent list) option" where
  "hb_step c now sid (HStart es) n =
     Some (if nc_mailboxLimit c \<le> mailboxPending n then HOver es else HNext es, n, [])"
| "hb_step c now sid (HOver []) n = Some (HIdle, n, [])"
| "hb_step c now sid (HOver (None # es)) n = Some (HOver es, n, [])"
| "hb_step c now sid (HOver (Some env # es)) n = (case enqueueResult (Some sid) (Some (overloadResult env)) n of
     None \<Rightarrow> None | Some (n', evs) \<Rightarrow> Some (HOver es, n', evs))"
| "hb_step c now sid (HNext []) n = Some (HIdle, n, [])"
| "hb_step c now sid (HNext (None # es)) n = Some (HPanic es, n, [])"
| "hb_step c now sid (HNext (Some env # es)) n =
     (if badRequest env then Some (HReply (badRequestResult env) es, n, [])
      else if \<not> isOwner c n env then
        (case forceKillLocalActor env n of
           (None, n') \<Rightarrow> Some (HReply (wrongNodeResult env) es, n', [])
         | (Some aid, n') \<Rightarrow> Some (HKill aid env es, n', []))
      else Some (HLookup env es, n, []))"
| "hb_step c now sid (HKill aid env es) n = Some (HReply (wrongNodeResult env) es, killAndDrain aid n, [])"
| "hb_step c now sid (HReply r es) n = (case enqueueResult (Some sid) (Some r) n of
     None \<Rightarrow> None | Some (n', evs) \<Rightarrow> Some (HNext es, n', evs))"
| "hb_step c now sid (HLookup env es) n =
     (case n_shards n (shardIndex (ActorKey env)) (ActorKey env) of
        Some aid \<Rightarrow> Some (HRoute aid env es, n, [])
      | None \<Rightarrow> Some (HCreate env es, n, []))"
| "hb_step c now sid (HCreate env es) n = (case createActor c now env n of
     Inl err \<Rightarrow> Some (HReply (rehydrationResult env err) es, n, [])
   | Inr (aid, n') \<Rightarrow> Some (HRoute aid env es, n', []))"
| "hb_step c now sid (HRoute aid env es) n =
     Some (HCheck aid env es, n\<lparr>n_routes := (n_routes n)(envKey env \<mapsto> sid)\<rparr>, [])"
| "hb_step c now sid (HCheck aid env es) n =
     Some (if ob_status (n_objs n aid) = statusStopping \<or> ob_status (n_objs n aid) = statusDead
           then HUndo aid env es else HEnq aid env es, n, [])"
| "hb_step c now sid (HEnq aid env es) n = Some (HNext es, enqueueMail aid env n, [])"
| "hb_step c now sid (HUndo aid env es) n =
     Some (HForget aid env es, n\<lparr>n_routes := (n_routes n)(envKey env := None)\<rparr>, [])"
| "hb_step c now sid (HForget aid env es) n =
     Some (HLookup env es,
           if n_shards n (shardIndex (ActorKey env)) (ActorKey env) = Some aid
           then deleteActor (ActorKey env) n else n, [])"
| "hb_step c now sid _ n = None"

text \<open>
  One step of an actor's goroutine: handle the next message, take the reply route of the result,
  send it, or end after a stop once the mailbox is empty.
\<close>

definition setObj :: "nat \<Rightarrow> Obj \<Rightarrow> 'st Node \<Rightarrow> 'st Node" where
  "setObj aid ob n = n\<lparr>n_objs := (n_objs n)(aid := ob)\<rparr>"

definition obj_step :: "'st NodeConfig \<Rightarrow> int64 \<Rightarrow> nat \<Rightarrow> 'st Node \<Rightarrow> ('st Node \<times> nevent list) option" where
  "obj_step c now aid n = (let ob = n_objs n aid in
     if ob_status ob \<noteq> statusRunning \<and> ob_status ob \<noteq> statusStopping then None
     else case ob_out ob of
       OutResult r \<Rightarrow> (case Emit r n of (out, n', evs) \<Rightarrow> Some (setObj aid (ob\<lparr>ob_out := out\<rparr>) n', evs))
     | OutSend r reply \<Rightarrow> (case enqueueResult (Some reply) (Some r) n of
         None \<Rightarrow> None | Some (n', evs) \<Rightarrow> Some (setObj aid (ob\<lparr>ob_out := OutNone\<rparr>) n', evs))
     | OutNone \<Rightarrow> (case ob_mail ob of
         env # rest \<Rightarrow> (case Handle (nc_store c) (n_store n) (ob_b ob) now env of (r, b', st', sp) \<Rightarrow>
           Some (setObj aid (ob\<lparr>ob_b := b', ob_mail := rest, ob_out := OutResult (completeResult r env)\<rparr>)
                   (n\<lparr>n_store := st', n_snaps := n_snaps n @ sp\<rparr>), []))
       | [] \<Rightarrow> if ob_status ob = statusStopping
               then Some (setObj aid (ob\<lparr>ob_status := statusDead\<rparr>) n, []) else None))"

text \<open>The draining goroutine of \<^verbatim>\<open>forceKillLocalActor\<close>.\<close>

fun drain_task_step :: "drain_task \<Rightarrow> 'st Node \<Rightarrow> (drain_task \<times> 'st Node \<times> nevent list) option" where
  "drain_task_step DNone n = None"
| "drain_task_step (DWait aid) n = (if ob_status (n_objs n aid) = statusDead
     then Some (DEmit (ob_mail (n_objs n aid)), setObj aid ((n_objs n aid)\<lparr>ob_mail := []\<rparr>) n, []) else None)"
| "drain_task_step (DEmit []) n = Some (DNone, n, [])"
| "drain_task_step (DEmit (env # es)) n = (case takeRoute (envKey env) n of
     (None, n') \<Rightarrow> Some (DEmit es, n', [Dropped (envKey env)])
   | (Some reply, n') \<Rightarrow> Some (DSend (evictedResult env) reply es, n', []))"
| "drain_task_step (DSend r reply es) n = (case enqueueResult (Some reply) (Some r) n of
     None \<Rightarrow> None | Some (n', evs) \<Rightarrow> Some (DEmit es, n', evs))"

text \<open>
  Passivation of one shard, under its lock: stop and delete the actors that have been idle for more
  than 24 hours (in nanoseconds, with the signed 64-bit subtraction of the source).
\<close>

definition idleThreshold :: int64 where "idleThreshold = 86400000000000"

definition idle :: "int64 \<Rightarrow> Obj \<Rightarrow> bool" where
  "idle now ob \<longleftrightarrow> idleThreshold <s now - ba_lastActive (ob_b ob)"

definition stopAll :: "nat set \<Rightarrow> (nat \<Rightarrow> Obj) \<Rightarrow> nat \<Rightarrow> Obj" where
  "stopAll A objs aid = (if aid \<in> A then (objs aid)\<lparr>ob_status := stopStatus (ob_status (objs aid))\<rparr> else objs aid)"

definition passivateShard :: "int64 \<Rightarrow> nat \<Rightarrow> 'st Node \<Rightarrow> 'st Node" where
  "passivateShard now i n = n\<lparr>
     n_objs := stopAll {aid \<in> ran (n_shards n i). idle now (n_objs n aid)} (n_objs n),
     n_shards := (n_shards n)(i := (\<lambda>key. case n_shards n i key of None \<Rightarrow> None
       | Some aid \<Rightarrow> if idle now (n_objs n aid) then None else Some aid))\<rparr>"

text \<open>\<^verbatim>\<open>Stop\<close>: shard by shard, then wait for every stopped actor to die, then close \<^verbatim>\<open>done\<close>.\<close>

fun stop_step :: "stop_pc \<Rightarrow> 'st Node \<Rightarrow> (stop_pc \<times> 'st Node) option" where
  "stop_step NRunning n = Some (NStopShard 0 {}, n)"
| "stop_step (NStopShard i stopping) n = (if i < 256
     then Some (NStopShard (Suc i) (stopping \<union> ran (n_shards n i)),
       n\<lparr>n_objs := stopAll (ran (n_shards n i)) (n_objs n), n_shards := (n_shards n)(i := (\<lambda>_. None))\<rparr>)
     else Some (NStopWait stopping, n))"
| "stop_step (NStopWait stopping) n = (if \<forall>aid \<in> stopping. ob_status (n_objs n aid) = statusDead
     then Some (NStopped, n\<lparr>n_done := True\<rparr>) else None)"
| "stop_step NStopped n = None"

text \<open>The aggregator: \<^verbatim>\<open>flush\<close> groups the batch by stream and sends each group in slices.\<close>

definition maxBatchSize :: nat where "maxBatchSize = 1000"

function slices :: "'a list \<Rightarrow> nat \<Rightarrow> 'a list list" where
  "slices ress start = (if start < length ress
     then (let end = (if start + maxBatchSize > length ress then length ress else start + maxBatchSize)
           in take (end - start) (drop start ress) # slices ress (start + maxBatchSize))
     else [])"
  by pat_completeness auto

termination slices
  by (relation "measure (\<lambda>(ress, start). length ress - start)") (auto simp: maxBatchSize_def)

declare slices.simps [simp del]

definition group :: "nat \<Rightarrow> queuedResult list \<Rightarrow> RemoteResult list" where
  "group s batch = concat (map (\<lambda>q. case q of (Some r, Some s') \<Rightarrow> if s' = s then [r] else [] | _ \<Rightarrow> []) batch)"

definition flush :: "'st Node \<Rightarrow> 'st Node" where
  "flush n = (if n_batch n = [] then n
     else n\<lparr>n_batch := [], n_sent := (\<lambda>s. n_sent n s @ slices (group s (n_batch n)) 0)\<rparr>)"

datatype agg_input = AggDone | AggResult | AggTick

definition agg_step :: "agg_input \<Rightarrow> 'st Node \<Rightarrow> 'st Node option" where
  "agg_step i n = (if \<not> n_aggRunning n then None else case i of
     AggDone \<Rightarrow> if n_done n then Some ((flush n)\<lparr>n_aggRunning := False\<rparr>) else None
   | AggResult \<Rightarrow> (case n_resultCh n of [] \<Rightarrow> None
       | q # rest \<Rightarrow> let n1 = n\<lparr>n_resultCh := rest, n_batch := n_batch n @ [q]\<rparr>
           in Some (if length (n_batch n1) \<ge> maxBatchSize then flush n1 else n1))
   | AggTick \<Rightarrow> Some (flush n))"

section \<open>The system\<close>

text \<open>
  A step of the node process. A stream calls \<^verbatim>\<open>HandleBatch\<close> again only after the previous call
  has returned, as the server's receive loop does. The routing table may change at any time, and
  snapshot goroutines run whenever they are scheduled.
\<close>

inductive nstep :: "'st NodeConfig \<Rightarrow> 'st Node \<Rightarrow> nevent list \<Rightarrow> 'st Node \<Rightarrow> bool" for c where
  s_call: "n_streams n sid = HIdle \<Longrightarrow>
     nstep c n [Submitted sid es] (n\<lparr>n_streams := (n_streams n)(sid := HStart es)\<rparr>)"
| s_hb: "hb_step c now sid (n_streams n sid) n = Some (pc, n', evs) \<Longrightarrow>
     nstep c n evs (n'\<lparr>n_streams := (n_streams n')(sid := pc)\<rparr>)"
| s_obj: "obj_step c now aid n = Some (n', evs) \<Longrightarrow> nstep c n evs n'"
| s_drain: "drain_task_step (n_drains n d) n = Some (task, n', evs) \<Longrightarrow>
     nstep c n evs (n'\<lparr>n_drains := (n_drains n')(d := task)\<rparr>)"
| s_passivate: "\<not> n_done n \<Longrightarrow> i < 256 \<Longrightarrow> nstep c n [] (passivateShard now i n)"
| s_stop: "stop_step (n_stop n) n = Some (pc, n') \<Longrightarrow> nstep c n [] (n'\<lparr>n_stop := pc\<rparr>)"
| s_agg: "agg_step i n = Some n' \<Longrightarrow> nstep c n [] n'"
| s_snapshot: "stmt \<in> set (n_snaps n) \<Longrightarrow>
     nstep c n [] (n\<lparr>n_store := runSnapshot (nc_store c) (n_store n) stmt, n_snaps := remove1 stmt (n_snaps n)\<rparr>)"
| s_topology: "nstep c n [] (n\<lparr>n_resolver := (case n_resolver n of None \<Rightarrow> None | Some _ \<Rightarrow> Some f)\<rparr>)"

inductive nrun :: "'st NodeConfig \<Rightarrow> 'st Node \<Rightarrow> nevent list \<Rightarrow> 'st Node \<Rightarrow> bool" for c where
  nrun_refl: "nrun c n [] n"
| nrun_step: "nrun c n tr n' \<Longrightarrow> nstep c n' evs n'' \<Longrightarrow> nrun c n (tr @ evs) n''"

section \<open>Slices and shards\<close>

lemma concat_slices: "concat (slices xs start) = drop start xs"
proof (induction xs start rule: slices.induct)
  case (1 ress start)
  show ?case
  proof (cases "start < length ress")
    case True
    have "drop start ress = take maxBatchSize (drop start ress) @ drop (start + maxBatchSize) ress"
      by (metis append_take_drop_id drop_drop add.commute)
    moreover have "take ((if start + maxBatchSize > length ress then length ress else start + maxBatchSize) - start)
        (drop start ress) = take maxBatchSize (drop start ress)"
      by simp
    ultimately show ?thesis using True 1 [OF True refl] by (simp add: slices.simps [of ress start] Let_def)
  qed (simp add: slices.simps [of ress start])
qed

lemma slices_bound: "b \<in> set (slices xs start) \<Longrightarrow> 0 < length b \<and> length b \<le> maxBatchSize"
proof (induction xs start rule: slices.induct)
  case (1 ress start)
  show ?case
  proof (cases "start < length ress")
    case True
    with 1(2) have "b = take ((if start + maxBatchSize > length ress then length ress else start + maxBatchSize) - start)
        (drop start ress) \<or> b \<in> set (slices ress (start + maxBatchSize))"
      by (subst (asm) slices.simps) (auto simp: Let_def)
    then show ?thesis
    proof
      assume "b \<in> set (slices ress (start + maxBatchSize))"
      then show ?thesis by (rule 1(1) [OF True refl])
    qed (use True in \<open>simp add: maxBatchSize_def; arith\<close>)
  qed (use 1 in \<open>simp add: slices.simps [of ress start]\<close>)
qed

lemma slices_Nil [simp]: "slices [] start = []"
  by (simp add: slices.simps)

lemma group_append [simp]: "group s (xs @ ys) = group s xs @ group s ys"
  by (simp add: group_def)

lemma group_simps [simp]:
  "group s [] = []" "group s ((Some r, Some s') # xs) = (if s' = s then [r] else []) @ group s xs"
  by (simp_all add: group_def)

lemma shardIndex_bound: "shardIndex k < 256"
  by (simp add: shardIndex_def unat_mod)

end
