(* ===== verification/NodeTrace.thy ===== *)
theory NodeTrace
  imports NodeRuntime
begin

text \<open>
  Runs of the node (\<^verbatim>\<open>internal/node/node.go\<close>): where an actor's messages come from, that every
  request is answered at most once and on the stream that submitted it, and that with unique
  request identifiers no result is dropped.
\<close>

section \<open>Actors are in the right place\<close>

definition okey :: "Obj \<Rightarrow> wkey" where
  "okey ob = (ba_tenantID (ob_b ob), ba_uid (ob_b ob))"

fun pc_ok :: "nat \<Rightarrow> (nat \<Rightarrow> Obj) \<Rightarrow> hb_pc \<Rightarrow> bool" where
  "pc_ok m objs (HRoute aid env es) \<longleftrightarrow> aid < m \<and> okey (objs aid) = ActorKey env"
| "pc_ok m objs (HCheck aid env es) \<longleftrightarrow> aid < m \<and> okey (objs aid) = ActorKey env"
| "pc_ok m objs (HEnq aid env es) \<longleftrightarrow> aid < m \<and> okey (objs aid) = ActorKey env"
| "pc_ok m objs (HUndo aid env es) \<longleftrightarrow> aid < m \<and> okey (objs aid) = ActorKey env"
| "pc_ok m objs (HForget aid env es) \<longleftrightarrow> aid < m \<and> okey (objs aid) = ActorKey env"
| "pc_ok m objs (HKill aid env es) \<longleftrightarrow> aid < m"
| "pc_ok m objs _ \<longleftrightarrow> True"

definition placed :: "'st Node \<Rightarrow> bool" where
  "placed n \<longleftrightarrow>
     (\<forall>i k aid. n_shards n i k = Some aid \<longrightarrow> i = shardIndex k \<and> aid < n_nobj n \<and> okey (n_objs n aid) = k) \<and>
     (\<forall>aid. \<forall>env \<in> set (ob_mail (n_objs n aid)). ActorKey env = okey (n_objs n aid)) \<and>
     (\<forall>aid \<ge> n_nobj n. n_objs n aid = noObj) \<and>
     (\<forall>sid. pc_ok (n_nobj n) (n_objs n) (n_streams n sid)) \<and>
     (\<forall>d aid. n_drains n d = DWait aid \<longrightarrow> aid < n_nobj n)"

lemma placedD:
  assumes "placed n"
  shows "n_shards n i k = Some aid \<Longrightarrow> i = shardIndex k" "n_shards n i k = Some aid \<Longrightarrow> aid < n_nobj n"
    "n_shards n i k = Some aid \<Longrightarrow> okey (n_objs n aid) = k"
    "env \<in> set (ob_mail (n_objs n aid)) \<Longrightarrow> ActorKey env = okey (n_objs n aid)"
    "n_nobj n \<le> aid \<Longrightarrow> n_objs n aid = noObj"
    "pc_ok (n_nobj n) (n_objs n) (n_streams n sid)"
    "n_drains n d = DWait aid \<Longrightarrow> aid < n_nobj n"
  using assms unfolding placed_def by blast+

lemma placedI:
  assumes "\<And>i k aid. n_shards n i k = Some aid \<Longrightarrow> i = shardIndex k \<and> aid < n_nobj n \<and> okey (n_objs n aid) = k"
    and "\<And>aid env. env \<in> set (ob_mail (n_objs n aid)) \<Longrightarrow> ActorKey env = okey (n_objs n aid)"
    and "\<And>aid. n_nobj n \<le> aid \<Longrightarrow> n_objs n aid = noObj"
    and "\<And>sid. pc_ok (n_nobj n) (n_objs n) (n_streams n sid)"
    and "\<And>d aid. n_drains n d = DWait aid \<Longrightarrow> aid < n_nobj n"
  shows "placed n"
  using assms unfolding placed_def by blast

text \<open>Rehydration and the handler keep the identity of an actor.\<close>

lemma scanEvents_key:
  "scanEvents rows (b, bal, v) = ((b', bal', v'), e) \<Longrightarrow>
     ba_tenantID b' = ba_tenantID b \<and> ba_uid b' = ba_uid b"
  by (induction rows "(b, bal, v)" arbitrary: b bal v rule: scanEvents.induct) (auto split: if_splits)

lemma rehydrate_key:
  assumes "rehydrate S st b = (b', e)"
  shows "ba_tenantID b' = ba_tenantID b \<and> ba_uid b' = ba_uid b"
proof -
  have "\<And>rows bal v b1 bal1 v1 e1. scanEvents rows (b, bal, v) = ((b1, bal1, v1), e1) \<Longrightarrow>
      ba_tenantID b1 = ba_tenantID b \<and> ba_uid b1 = ba_uid b"
    by (rule scanEvents_key)
  then show ?thesis using assms
    by (auto simp: rehydrate_def StoreQuery_def split: prod.splits option.splits)
qed

lemma okey_simps [simp]:
  "okey (ob\<lparr>ob_mail := m\<rparr>) = okey ob" "okey (ob\<lparr>ob_status := st\<rparr>) = okey ob"
  "okey (ob\<lparr>ob_out := o1\<rparr>) = okey ob"
  by (simp_all add: okey_def)

lemma pc_ok_frame:
  "pc_ok m objs pc \<Longrightarrow> m \<le> m' \<Longrightarrow> (\<And>aid. aid < m \<Longrightarrow> okey (objs' aid) = okey (objs aid)) \<Longrightarrow> pc_ok m' objs' pc"
  by (cases pc) auto

text \<open>
  A step that keeps every actor's identity and adds no message to a mailbox other than one of its
  own key.
\<close>

lemma placed_frame:
  assumes "placed n" and "n_nobj n' = n_nobj n"
    and "\<And>i k aid. n_shards n' i k = Some aid \<Longrightarrow> n_shards n i k = Some aid"
    and "\<And>aid. okey (n_objs n' aid) = okey (n_objs n aid)"
    and "\<And>aid. set (ob_mail (n_objs n' aid)) \<subseteq> set (ob_mail (n_objs n aid))"
    and "\<And>aid. n_nobj n \<le> aid \<Longrightarrow> n_objs n' aid = noObj"
    and "\<And>sid. pc_ok (n_nobj n) (n_objs n) (n_streams n' sid)"
    and "\<And>d aid. n_drains n' d = DWait aid \<Longrightarrow> aid < n_nobj n"
  shows "placed n'"
proof (rule placedI)
  show "i = shardIndex k \<and> aid < n_nobj n' \<and> okey (n_objs n' aid) = k" if "n_shards n' i k = Some aid" for i k aid
    using placedD(1,2,3) [OF assms(1) assms(3) [OF that]] by (simp add: assms(2,4))
  show "ActorKey env = okey (n_objs n' aid)" if "env \<in> set (ob_mail (n_objs n' aid))" for aid env
    using that assms(5) [of aid] placedD(4) [OF assms(1)] by (auto simp: assms(4))
  show "n_objs n' aid = noObj" if "n_nobj n' \<le> aid" for aid using that assms(2,6) by simp
  show "pc_ok (n_nobj n') (n_objs n') (n_streams n' sid)" for sid
    by (rule pc_ok_frame [OF assms(7)]) (simp_all add: assms(2,4))
  show "aid < n_nobj n'" if "n_drains n' d = DWait aid" for d aid using assms(8) [OF that] assms(2) by simp
qed

lemma noObj_simps [simp]: "ob_mail noObj = []" "ob_status noObj = statusDead" "ob_out noObj = OutNone"
  by (simp_all add: noObj_def)

lemma enqueueResult_frame:
  assumes "enqueueResult reply res n = Some (n', evs)"
  shows "n_shards n' = n_shards n" "n_objs n' = n_objs n" "n_nobj n' = n_nobj n" "n_routes n' = n_routes n"
    "n_streams n' = n_streams n" "n_drains n' = n_drains n" "n_batch n' = n_batch n" "n_sent n' = n_sent n"
  using assms by (auto simp: enqueueResult_def split: option.splits if_splits)

lemma placed_pc:
  assumes "placed n" and "n_objs n' = n_objs n" "n_nobj n' = n_nobj n" "n_drains n' = n_drains n"
      "n_streams n' = n_streams n"
    and "\<And>i k aid. n_shards n' i k = Some aid \<Longrightarrow> n_shards n i k = Some aid"
    and "pc_ok (n_nobj n) (n_objs n) pc"
  shows "placed (n'\<lparr>n_streams := (n_streams n')(sid := pc)\<rparr>)"
  by (rule placed_frame [OF assms(1)]) (use assms(2-7) placedD(5-7) [OF assms(1)] in auto)

lemma deleteActor_frame:
  "n_objs (deleteActor k n) = n_objs n" "n_nobj (deleteActor k n) = n_nobj n"
  "n_drains (deleteActor k n) = n_drains n" "n_streams (deleteActor k n) = n_streams n"
  "n_shards (deleteActor k n) i k' = Some aid \<Longrightarrow> n_shards n i k' = Some aid"
  "n_routes (deleteActor k n) = n_routes n"
  by (auto simp: deleteActor_def split: if_splits)

lemma placed_create:
  assumes "placed n" and "createActor c now env n = Inr (aid, n')"
  shows "placed (n'\<lparr>n_streams := (n_streams n')(sid := HRoute aid env es)\<rparr>)"
proof (cases "n_shards n (shardIndex (ActorKey env)) (ActorKey env)")
  case (Some x)
  with assms(2) have "x = aid" "n' = n" by (auto simp: createActor_def Let_def)
  with Some placedD(2,3) [OF assms(1) Some] show ?thesis by (intro placed_pc [OF assms(1)]) auto
next
  case None
  let ?k = "ActorKey env"
  from assms(2) None obtain b where
    re: "rehydrate (nc_store c) (n_store n) (newBusinessActor (fst ?k) (snd ?k) now) = (b, None)"
    and aid: "aid = n_nobj n"
    and n': "n' = n\<lparr>n_objs := (n_objs n)(n_nobj n := \<lparr>ob_b = b, ob_mail = [], ob_status = statusRunning, ob_out = OutNone\<rparr>),
           n_nobj := Suc (n_nobj n),
           n_shards := (n_shards n)(shardIndex ?k := (n_shards n (shardIndex ?k))(?k \<mapsto> n_nobj n))\<rparr>"
    by (auto simp: createActor_def Let_def split: prod.splits option.splits)
  have key: "okey \<lparr>ob_b = b, ob_mail = [], ob_status = statusRunning, ob_out = OutNone\<rparr> = ?k"
    using rehydrate_key [OF re] by (simp add: okey_def newBusinessActor_def)
  have old: "aid' \<noteq> n_nobj n" if "n_shards n i k = Some aid'" for i k aid'
    using placedD(2) [OF assms(1) that] by simp
  have pc: "pc_ok (Suc (n_nobj n)) (n_objs n') (n_streams n s)" for s
    by (rule pc_ok_frame [OF placedD(6) [OF assms(1)]]) (use n' in auto)
  have dw: "n_drains n d = DWait a \<Longrightarrow> a < Suc (n_nobj n)" for d a
    using placedD(7) [OF assms(1)] less_SucI by blast
  show ?thesis
  proof (rule placedI)
    fix i k a assume "n_shards (n'\<lparr>n_streams := (n_streams n')(sid := HRoute aid env es)\<rparr>) i k = Some a"
    then show "i = shardIndex k \<and> a < n_nobj (n'\<lparr>n_streams := (n_streams n')(sid := HRoute aid env es)\<rparr>) \<and>
        okey (n_objs (n'\<lparr>n_streams := (n_streams n')(sid := HRoute aid env es)\<rparr>) a) = k"
      using key old [of i k a] placedD(1,2,3) [OF assms(1), of i k a]
      by (auto simp: n' split: if_splits)
  next
    fix s show "pc_ok (n_nobj (n'\<lparr>n_streams := (n_streams n')(sid := HRoute aid env es)\<rparr>))
        (n_objs (n'\<lparr>n_streams := (n_streams n')(sid := HRoute aid env es)\<rparr>))
        (n_streams (n'\<lparr>n_streams := (n_streams n')(sid := HRoute aid env es)\<rparr>) s)"
      using pc [of s] key by (auto simp: n' aid)
  qed (use placedD(4,5) [OF assms(1)] dw in \<open>auto simp: n' split: if_splits\<close>)
qed

lemma setObj_frame [simp]:
  "n_shards (setObj aid ob n) = n_shards n" "n_nobj (setObj aid ob n) = n_nobj n"
  "n_drains (setObj aid ob n) = n_drains n" "n_streams (setObj aid ob n) = n_streams n"
  "n_objs (setObj aid ob n) = (n_objs n)(aid := ob)" "n_routes (setObj aid ob n) = n_routes n"
  by (simp_all add: setObj_def)

lemma placed_enqueue:
  assumes "placed n" and "aid < n_nobj n" and "okey (n_objs n aid) = ActorKey env"
  shows "placed ((enqueueMail aid env n)\<lparr>n_streams := (n_streams n)(sid := HNext es)\<rparr>)"
proof -
  let ?n = "(enqueueMail aid env n)\<lparr>n_streams := (n_streams n)(sid := HNext es)\<rparr>"
  have pc: "pc_ok (n_nobj n) (n_objs ?n) (n_streams ?n s)" for s
    by (rule pc_ok_frame [of "n_nobj n" "n_objs n"])
      (use placedD(6) [OF assms(1)] in \<open>auto simp: enqueueMail_def\<close>)
  have okey: "okey (n_objs ?n a) = okey (n_objs n a)" for a by (simp add: enqueueMail_def)
  have fr: "n_shards ?n = n_shards n" "n_nobj ?n = n_nobj n" "n_drains ?n = n_drains n"
    by (simp_all add: enqueueMail_def)
  have mail: "ActorKey e = okey (n_objs n a)" if "e \<in> set (ob_mail (n_objs ?n a))" for e a
    using that assms(3) placedD(4) [OF assms(1)] by (auto simp: enqueueMail_def split: if_splits)
  have big: "n_objs ?n a = noObj" if "n_nobj n \<le> a" for a
    using that assms(2) placedD(5) [OF assms(1)] by (auto simp: enqueueMail_def)
  show ?thesis
    by (rule placedI) (use placedD [OF assms(1)] pc mail big okey fr in auto)
qed

lemma placed_kill:
  assumes "placed n" and "aid < n_nobj n"
  shows "placed ((killAndDrain aid n)\<lparr>n_streams := (n_streams n)(sid := HReply r es)\<rparr>)"
  by (rule placed_frame [OF assms(1)])
    (use assms(2) placedD(5-7) [OF assms(1)] in
      \<open>auto simp: killAndDrain_def stopObj_def split: if_splits\<close>)

lemma placed_hb:
  assumes "placed n" and "hb_step c now sid (n_streams n sid) n = Some (pc, n', evs)"
  shows "placed (n'\<lparr>n_streams := (n_streams n')(sid := pc)\<rparr>)"
proof -
  note ok = placedD(6) [OF assms(1), of sid] and sh = placedD(2,3) [OF assms(1)]
  note pl = placed_pc [OF assms(1)]
  show ?thesis
  proof (cases "n_streams n sid")
    case (HOver es)
    then obtain es' where "pc = HIdle \<or> pc = HOver es'" "n' = n \<or> (\<exists>r. enqueueResult (Some sid) (Some r) n = Some (n', evs))"
      using assms(2) by (cases es; cases "hd es") (auto split: option.splits prod.splits)
    then show ?thesis by (auto intro!: pl simp: enqueueResult_frame)
  next
    case (HReply r es)
    then have e: "enqueueResult (Some sid) (Some r) n = Some (n', evs)" "pc = HNext es"
      using assms(2) by (auto split: option.splits prod.splits)
    show ?thesis by (rule pl) (use enqueueResult_frame [OF e(1)] e(2) in auto)
  next
    case (HNext es)
    show ?thesis
    proof (cases es)
      case (Cons e es')
      have "n' = n \<and> pc_ok (n_nobj n) (n_objs n) pc \<or> (\<exists>aid env. n' = deleteActor (ActorKey env) n \<and>
          pc = HKill aid env es' \<and> n_shards n (shardIndex (ActorKey env)) (ActorKey env) = Some aid)"
        using HNext Cons assms(2)
        by (cases e) (auto simp: forceKillLocalActor_def split: if_splits option.splits)
      then show ?thesis
      proof
        assume "n' = n \<and> pc_ok (n_nobj n) (n_objs n) pc"
        then show ?thesis by (intro pl) auto
      next
        assume "\<exists>aid env. n' = deleteActor (ActorKey env) n \<and> pc = HKill aid env es' \<and>
          n_shards n (shardIndex (ActorKey env)) (ActorKey env) = Some aid"
        then obtain aid env where d: "n' = deleteActor (ActorKey env) n" "pc = HKill aid env es'"
          "n_shards n (shardIndex (ActorKey env)) (ActorKey env) = Some aid" by blast
        show ?thesis
          by (rule pl) (use d sh(1) [OF d(3)] deleteActor_frame(5) [of "ActorKey env" n] in \<open>auto simp: deleteActor_frame(1-4)\<close>)
      qed
    qed (use HNext assms(2) in \<open>auto intro!: pl\<close>)
  next
    case (HKill aid env es)
    with assms(2) ok placed_kill [OF assms(1), of aid sid] show ?thesis by (auto simp: killAndDrain_def stopObj_def)
  next
    case (HLookup env es)
    with assms(2) sh [of "shardIndex (ActorKey env)" "ActorKey env"] show ?thesis
      by (auto intro!: pl split: option.splits)
  next
    case (HCreate env es)
    show ?thesis
    proof (cases "createActor c now env n")
      case (Inr x)
      with HCreate assms(2) placed_create [OF assms(1), of c now env] show ?thesis by (cases x) auto
    qed (use HCreate assms(2) in \<open>auto intro!: pl\<close>)
  next
    case (HEnq aid env es)
    with assms(2) ok placed_enqueue [OF assms(1), of aid env sid es] show ?thesis
      by (auto simp: enqueueMail_def)
  next
    case (HForget aid env es)
    then have d: "pc = HLookup env es" "n' = n \<or> n' = deleteActor (ActorKey env) n" using assms(2) by auto
    show ?thesis
      by (rule pl) (use d deleteActor_frame(5) [of "ActorKey env" n] in \<open>auto simp: deleteActor_frame(1-4)\<close>)
  qed (use assms(2) ok in \<open>auto intro!: pl\<close>)
qed

lemma takeRoute_frame:
  assumes "takeRoute rk n = (r, n')"
  shows "n_shards n' = n_shards n" "n_objs n' = n_objs n" "n_nobj n' = n_nobj n" "n_streams n' = n_streams n"
    "n_drains n' = n_drains n" "n_batch n' = n_batch n" "n_sent n' = n_sent n" "n_resultCh n' = n_resultCh n"
    "r = n_routes n rk" "n_routes n' = (n_routes n)(rk := None)"
  using assms by (auto simp: takeRoute_def)

text \<open>The four kinds of step of an actor's goroutine.\<close>

lemma obj_step_cases [consumes 1, case_names emit send handle exit]:
  assumes "obj_step c now aid n = Some (n', evs)"
  obtains
    (emit) r out n1 where "ob_out (n_objs n aid) = OutResult r" "Emit r n = (out, n1, evs)"
      "n' = setObj aid ((n_objs n aid)\<lparr>ob_out := out\<rparr>) n1"
  | (send) r reply n1 where "ob_out (n_objs n aid) = OutSend r reply"
      "enqueueResult (Some reply) (Some r) n = Some (n1, evs)"
      "n' = setObj aid ((n_objs n aid)\<lparr>ob_out := OutNone\<rparr>) n1"
  | (handle) env rest r b' st' sp where "ob_out (n_objs n aid) = OutNone" "ob_mail (n_objs n aid) = env # rest"
      "Handle (nc_store c) (n_store n) (ob_b (n_objs n aid)) now env = (r, b', st', sp)"
      "n' = setObj aid ((n_objs n aid)\<lparr>ob_b := b', ob_mail := rest, ob_out := OutResult (completeResult r env)\<rparr>)
         (n\<lparr>n_store := st', n_snaps := n_snaps n @ sp\<rparr>)" "evs = []"
  | (exit) "ob_out (n_objs n aid) = OutNone" "ob_mail (n_objs n aid) = []"
      "n' = setObj aid ((n_objs n aid)\<lparr>ob_status := statusDead\<rparr>) n" "evs = []"
proof (cases "ob_out (n_objs n aid)")
  case OutNone
  show thesis
  proof (cases "ob_mail (n_objs n aid)")
    case Nil
    with OutNone assms exit show thesis by (auto simp: obj_step_def Let_def split: if_splits)
  next
    case (Cons env rest)
    with OutNone assms handle show thesis
      by (auto simp: obj_step_def Let_def split: if_splits prod.splits)
  qed
next
  case (OutResult r)
  with assms emit show thesis by (auto simp: obj_step_def Let_def split: if_splits prod.splits)
next
  case (OutSend r reply)
  with assms send show thesis
    by (auto simp: obj_step_def Let_def split: if_splits prod.splits option.splits)
qed

lemma Emit_frame:
  assumes "Emit r n = (out, n', evs)"
  shows "n_shards n' = n_shards n" "n_objs n' = n_objs n" "n_nobj n' = n_nobj n" "n_streams n' = n_streams n"
    "n_drains n' = n_drains n" "n_routes n' = (n_routes n)(resultRouteKey r := None)"
    "n_batch n' = n_batch n" "n_sent n' = n_sent n" "n_resultCh n' = n_resultCh n"
  using assms by (auto simp: Emit_def takeRoute_def split: option.splits)

lemma obj_step_alive: "obj_step c now aid n = Some x \<Longrightarrow> placed n \<Longrightarrow> aid < n_nobj n"
  using placedD(5) [of n aid] by (cases "n_nobj n \<le> aid") (auto simp: obj_step_def Let_def)

lemma placed_set:
  assumes "placed n" and "aid < n_nobj n" and "okey ob = okey (n_objs n aid)"
    and "set (ob_mail ob) \<subseteq> set (ob_mail (n_objs n aid))"
    and "n_objs n' = (n_objs n)(aid := ob)" "n_nobj n' = n_nobj n" "n_streams n' = n_streams n"
      "n_shards n' = n_shards n" and "\<And>d a. n_drains n' d = DWait a \<Longrightarrow> n_drains n d = DWait a"
  shows "placed n'"
proof (rule placed_frame [OF assms(1)])
  show "a < n_nobj n" if "n_drains n' d = DWait a" for d a
    by (rule placedD(7) [OF assms(1) assms(9) [OF that]])
qed (use assms(2-8) placedD(5-6) [OF assms(1)] in auto)

lemma placed_obj:
  assumes "placed n" and "obj_step c now aid n = Some (n', evs)"
  shows "placed n'"
proof -
  have aid: "aid < n_nobj n" by (rule obj_step_alive [OF assms(2,1)])
  show ?thesis using assms(2)
  proof (cases rule: obj_step_cases)
    case (emit r out n1)
    show ?thesis
      by (rule placed_set [OF assms(1) aid, of "(n_objs n aid)\<lparr>ob_out := out\<rparr>"])
        (use emit Emit_frame [OF emit(2)] in auto)
  next
    case (send r reply n1)
    show ?thesis
      by (rule placed_set [OF assms(1) aid, of "(n_objs n aid)\<lparr>ob_out := OutNone\<rparr>"])
        (use send enqueueResult_frame [OF send(2)] in auto)
  next
    case (handle env rest r b' st' sp)
    show ?thesis
      by (rule placed_set [OF assms(1) aid,
            of "(n_objs n aid)\<lparr>ob_b := b', ob_mail := rest, ob_out := OutResult (completeResult r env)\<rparr>"])
        (use handle Handle_key [OF handle(3)] in \<open>auto simp: okey_def\<close>)
  next
    case exit
    show ?thesis
      by (rule placed_set [OF assms(1) aid, of "(n_objs n aid)\<lparr>ob_status := statusDead\<rparr>"])
        (use exit in auto)
  qed
qed

lemma placed_drain:
  assumes "placed n" and "drain_task_step (n_drains n d) n = Some (task, n', evs)"
  shows "placed (n'\<lparr>n_drains := (n_drains n')(d := task)\<rparr>)"
proof (cases "n_drains n d")
  case (DWait aid)
  then have aid: "aid < n_nobj n" by (rule placedD(7) [OF assms(1)])
  show ?thesis
    by (rule placed_set [OF assms(1) aid, of "(n_objs n aid)\<lparr>ob_mail := []\<rparr>"])
      (use assms(2) DWait in \<open>auto split: if_splits\<close>)
next
  case (DEmit es)
  then have fr: "n_shards n' = n_shards n" "n_objs n' = n_objs n" "n_nobj n' = n_nobj n"
      "n_streams n' = n_streams n" "n_drains n' = n_drains n" "\<And>a. task \<noteq> DWait a"
    using assms(2) by (cases es; auto split: prod.splits option.splits dest: takeRoute_frame)+
  show ?thesis
    by (rule placed_frame [OF assms(1)]) (use fr placedD(5-7) [OF assms(1)] in \<open>auto split: if_splits\<close>)
next
  case (DSend r reply es)
  then obtain n1 where e: "enqueueResult (Some reply) (Some r) n = Some (n', evs)" "task = DEmit es"
    using assms(2) by (auto split: option.splits prod.splits)
  show ?thesis
    by (rule placed_frame [OF assms(1)])
      (use e(2) enqueueResult_frame [OF e(1)] placedD(5-7) [OF assms(1)] in \<open>auto split: if_splits\<close>)
qed (use assms in simp)

lemma stopAll_simps [simp]:
  "okey (stopAll A objs aid) = okey (objs aid)" "ob_mail (stopAll A objs aid) = ob_mail (objs aid)"
  "ob_out (stopAll A objs aid) = ob_out (objs aid)"
  by (simp_all add: stopAll_def)

lemma stopAll_noObj: "objs aid = noObj \<Longrightarrow> stopAll A objs aid = noObj"
  by (simp add: stopAll_def stopStatus_def noObj_def)

lemma stopAll_empty: "stopAll {} objs = objs"
  by (simp add: stopAll_def fun_eq_iff)

lemma stop_step_frame:
  assumes "stop_step pc n = Some (pc', n')"
  shows "\<exists>A. n_objs n' = stopAll A (n_objs n) \<and> n_nobj n' = n_nobj n \<and> n_streams n' = n_streams n \<and>
    n_drains n' = n_drains n \<and> n_routes n' = n_routes n \<and> n_resultCh n' = n_resultCh n \<and>
    n_batch n' = n_batch n \<and> n_sent n' = n_sent n \<and>
    (\<forall>i k aid. n_shards n' i k = Some aid \<longrightarrow> n_shards n i k = Some aid)"
proof (cases pc)
  case (NStopShard i stopping)
  show ?thesis
  proof (cases "i < 256")
    case True
    with assms NStopShard show ?thesis
      by (intro exI [of _ "ran (n_shards n i)"]) (auto split: if_splits)
  qed (use assms NStopShard in \<open>auto intro!: exI [of _ "{}"] simp: stopAll_empty\<close>)
qed (use assms in \<open>auto intro!: exI [of _ "{}"] simp: stopAll_empty split: if_splits\<close>)

lemma placed_stopAll:
  assumes "placed n" and "n_objs n' = stopAll A (n_objs n)"
    and "n_nobj n' = n_nobj n" "n_streams n' = n_streams n" "n_drains n' = n_drains n"
    and "\<And>i k aid. n_shards n' i k = Some aid \<Longrightarrow> n_shards n i k = Some aid"
  shows "placed n'"
  by (rule placed_frame [OF assms(1)])
    (use assms placedD(5-7) [OF assms(1)] in \<open>auto simp: stopAll_noObj\<close>)

theorem placed_step:
  assumes "placed n" and "nstep c n evs n'"
  shows "placed n'"
  using assms(2)
proof cases
  case (s_call sid es)
  then show ?thesis by (auto intro!: placed_pc [OF assms(1)])
next
  case (s_hb now sid pc n1)
  with placed_hb [OF assms(1)] show ?thesis by simp
next
  case (s_obj now aid)
  with placed_obj [OF assms(1)] show ?thesis by simp
next
  case (s_drain d task n1)
  with placed_drain [OF assms(1)] show ?thesis by simp
next
  case (s_passivate i now)
  show ?thesis
    by (rule placed_stopAll [OF assms(1)])
      (use s_passivate in \<open>auto simp: passivateShard_def split: if_splits option.splits\<close>)
next
  case (s_stop pc n1)
  from stop_step_frame [OF s_stop(3)] obtain A where A: "n_objs n1 = stopAll A (n_objs n)"
    "n_nobj n1 = n_nobj n" "n_streams n1 = n_streams n" "n_drains n1 = n_drains n"
    "\<And>i k aid. n_shards n1 i k = Some aid \<Longrightarrow> n_shards n i k = Some aid"
    by blast
  show ?thesis by (rule placed_stopAll [OF assms(1), of _ A]) (use s_stop A in auto)
next
  case (s_agg i)
  then have "n_objs n' = n_objs n" "n_nobj n' = n_nobj n" "n_streams n' = n_streams n" "n_drains n' = n_drains n"
      "n_shards n' = n_shards n"
    by (auto simp: agg_step_def flush_def Let_def split: agg_input.splits if_splits list.splits)
  then show ?thesis by (intro placed_frame [OF assms(1)]) (use placedD(5-7) [OF assms(1)] in auto)
qed (auto intro!: placed_frame [OF assms(1)] simp: placedD(5-7) [OF assms(1)])

section \<open>The ledger of requests\<close>

text \<open>
  An abstract node only keeps books: which requests a goroutine holds together with the stream to
  answer (\<^verbatim>\<open>free\<close>), which have their reply route registered but are not yet in a mailbox
  (\<^verbatim>\<open>checked\<close>), which are in a mailbox or are being answered by an actor (\<^verbatim>\<open>mailed\<close>), and the
  registered routes.
\<close>

record ledger =
  l_free :: "(nat \<times> RouteKey) multiset"
  l_checked :: "(nat \<times> RouteKey) multiset"
  l_mailed :: "RouteKey multiset"
  l_routes :: "RouteKey \<rightharpoonup> nat"

text \<open>The route keys of the non-nil envelopes of a list.\<close>

definition keys :: "RemoteEnvelope option list \<Rightarrow> RouteKey multiset" where
  "keys es = mset (concat (map (\<lambda>e. case e of None \<Rightarrow> [] | Some env \<Rightarrow> [envKey env]) es))"

lemma keys_simps [simp]:
  "keys [] = {#}" "keys (None # es) = keys es" "keys (Some env # es) = add_mset (envKey env) (keys es)"
  by (simp_all add: keys_def)

definition tag :: "nat \<Rightarrow> RouteKey multiset \<Rightarrow> (nat \<times> RouteKey) multiset" where
  "tag sid M = image_mset (Pair sid) M"

lemma tag_simps [simp]:
  "tag sid {#} = {#}" "tag sid (add_mset k M) = add_mset (sid, k) (tag sid M)"
  "tag sid (M + N) = tag sid M + tag sid N" "image_mset snd (tag sid M) = M"
  "p \<in># tag sid M \<longleftrightarrow> fst p = sid \<and> snd p \<in># M"
  by (cases p; auto simp: tag_def image_mset.compositionality comp_def)+

inductive ledger_step :: "ledger \<Rightarrow> nevent list \<Rightarrow> ledger \<Rightarrow> bool" where
  l_stutter: "ledger_step l [] l"
| l_submit: "ledger_step l [Submitted sid es] (l\<lparr>l_free := tag sid (keys es) + l_free l\<rparr>)"
| l_route: "l_free l = add_mset (sid, k) F \<Longrightarrow>
     ledger_step l [] (l\<lparr>l_free := F, l_checked := add_mset (sid, k) (l_checked l), l_routes := (l_routes l)(k \<mapsto> sid)\<rparr>)"
| l_mail: "l_checked l = add_mset (sid, k) C \<Longrightarrow>
     ledger_step l [] (l\<lparr>l_checked := C, l_mailed := add_mset k (l_mailed l)\<rparr>)"
| l_unroute: "l_checked l = add_mset (sid, k) C \<Longrightarrow>
     ledger_step l [] (l\<lparr>l_free := add_mset (sid, k) (l_free l), l_checked := C\<rparr>)"
| l_forget: "(sid, k) \<in># l_free l \<Longrightarrow> ledger_step l [] (l\<lparr>l_routes := (l_routes l)(k := None)\<rparr>)"
| l_take: "l_mailed l = add_mset k M \<Longrightarrow> l_routes l k = Some sid \<Longrightarrow>
     ledger_step l [] (l\<lparr>l_free := add_mset (sid, k) (l_free l), l_mailed := M, l_routes := (l_routes l)(k := None)\<rparr>)"
| l_drop: "l_mailed l = add_mset k M \<Longrightarrow> l_routes l k = None \<Longrightarrow> ledger_step l [Dropped k] (l\<lparr>l_mailed := M\<rparr>)"
| l_queue: "l_free l = add_mset (sid, resultRouteKey r) F \<Longrightarrow> ledger_step l [Queued sid r] (l\<lparr>l_free := F\<rparr>)"

inductive ledger_run :: "ledger \<Rightarrow> nevent list \<Rightarrow> ledger \<Rightarrow> bool" where
  ledger_refl: "ledger_run l [] l"
| ledger_next: "ledger_run l tr l' \<Longrightarrow> ledger_step l' evs l'' \<Longrightarrow> ledger_run l (tr @ evs) l''"

definition empty_ledger :: ledger where
  "empty_ledger = \<lparr>l_free = {#}, l_checked = {#}, l_mailed = {#}, l_routes = (\<lambda>_. None)\<rparr>"

text \<open>What a run has submitted, queued for sending, and dropped.\<close>

fun submitted1 :: "nevent \<Rightarrow> (nat \<times> RouteKey) multiset" where
  "submitted1 (Submitted sid es) = tag sid (keys es)"
| "submitted1 _ = {#}"

fun queued1 :: "nevent \<Rightarrow> (nat \<times> RouteKey) multiset" where
  "queued1 (Queued s r) = {#(s, resultRouteKey r)#}"
| "queued1 _ = {#}"

fun dropped1 :: "nevent \<Rightarrow> RouteKey multiset" where
  "dropped1 (Dropped k) = {#k#}"
| "dropped1 _ = {#}"

definition submitted :: "nevent list \<Rightarrow> (nat \<times> RouteKey) multiset" where
  "submitted tr = sum_list (map submitted1 tr)"

definition queued :: "nevent list \<Rightarrow> (nat \<times> RouteKey) multiset" where
  "queued tr = sum_list (map queued1 tr)"

definition dropped :: "nevent list \<Rightarrow> RouteKey multiset" where
  "dropped tr = sum_list (map dropped1 tr)"

lemma nevent_append [simp]:
  "submitted (xs @ ys) = submitted xs + submitted ys" "queued (xs @ ys) = queued xs + queued ys"
  "dropped (xs @ ys) = dropped xs + dropped ys"
  by (simp_all add: submitted_def queued_def dropped_def)

lemma nevent_simps [simp]:
  "submitted [] = {#}" "queued [] = {#}" "dropped [] = {#}"
  "submitted (e # es) = submitted1 e + submitted es" "queued (e # es) = queued1 e + queued es"
  "dropped (e # es) = dropped1 e + dropped es"
  by (simp_all add: submitted_def queued_def dropped_def)

definition answering :: "ledger \<Rightarrow> RouteKey multiset" where
  "answering l = image_mset snd (l_free l) + image_mset snd (l_checked l) + l_mailed l"

text \<open>Nothing is created or lost: every request is answered, dropped, or still in the node.\<close>

lemma ledger_conserves:
  assumes "ledger_run empty_ledger tr l"
  shows "image_mset snd (submitted tr) = image_mset snd (queued tr) + dropped tr + answering l"
proof -
  have "ledger_run l0 tr l \<Longrightarrow> l0 = empty_ledger \<Longrightarrow> ?thesis" for l0
  proof (induction rule: ledger_run.induct)
    case (ledger_next l tr l' evs l'')
    from ledger_next(2) show ?case
      by (cases rule: ledger_step.cases) (use ledger_next(3,4) in \<open>auto simp: answering_def\<close>)
  qed (simp add: empty_ledger_def answering_def)
  then show ?thesis using assms by blast
qed

text \<open>Answers go to a stream that asked.\<close>

definition ledger_sound :: "nevent list \<Rightarrow> ledger \<Rightarrow> bool" where
  "ledger_sound tr l \<longleftrightarrow> set_mset (l_free l) \<subseteq> set_mset (submitted tr) \<and>
     set_mset (l_checked l) \<subseteq> set_mset (submitted tr) \<and>
     (\<forall>k sid. l_routes l k = Some sid \<longrightarrow> (sid, k) \<in># submitted tr) \<and>
     set_mset (queued tr) \<subseteq> set_mset (submitted tr)"

lemma ledger_sound_run:
  assumes "ledger_run empty_ledger tr l"
  shows "ledger_sound tr l"
proof -
  have "ledger_run l0 tr l \<Longrightarrow> l0 = empty_ledger \<Longrightarrow> ?thesis" for l0
  proof (induction rule: ledger_run.induct)
    case (ledger_next l tr l' evs l'')
    from ledger_next(2) show ?case
      by (cases rule: ledger_step.cases)
        (use ledger_next(3,4) in \<open>auto simp: ledger_sound_def subset_iff\<close>)
  qed (simp add: empty_ledger_def ledger_sound_def)
  then show ?thesis using assms by blast
qed

text \<open>When no request key is submitted twice, the routes of the requests under way are registered.\<close>

definition distinct_keys :: "nevent list \<Rightarrow> bool" where
  "distinct_keys tr \<longleftrightarrow> (\<forall>k. count (image_mset snd (submitted tr)) k \<le> 1)"

definition ledger_tight :: "nevent list \<Rightarrow> ledger \<Rightarrow> bool" where
  "ledger_tight tr l \<longleftrightarrow> dropped tr = {#} \<and> (\<forall>p \<in># l_checked l. l_routes l (snd p) \<noteq> None) \<and>
     (\<forall>k \<in># l_mailed l. l_routes l k \<noteq> None)"

lemma distinct_keys_append: "distinct_keys (xs @ ys) \<Longrightarrow> distinct_keys xs"
  unfolding distinct_keys_def by (simp) (meson add_leD1)

lemma ledger_tight_run:
  assumes "ledger_run empty_ledger tr l" and "distinct_keys tr"
  shows "ledger_tight tr l"
proof -
  have "ledger_run l0 tr l \<Longrightarrow> l0 = empty_ledger \<Longrightarrow> distinct_keys tr \<Longrightarrow> ?thesis" for l0
  proof (induction rule: ledger_run.induct)
    case (ledger_next l tr l' evs l'')
    then have IH: "ledger_tight tr l'" and dk: "distinct_keys tr" by (auto dest: distinct_keys_append)
    have one: "count (answering l') k \<le> 1" for k
    proof -
      have "count (answering l') k \<le> count (image_mset snd (submitted tr)) k"
        using ledger_conserves [of tr l'] ledger_next(1,4) by simp
      then show ?thesis using dk unfolding distinct_keys_def by (meson le_trans)
    qed
    note ones = count_add_le_1D [OF one [unfolded answering_def]]
    from ledger_next(2) show ?case
    proof (cases rule: ledger_step.cases)
      case (l_forget sid k)
      then have "k \<in># image_mset snd (l_free l')" by force
      then have "k \<notin># image_mset snd (l_checked l')" "k \<notin># l_mailed l'" using ones [of k] by auto
      with IH l_forget show ?thesis by (auto simp: ledger_tight_def)
    next
      case (l_take k M sid)
      then have "k \<notin># image_mset snd (l_checked l')" "k \<notin># M" using ones [of k] by (auto simp: count_eq_zero_iff)
      with IH l_take show ?thesis by (auto simp: ledger_tight_def)
    qed (use IH in \<open>auto simp: ledger_tight_def\<close>)
  qed (simp add: empty_ledger_def ledger_tight_def)
  then show ?thesis using assms by blast
qed

section \<open>The node keeps the ledger\<close>

fun pc_checked :: "hb_pc \<Rightarrow> RouteKey multiset" where
  "pc_checked (HCheck aid env es) = {#envKey env#}"
| "pc_checked (HEnq aid env es) = {#envKey env#}"
| "pc_checked _ = {#}"

fun pc_free :: "hb_pc \<Rightarrow> RouteKey multiset" where
  "pc_free HIdle = {#}"
| "pc_free (HStart es) = keys es"
| "pc_free (HOver es) = keys es"
| "pc_free (HNext es) = keys es"
| "pc_free (HPanic es) = keys es"
| "pc_free (HReply r es) = add_mset (resultRouteKey r) (keys es)"
| "pc_free (HKill aid env es) = add_mset (envKey env) (keys es)"
| "pc_free (HLookup env es) = add_mset (envKey env) (keys es)"
| "pc_free (HCreate env es) = add_mset (envKey env) (keys es)"
| "pc_free (HRoute aid env es) = add_mset (envKey env) (keys es)"
| "pc_free (HUndo aid env es) = add_mset (envKey env) (keys es)"
| "pc_free (HForget aid env es) = add_mset (envKey env) (keys es)"
| "pc_free (HCheck aid env es) = keys es"
| "pc_free (HEnq aid env es) = keys es"

fun out_mailed :: "outbox \<Rightarrow> RouteKey multiset" where
  "out_mailed (OutResult r) = {#resultRouteKey r#}"
| "out_mailed _ = {#}"

fun out_free :: "outbox \<Rightarrow> (nat \<times> RouteKey) multiset" where
  "out_free (OutSend r reply) = {#(reply, resultRouteKey r)#}"
| "out_free _ = {#}"

definition obj_free :: "Obj \<Rightarrow> (nat \<times> RouteKey) multiset" where
  "obj_free ob = out_free (ob_out ob)"

definition obj_mailed :: "Obj \<Rightarrow> RouteKey multiset" where
  "obj_mailed ob = mset (map envKey (ob_mail ob)) + out_mailed (ob_out ob)"

fun task_mailed :: "drain_task \<Rightarrow> RouteKey multiset" where
  "task_mailed (DEmit es) = mset (map envKey es)"
| "task_mailed (DSend r reply es) = mset (map envKey es)"
| "task_mailed _ = {#}"

fun task_free :: "drain_task \<Rightarrow> (nat \<times> RouteKey) multiset" where
  "task_free (DSend r reply es) = {#(reply, resultRouteKey r)#}"
| "task_free _ = {#}"

definition books :: "'st Node \<Rightarrow> ledger" where
  "books n = \<lparr>
     l_free = fsum (\<lambda>s. tag s (pc_free (n_streams n s))) + fsum (\<lambda>a. obj_free (n_objs n a)) +
       fsum (\<lambda>d. task_free (n_drains n d)),
     l_checked = fsum (\<lambda>s. tag s (pc_checked (n_streams n s))),
     l_mailed = fsum (\<lambda>a. obj_mailed (n_objs n a)) + fsum (\<lambda>d. task_mailed (n_drains n d)),
     l_routes = n_routes n\<rparr>"

definition finite_node :: "'st Node \<Rightarrow> bool" where
  "finite_node n \<longleftrightarrow> fin_supp (\<lambda>s. tag s (pc_free (n_streams n s))) \<and>
     fin_supp (\<lambda>s. tag s (pc_checked (n_streams n s))) \<and> fin_supp (\<lambda>a. obj_free (n_objs n a)) \<and>
     fin_supp (\<lambda>a. obj_mailed (n_objs n a)) \<and> fin_supp (\<lambda>d. task_free (n_drains n d)) \<and>
     fin_supp (\<lambda>d. task_mailed (n_drains n d))"

lemma comp_upd:
  "(\<lambda>i. f ((g(j := x)) i)) = (\<lambda>i. f (g i))(j := f x)"
  "(\<lambda>i. tag i (h ((g(j := x)) i))) = (\<lambda>i. tag i (h (g i)))(j := tag j (h x))"
  by auto

text \<open>How the books change when one stream, one actor and one task change.\<close>

lemma books_upd:
  assumes "finite_node n"
    and "n_streams n' = (n_streams n)(sid := pc)" and "n_objs n' = (n_objs n)(aid := ob)"
    and "n_drains n' = (n_drains n)(d := task)"
  shows "finite_node n'"
    and "l_free (books n') + tag sid (pc_free (n_streams n sid)) + obj_free (n_objs n aid) + task_free (n_drains n d) =
      l_free (books n) + tag sid (pc_free pc) + obj_free ob + task_free task"
    and "l_checked (books n') + tag sid (pc_checked (n_streams n sid)) = l_checked (books n) + tag sid (pc_checked pc)"
    and "l_mailed (books n') + obj_mailed (n_objs n aid) + task_mailed (n_drains n d) =
      l_mailed (books n) + obj_mailed ob + task_mailed task"
proof -
  note upd = assms(2-4) comp_upd
  show "finite_node n'" using assms(1) unfolding finite_node_def upd by simp
  have f: "fin_supp (\<lambda>s. tag s (pc_free (n_streams n s)))" "fin_supp (\<lambda>a. obj_free (n_objs n a))"
    "fin_supp (\<lambda>d. task_free (n_drains n d))" "fin_supp (\<lambda>s. tag s (pc_checked (n_streams n s)))"
    "fin_supp (\<lambda>a. obj_mailed (n_objs n a))" "fin_supp (\<lambda>d. task_mailed (n_drains n d))"
    using assms(1) by (simp_all add: finite_node_def)
  note u = fsum_upd_add [OF f(1), of sid "tag sid (pc_free pc)"] fsum_upd_add [OF f(2), of aid "obj_free ob"]
    fsum_upd_add [OF f(3), of d "task_free task"]
  show "l_free (books n') + tag sid (pc_free (n_streams n sid)) + obj_free (n_objs n aid) + task_free (n_drains n d) =
      l_free (books n) + tag sid (pc_free pc) + obj_free ob + task_free task"
    unfolding books_def upd ledger.simps by (rule add_eqs(2) [OF u])
  show "l_checked (books n') + tag sid (pc_checked (n_streams n sid)) = l_checked (books n) + tag sid (pc_checked pc)"
    using fsum_upd_add [OF f(4), of sid "tag sid (pc_checked pc)"]
    unfolding books_def upd by simp
  note v = fsum_upd_add [OF f(5), of aid "obj_mailed ob"] fsum_upd_add [OF f(6), of d "task_mailed task"]
  show "l_mailed (books n') + obj_mailed (n_objs n aid) + task_mailed (n_drains n d) =
      l_mailed (books n) + obj_mailed ob + task_mailed task"
    unfolding books_def upd ledger.simps by (rule add_eqs(1) [OF v])
qed

text \<open>A step that changes one stream's goroutine and leaves the requests elsewhere alone.\<close>

lemma books_pc:
  assumes "finite_node n" and "n_streams n' = (n_streams n)(sid := pc)"
    and obj: "\<And>a. obj_free (n_objs n' a) = obj_free (n_objs n a)" "\<And>a. obj_mailed (n_objs n' a) = obj_mailed (n_objs n a)"
    and task: "\<And>d. task_free (n_drains n' d) = task_free (n_drains n d)"
      "\<And>d. task_mailed (n_drains n' d) = task_mailed (n_drains n d)"
  shows "finite_node n'"
    and "l_free (books n') + tag sid (pc_free (n_streams n sid)) = l_free (books n) + tag sid (pc_free pc)"
    and "l_checked (books n') + tag sid (pc_checked (n_streams n sid)) = l_checked (books n) + tag sid (pc_checked pc)"
    and "l_mailed (books n') = l_mailed (books n)" and "l_routes (books n') = n_routes n'"
proof -
  let ?m = "n\<lparr>n_streams := (n_streams n)(sid := pc)\<rparr>"
  have eq: "finite_node n' = finite_node ?m" "l_free (books n') = l_free (books ?m)"
    "l_checked (books n') = l_checked (books ?m)" "l_mailed (books n') = l_mailed (books ?m)"
    unfolding finite_node_def books_def assms(2) by (simp_all add: obj task)
  note upd = books_upd [OF assms(1), of ?m sid pc undefined "n_objs n undefined" undefined "n_drains n undefined"]
  show "finite_node n'" unfolding eq by (rule upd(1)) simp_all
  show "l_free (books n') + tag sid (pc_free (n_streams n sid)) = l_free (books n) + tag sid (pc_free pc)"
    unfolding eq using upd(2) by simp
  show "l_checked (books n') + tag sid (pc_checked (n_streams n sid)) = l_checked (books n) + tag sid (pc_checked pc)"
    unfolding eq using upd(3) by simp
  show "l_mailed (books n') = l_mailed (books n)" unfolding eq using upd(4) by simp
  show "l_routes (books n') = n_routes n'" by (simp add: books_def)
qed

text \<open>The rules, with the ledger after the step given by its four accounts.\<close>

lemma stutterI:
  "l_free l' = l_free l \<Longrightarrow> l_checked l' = l_checked l \<Longrightarrow> l_mailed l' = l_mailed l \<Longrightarrow>
      l_routes l' = l_routes l \<Longrightarrow> ledger_step l [] l'"
  using l_stutter [of l] by (cases l rule: ledger.cases; cases l' rule: ledger.cases) simp

lemma submitI:
  "l_free l' = tag sid (keys es) + l_free l \<Longrightarrow> l_checked l' = l_checked l \<Longrightarrow> l_mailed l' = l_mailed l \<Longrightarrow>
      l_routes l' = l_routes l \<Longrightarrow> ledger_step l [Submitted sid es] l'"
  using l_submit [of l sid es] by (cases l rule: ledger.cases; cases l' rule: ledger.cases) simp

lemma routeI:
  "l_free l = add_mset (sid, k) (l_free l') \<Longrightarrow> l_checked l' = add_mset (sid, k) (l_checked l) \<Longrightarrow>
      l_mailed l' = l_mailed l \<Longrightarrow> l_routes l' = (l_routes l)(k \<mapsto> sid) \<Longrightarrow> ledger_step l [] l'"
  using l_route [of l sid k "l_free l'"] by (cases l rule: ledger.cases; cases l' rule: ledger.cases) simp

lemma mailI:
  "l_free l' = l_free l \<Longrightarrow> l_checked l = add_mset (sid, k) (l_checked l') \<Longrightarrow>
      l_mailed l' = add_mset k (l_mailed l) \<Longrightarrow> l_routes l' = l_routes l \<Longrightarrow> ledger_step l [] l'"
  using l_mail [of l sid k "l_checked l'"] by (cases l rule: ledger.cases; cases l' rule: ledger.cases) simp

lemma unrouteI:
  "l_free l' = add_mset (sid, k) (l_free l) \<Longrightarrow> l_checked l = add_mset (sid, k) (l_checked l') \<Longrightarrow>
      l_mailed l' = l_mailed l \<Longrightarrow> l_routes l' = l_routes l \<Longrightarrow> ledger_step l [] l'"
  using l_unroute [of l sid k "l_checked l'"] by (cases l rule: ledger.cases; cases l' rule: ledger.cases) simp

lemma forgetI:
  "(sid, k) \<in># l_free l \<Longrightarrow> l_free l' = l_free l \<Longrightarrow> l_checked l' = l_checked l \<Longrightarrow>
      l_mailed l' = l_mailed l \<Longrightarrow> l_routes l' = (l_routes l)(k := None) \<Longrightarrow> ledger_step l [] l'"
  using l_forget [of sid k l] by (cases l rule: ledger.cases; cases l' rule: ledger.cases) simp

lemma takeI:
  "l_routes l k = Some sid \<Longrightarrow> l_free l' = add_mset (sid, k) (l_free l) \<Longrightarrow> l_checked l' = l_checked l \<Longrightarrow>
      l_mailed l = add_mset k (l_mailed l') \<Longrightarrow> l_routes l' = (l_routes l)(k := None) \<Longrightarrow> ledger_step l [] l'"
  using l_take [of l k "l_mailed l'" sid] by (cases l rule: ledger.cases; cases l' rule: ledger.cases) simp

lemma dropI:
  "l_routes l k = None \<Longrightarrow> l_free l' = l_free l \<Longrightarrow> l_checked l' = l_checked l \<Longrightarrow>
      l_mailed l = add_mset k (l_mailed l') \<Longrightarrow> l_routes l' = l_routes l \<Longrightarrow> ledger_step l [Dropped k] l'"
  using l_drop [of l k "l_mailed l'"] by (cases l rule: ledger.cases; cases l' rule: ledger.cases) simp

lemma queueI:
  "l_free l = add_mset (sid, resultRouteKey r) (l_free l') \<Longrightarrow> l_checked l' = l_checked l \<Longrightarrow>
      l_mailed l' = l_mailed l \<Longrightarrow> l_routes l' = l_routes l \<Longrightarrow> ledger_step l [Queued sid r] l'"
  using l_queue [of l sid r "l_free l'"] by (cases l rule: ledger.cases; cases l' rule: ledger.cases) simp

lemma result_keys [simp]:
  "resultRouteKey (overloadResult env) = envKey env" "resultRouteKey (badRequestResult env) = envKey env"
  "resultRouteKey (wrongNodeResult env) = envKey env" "resultRouteKey (evictedResult env) = envKey env"
  "resultRouteKey (rehydrationResult env err) = envKey env"
  by (simp_all add: overloadResult_def badRequestResult_def wrongNodeResult_def evictedResult_def
      rehydrationResult_def resultRouteKey_def envKey_def errorResult_def)

lemma enqueueResult_Some:
  "enqueueResult (Some s) (Some r) n = Some (n', evs) \<Longrightarrow> evs = [Queued s r]"
  by (auto simp: enqueueResult_def split: if_splits)

text \<open>A step of \<^verbatim>\<open>HandleBatch\<close> that leaves the routes alone and sends nothing to an actor.\<close>

lemma ledger_pc:
  assumes "finite_node n" and "n_streams n' = (n_streams n)(sid := pc)"
    and "\<And>a. obj_free (n_objs n' a) = obj_free (n_objs n a)" "\<And>a. obj_mailed (n_objs n' a) = obj_mailed (n_objs n a)"
    and "\<And>d. task_free (n_drains n' d) = task_free (n_drains n d)"
      "\<And>d. task_mailed (n_drains n' d) = task_mailed (n_drains n d)"
    and "n_routes n' = n_routes n"
    and "pc_checked pc = pc_checked (n_streams n sid)"
    and "evs = [] \<and> pc_free pc = pc_free (n_streams n sid) \<or>
      (\<exists>r. evs = [Queued sid r] \<and> pc_free (n_streams n sid) = add_mset (resultRouteKey r) (pc_free pc))"
  shows "finite_node n' \<and> ledger_step (books n) evs (books n')"
proof -
  note b = books_pc [OF assms(1-6)]
  have rt: "l_routes (books n') = l_routes (books n)" using assms(7) by (simp add: books_def)
  from assms(9) show ?thesis
  proof (elim disjE exE conjE)
    assume "evs = []" "pc_free pc = pc_free (n_streams n sid)"
    then show ?thesis using b rt assms(8) by (auto intro!: stutterI)
  next
    fix r assume "evs = [Queued sid r]" "pc_free (n_streams n sid) = add_mset (resultRouteKey r) (pc_free pc)"
    then show ?thesis using b rt assms(8) by (auto intro!: queueI)
  qed
qed

lemma createActor_frame:
  assumes "placed n" and "createActor c now env n = Inr (aid, n')"
  shows "n_streams n' = n_streams n" "n_routes n' = n_routes n" "n_drains n' = n_drains n"
    "obj_free (n_objs n' a) = obj_free (n_objs n a)" "obj_mailed (n_objs n' a) = obj_mailed (n_objs n a)"
  using assms(2) placedD(5) [OF assms(1), of "n_nobj n"]
  by (auto simp: createActor_def Let_def obj_free_def obj_mailed_def split: option.splits prod.splits)

lemma obj_tokens_status [simp]:
  "obj_free (ob\<lparr>ob_status := st\<rparr>) = obj_free ob" "obj_mailed (ob\<lparr>ob_status := st\<rparr>) = obj_mailed ob"
  by (simp_all add: obj_free_def obj_mailed_def)

text \<open>Draining goroutines are numbered in the order they start.\<close>

definition drains_fresh :: "'st Node \<Rightarrow> bool" where
  "drains_fresh n \<longleftrightarrow> (\<forall>d \<ge> n_ndrain n. n_drains n d = DNone)"


lemma ledger_over:
  assumes "finite_node n" and "hb_step c now sid (HOver es) n = Some (pc, n', evs)" and "n_streams n sid = HOver es"
    and "m = n'\<lparr>n_streams := (n_streams n')(sid := pc)\<rparr>"
  shows "finite_node m \<and> ledger_step (books n) evs (books m)"
proof -
  note pc = ledger_pc [OF assms(1), of m sid pc evs]
  consider "es = []" | es' where "es = None # es'" | env es' where "es = Some env # es'"
    by (metis list.exhaust not_None_eq)
  then show ?thesis
  proof cases
    case (3 env es')
    then have e: "enqueueResult (Some sid) (Some (overloadResult env)) n = Some (n', evs)" "pc = HOver es'"
      using assms(2) by (auto split: option.splits)
    show ?thesis
      by (rule pc) (use 3 assms(3,4) e(2) enqueueResult_Some [OF e(1)] enqueueResult_frame [OF e(1)] in auto)
  qed (use assms(2-4) in \<open>intro pc; auto\<close>)+
qed

lemma ledger_reply:
  assumes "finite_node n" and "hb_step c now sid (HReply r es) n = Some (pc, n', evs)" and "n_streams n sid = HReply r es"
    and "m = n'\<lparr>n_streams := (n_streams n')(sid := pc)\<rparr>"
  shows "finite_node m \<and> ledger_step (books n) evs (books m)"
proof -
  from assms(2) have e: "enqueueResult (Some sid) (Some r) n = Some (n', evs)" "pc = HNext es"
    by (auto split: option.splits)
  show ?thesis
    by (rule ledger_pc [OF assms(1), of m sid pc evs])
      (use assms(3,4) e(2) enqueueResult_Some [OF e(1)] enqueueResult_frame [OF e(1)] in auto)
qed

lemma hb_next_frame:
  assumes "hb_step c now sid (HNext es) n = Some (pc, n', evs)"
  shows "evs = []" "pc_checked pc = {#}" "pc_free pc = keys es" "n_objs n' = n_objs n" "n_drains n' = n_drains n"
    "n_streams n' = n_streams n" "n_routes n' = n_routes n"
proof -
  consider "es = []" | es' where "es = None # es'" | env es' where "es = Some env # es'"
    by (metis list.exhaust not_None_eq)
  then have "evs = [] \<and> pc_checked pc = {#} \<and> pc_free pc = keys es \<and> n_objs n' = n_objs n \<and> n_drains n' = n_drains n \<and>
    n_streams n' = n_streams n \<and> n_routes n' = n_routes n"
    using assms
    by cases (auto simp: forceKillLocalActor_def deleteActor_frame(1-4,6) split: if_splits option.splits)
  then show "evs = []" "pc_checked pc = {#}" "pc_free pc = keys es" "n_objs n' = n_objs n" "n_drains n' = n_drains n"
    "n_streams n' = n_streams n" "n_routes n' = n_routes n" by simp_all
qed

lemma ledger_create:
  assumes "finite_node n" and "placed n" and "hb_step c now sid (HCreate env es) n = Some (pc, n', evs)"
    and "n_streams n sid = HCreate env es" and "m = n'\<lparr>n_streams := (n_streams n')(sid := pc)\<rparr>"
  shows "finite_node m \<and> ledger_step (books n) evs (books m)"
proof (cases "createActor c now env n")
  case (Inl err)
  then show ?thesis
    by (intro ledger_pc [OF assms(1), of m sid pc evs]) (use assms(3-5) in auto)
next
  case (Inr x)
  then obtain aid where e: "createActor c now env n = Inr (aid, n')" "pc = HRoute aid env es" "evs = []"
    using assms(3) by (cases x) auto
  show ?thesis
    by (rule ledger_pc [OF assms(1), of m sid pc evs])
      (use assms(4,5) e createActor_frame [OF assms(2) e(1)] in auto)
qed

lemma ledger_route:
  assumes "finite_node n" and "n_streams n sid = HRoute aid env es"
    and "m = n\<lparr>n_routes := (n_routes n)(envKey env \<mapsto> sid), n_streams := (n_streams n)(sid := HCheck aid env es)\<rparr>"
  shows "finite_node m \<and> ledger_step (books n) [] (books m)"
proof -
  have "finite_node m" "l_free (books n) = add_mset (sid, envKey env) (l_free (books m))"
      "l_checked (books m) = add_mset (sid, envKey env) (l_checked (books n))" "l_mailed (books m) = l_mailed (books n)"
    using books_pc [OF assms(1), of m sid "HCheck aid env es"] assms(2,3) by auto
  then show ?thesis using routeI [of "books n" sid "envKey env" "books m"] assms(3) by (simp add: books_def)
qed

lemma ledger_check:
  assumes "finite_node n" and "n_streams n sid = HCheck aid env es"
    and "pc = HUndo aid env es \<or> pc = HEnq aid env es" and "m = n\<lparr>n_streams := (n_streams n)(sid := pc)\<rparr>"
  shows "finite_node m \<and> ledger_step (books n) [] (books m)"
proof (cases "pc = HEnq aid env es")
  case True
  then show ?thesis by (intro ledger_pc [OF assms(1), of m sid pc]) (use assms(2,4) in auto)
next
  case False
  then have "finite_node m" "l_free (books m) = add_mset (sid, envKey env) (l_free (books n))"
      "l_checked (books n) = add_mset (sid, envKey env) (l_checked (books m))" "l_mailed (books m) = l_mailed (books n)"
    using books_pc [OF assms(1), of m sid pc] assms(2-4) by auto
  then show ?thesis using unrouteI [of "books m" sid "envKey env" "books n"] assms(4) by (simp add: books_def)
qed

lemma ledger_undo:
  assumes "finite_node n" and "n_streams n sid = HUndo aid env es"
    and "m = n\<lparr>n_routes := (n_routes n)(envKey env := None), n_streams := (n_streams n)(sid := HForget aid env es)\<rparr>"
  shows "finite_node m \<and> ledger_step (books n) [] (books m)"
proof -
  have "finite_node m" "l_free (books m) = l_free (books n)"
      "l_checked (books m) = l_checked (books n)" "l_mailed (books m) = l_mailed (books n)"
    using books_pc [OF assms(1), of m sid "HForget aid env es"] assms(2,3) by auto
  moreover have "tag sid (pc_free (n_streams n sid)) \<subseteq># l_free (books n)"
    using assms(1) fsum_mset_mem(1) [of "\<lambda>s. tag s (pc_free (n_streams n s))" sid]
    by (auto simp: books_def finite_node_def intro: subset_mset.order_trans)
  ultimately show ?thesis
    using forgetI [of sid "envKey env" "books n" "books m"] assms(2,3) by (auto simp: books_def dest: mset_subset_eqD)
qed

lemma ledger_enq:
  assumes "finite_node n" and "n_streams n sid = HEnq aid env es"
    and "m = (enqueueMail aid env n)\<lparr>n_streams := (n_streams n)(sid := HNext es)\<rparr>"
  shows "finite_node m \<and> ledger_step (books n) [] (books m)"
proof -
  let ?ob = "(n_objs n aid)\<lparr>ob_mail := ob_mail (n_objs n aid) @ [env]\<rparr>"
  have "n_drains m = (n_drains n)(undefined := n_drains n undefined)" using assms(3) by (simp add: enqueueMail_def)
  note b = books_upd [OF assms(1), of m sid "HNext es" aid ?ob undefined, OF _ _ this]
  have "finite_node m" "l_free (books m) = l_free (books n)"
      "l_checked (books n) = add_mset (sid, envKey env) (l_checked (books m))"
      "l_mailed (books m) = add_mset (envKey env) (l_mailed (books n))"
    using b assms(2,3) by (auto simp: enqueueMail_def obj_free_def obj_mailed_def)
  then show ?thesis using mailI [of "books m" "books n" sid "envKey env"] assms(3) by (simp add: books_def enqueueMail_def)
qed

theorem ledger_hb:
  assumes "finite_node n" and "placed n" and "drains_fresh n"
    and "hb_step c now sid (n_streams n sid) n = Some (pc, n', evs)"
    and m: "m = n'\<lparr>n_streams := (n_streams n')(sid := pc)\<rparr>"
  shows "finite_node m \<and> ledger_step (books n) evs (books m)"
proof -
  note pc = ledger_pc [OF assms(1), of m sid pc evs]
  show ?thesis
  proof (cases "n_streams n sid")
    case (HOver es)
    with assms(4) ledger_over [OF assms(1) _ _ m] show ?thesis by simp
  next
    case (HReply r es)
    with assms(4) ledger_reply [OF assms(1) _ _ m] show ?thesis by simp
  next
    case (HNext es)
    then have "hb_step c now sid (HNext es) n = Some (pc, n', evs)" using assms(4) by simp
    note fr = hb_next_frame [OF this]
    show ?thesis by (rule pc) (use HNext m fr in auto)
  next
    case (HKill aid env es)
    then show ?thesis
      by (intro pc) (use assms(3-5) in \<open>auto simp: killAndDrain_def stopObj_def drains_fresh_def\<close>)
  next
    case (HCreate env es)
    with assms(4) ledger_create [OF assms(1,2) _ _ m] show ?thesis by simp
  next
    case (HRoute aid env es)
    with assms(4) ledger_route [OF assms(1), of sid aid env es m] m show ?thesis by auto
  next
    case (HCheck aid env es)
    with assms(4) ledger_check [OF assms(1), of sid aid env es pc m] m show ?thesis by auto
  next
    case (HEnq aid env es)
    with assms(4) ledger_enq [OF assms(1), of sid aid env es m] m show ?thesis by (auto simp: enqueueMail_def)
  next
    case (HUndo aid env es)
    with assms(4) ledger_undo [OF assms(1), of sid aid env es m] m show ?thesis by auto
  next
    case (HForget aid env es)
    then show ?thesis by (intro pc) (use assms(4,5) in \<open>auto simp: deleteActor_frame(1-4,6)\<close>)
  qed ((intro pc; use assms(4,5) in \<open>auto split: option.splits if_splits\<close>)+)
qed


text \<open>Steps of an actor's goroutine and of a draining goroutine.\<close>

lemma books_obj:
  assumes "finite_node n" and "n_streams n' = n_streams n" and "n_objs n' = (n_objs n)(aid := ob)"
    and "n_drains n' = (n_drains n)(d := task)"
  shows "finite_node n'" "l_checked (books n') = l_checked (books n)"
    "l_free (books n') + (obj_free (n_objs n aid) + task_free (n_drains n d)) = l_free (books n) + (obj_free ob + task_free task)"
    "l_mailed (books n') + (obj_mailed (n_objs n aid) + task_mailed (n_drains n d)) = l_mailed (books n) + (obj_mailed ob + task_mailed task)"
    "l_routes (books n') = n_routes n'" "l_routes (books n) = n_routes n"
proof -
  have "n_streams n' = (n_streams n)(undefined := n_streams n undefined)" using assms(2) by simp
  note b = books_upd [OF assms(1) this assms(3,4)]
  show "finite_node n'" by (rule b(1))
  show "l_checked (books n') = l_checked (books n)" using b(3) by simp
  show "l_free (books n') + (obj_free (n_objs n aid) + task_free (n_drains n d)) = l_free (books n) + (obj_free ob + task_free task)"
    using b(2) by (simp add: add_ac)
  show "l_mailed (books n') + (obj_mailed (n_objs n aid) + task_mailed (n_drains n d)) = l_mailed (books n) + (obj_mailed ob + task_mailed task)"
    using b(4) by (simp add: add_ac)
qed (simp_all add: books_def)

lemma Emit_cases:
  assumes "Emit r n = (out, n', evs)"
  obtains "n_routes n (resultRouteKey r) = None" "out = OutNone" "evs = [Dropped (resultRouteKey r)]" "n_routes n' = n_routes n"
  | sid where "n_routes n (resultRouteKey r) = Some sid" "out = OutSend r sid" "evs = []"
      "n_routes n' = (n_routes n)(resultRouteKey r := None)"
  using assms by (cases "n_routes n (resultRouteKey r)") (auto simp: Emit_def takeRoute_def fun_upd_idem)

lemma completeResult_key:
  assumes "placed n" and "env \<in> set (ob_mail (n_objs n aid))"
    and "Handle S st (ob_b (n_objs n aid)) now env = (r, b', st', sp)"
  shows "resultRouteKey (completeResult r env) = envKey env"
  using placedD(4) [OF assms(1,2)] Handle_identity [OF assms(3)]
  by (auto simp: completeResult_def Let_def resultRouteKey_def envKey_def ActorKey_def okey_def)

theorem ledger_obj:
  assumes "finite_node n" and "placed n" and "obj_step c now aid n = Some (n', evs)"
  shows "finite_node n' \<and> ledger_step (books n) evs (books n')"
  using assms(3)
proof (cases rule: obj_step_cases)
  case (emit r out n1)
  note fr = Emit_frame [OF emit(2)]
  have "n_drains n' = (n_drains n)(0 := n_drains n 0)" using emit(3) fr by simp
  note b = books_obj [OF assms(1) _ _ this, of aid "(n_objs n aid)\<lparr>ob_out := out\<rparr>"]
  from emit(2) show ?thesis
  proof (cases rule: Emit_cases)
    case 1
    then show ?thesis using b emit(1,3) fr
      by (auto simp: obj_free_def obj_mailed_def intro!: dropI)
  next
    case (2 sid)
    then show ?thesis using b emit(1,3) fr
      by (auto simp: obj_free_def obj_mailed_def intro!: takeI)
  qed
next
  case (send r reply n1)
  note fr = enqueueResult_frame [OF send(2)]
  have "n_drains n' = (n_drains n)(0 := n_drains n 0)" using send(3) fr by simp
  note b = books_obj [OF assms(1) _ _ this, of aid "(n_objs n aid)\<lparr>ob_out := OutNone\<rparr>"]
  then show ?thesis using send(1,3) fr enqueueResult_Some [OF send(2)]
    by (auto simp: obj_free_def obj_mailed_def intro!: queueI)
next
  case (handle env rest r b' st' sp)
  have key: "resultRouteKey (completeResult r env) = envKey env"
    by (rule completeResult_key [OF assms(2) _ handle(3)]) (simp add: handle(2))
  have "n_drains n' = (n_drains n)(0 := n_drains n 0)" using handle(4) by simp
  note b = books_obj [OF assms(1) _ _ this, of aid
      "(n_objs n aid)\<lparr>ob_b := b', ob_mail := rest, ob_out := OutResult (completeResult r env)\<rparr>"]
  then show ?thesis using handle(1,2,4,5) key
    by (auto simp: obj_free_def obj_mailed_def intro!: stutterI)
next
  case exit
  have "n_drains n' = (n_drains n)(0 := n_drains n 0)" using exit(3) by simp
  note b = books_obj [OF assms(1) _ _ this, of aid "(n_objs n aid)\<lparr>ob_status := statusDead\<rparr>"]
  then show ?thesis using exit by (auto intro!: stutterI)
qed

theorem ledger_drain:
  assumes "finite_node n" and "drain_task_step (n_drains n d) n = Some (task, n1, evs)"
    and "n' = n1\<lparr>n_drains := (n_drains n1)(d := task)\<rparr>"
  shows "finite_node n' \<and> ledger_step (books n) evs (books n')"
proof (cases "n_drains n d")
  case (DWait aid)
  with assms(2) have d: "task = DEmit (ob_mail (n_objs n aid))" "n1 = setObj aid ((n_objs n aid)\<lparr>ob_mail := []\<rparr>) n" "evs = []"
    by (auto split: if_splits)
  note b = books_obj [OF assms(1), of n' aid "(n_objs n aid)\<lparr>ob_mail := []\<rparr>" d task]
  then show ?thesis using d DWait assms(3) by (auto simp: obj_free_def obj_mailed_def intro!: stutterI)
next
  case (DEmit es)
  show ?thesis
  proof (cases es)
    case Nil
    with DEmit assms(2) have d: "task = DNone" "n1 = n" "evs = []" by auto
    have "n_objs n' = (n_objs n)(0 := n_objs n 0)" using d assms(3) by simp
    note b = books_obj [OF assms(1) _ this, of d task]
    then show ?thesis using d DEmit Nil assms(3) by (auto intro!: stutterI)
  next
    case (Cons env es')
    obtain reply where t: "takeRoute (envKey env) n = (reply, n1)"
      and tk: "case reply of None \<Rightarrow> task = DEmit es' \<and> evs = [Dropped (envKey env)]
        | Some sid \<Rightarrow> task = DSend (evictedResult env) sid es' \<and> evs = []"
      using DEmit Cons assms(2) by (auto split: prod.splits option.splits)
    note fr = takeRoute_frame [OF t]
    have "n_objs n' = (n_objs n)(0 := n_objs n 0)" using fr assms(3) by simp
    note b = books_obj [OF assms(1) _ this, of d task]
    show ?thesis
    proof (cases reply)
      case None
      then show ?thesis using b fr tk DEmit Cons assms(3) by (auto intro!: dropI)
    next
      case (Some sid)
      then show ?thesis using b fr tk DEmit Cons assms(3) by (auto intro!: takeI)
    qed
  qed
next
  case (DSend r reply es)
  then have e: "enqueueResult (Some reply) (Some r) n = Some (n1, evs)" "task = DEmit es"
    using assms(2) by (auto split: option.splits prod.splits)
  note fr = enqueueResult_frame [OF e(1)]
  have "n_objs n' = (n_objs n)(0 := n_objs n 0)" using fr assms(3) by simp
  note b = books_obj [OF assms(1) _ this, of d task]
  then show ?thesis using e(2) fr enqueueResult_Some [OF e(1)] DSend assms(3) by (auto intro!: queueI)
qed (use assms(2) in simp)


text \<open>A step that changes neither a stream nor a task and keeps every mailbox and result.\<close>

lemma ledger_frame:
  assumes "finite_node n" and "n_streams n' = n_streams n" "n_drains n' = n_drains n" "n_routes n' = n_routes n"
    and "\<And>a. ob_mail (n_objs n' a) = ob_mail (n_objs n a)" "\<And>a. ob_out (n_objs n' a) = ob_out (n_objs n a)"
  shows "finite_node n' \<and> ledger_step (books n) [] (books n')"
proof -
  have "\<And>a. obj_free (n_objs n' a) = obj_free (n_objs n a)" "\<And>a. obj_mailed (n_objs n' a) = obj_mailed (n_objs n a)"
    using assms(5,6) by (simp_all add: obj_free_def obj_mailed_def)
  then have "books n' = books n" "finite_node n' = finite_node n"
    using assms(2-4) by (simp_all add: books_def finite_node_def)
  then show ?thesis using assms(1) l_stutter [of "books n"] by simp
qed

lemma enqueueResult_ndrain: "enqueueResult reply res n = Some (n', evs) \<Longrightarrow> n_ndrain n' = n_ndrain n"
  by (auto simp: enqueueResult_def split: option.splits if_splits)

lemma hb_step_drains:
  assumes "hb_step c now sid pc0 n = Some (pc, n', evs)"
  shows "(n_drains n' = n_drains n \<and> n_ndrain n' = n_ndrain n) \<or>
    (\<exists>task. n_drains n' = (n_drains n)(n_ndrain n := task) \<and> n_ndrain n' = Suc (n_ndrain n))"
  using assms
  by (cases "(c, now, sid, pc0, n)" rule: hb_step.cases)
    (auto simp: killAndDrain_def stopObj_def enqueueMail_def deleteActor_def createActor_def Let_def
      forceKillLocalActor_def enqueueResult_frame enqueueResult_ndrain
      split: if_splits option.splits prod.splits sum.splits)

lemma obj_step_drains:
  assumes "obj_step c now aid n = Some (n', evs)"
  shows "n_drains n' = n_drains n \<and> n_ndrain n' = n_ndrain n"
  using assms
  by (cases rule: obj_step_cases)
    (auto simp: setObj_def Emit_def takeRoute_def enqueueResult_frame enqueueResult_ndrain split: option.splits)

lemma drain_step_drains:
  assumes "drain_task_step task n = Some (task', n', evs)"
  shows "task \<noteq> DNone \<and> n_drains n' = n_drains n \<and> n_ndrain n' = n_ndrain n"
  using assms
  by (cases "(task, n)" rule: drain_task_step.cases)
    (auto simp: setObj_def takeRoute_def enqueueResult_frame enqueueResult_ndrain split: option.splits if_splits prod.splits)

lemma drains_fresh_step:
  assumes "drains_fresh n" and "nstep c n evs n'"
  shows "drains_fresh n'"
  using assms(2)
proof (cases rule: nstep.cases)
  case (s_hb now sid pc n1)
  with hb_step_drains [OF s_hb(2)] assms(1) show ?thesis by (auto simp: drains_fresh_def)
next
  case (s_obj now aid)
  with obj_step_drains [OF s_obj] assms(1) show ?thesis by (simp add: drains_fresh_def)
next
  case (s_drain d task n1)
  with drain_step_drains [OF s_drain(2)] assms(1) show ?thesis by (auto simp: drains_fresh_def)
next
  case (s_stop pc n1)
  then have "n_drains n1 = n_drains n \<and> n_ndrain n1 = n_ndrain n"
    by (cases "(n_stop n, n)" rule: stop_step.cases) (auto split: if_splits)
  with s_stop assms(1) show ?thesis by (simp add: drains_fresh_def)
next
  case (s_agg i)
  then have "n_drains n' = n_drains n \<and> n_ndrain n' = n_ndrain n"
    by (auto simp: agg_step_def flush_def Let_def split: if_splits agg_input.splits list.splits)
  with assms(1) show ?thesis by (simp add: drains_fresh_def)
qed (use assms(1) in \<open>simp_all add: drains_fresh_def passivateShard_def\<close>)

theorem ledger_refines:
  assumes "finite_node n" and "placed n" and "drains_fresh n" and "nstep c n evs n'"
  shows "finite_node n' \<and> ledger_step (books n) evs (books n')"
  using assms(4)
proof (cases rule: nstep.cases)
  case (s_call sid es)
  then have u: "n_streams n' = (n_streams n)(sid := HStart es)" by simp
  note b = books_pc [OF assms(1) u]
  then show ?thesis using s_call by (auto simp: books_def intro!: submitI)
next
  case (s_hb now sid pc n1)
  show ?thesis by (rule ledger_hb [OF assms(1-3) s_hb(2,1)])
next
  case (s_obj now aid)
  show ?thesis by (rule ledger_obj [OF assms(1,2) s_obj])
next
  case (s_drain d task n1)
  show ?thesis by (rule ledger_drain [OF assms(1) s_drain(2,1)])
next
  case (s_passivate i now)
  show ?thesis unfolding s_passivate(1) 
    by (rule ledger_frame [OF assms(1)]) (use s_passivate in \<open>auto simp: passivateShard_def\<close>)
next
  case (s_stop pc n1)
  from stop_step_frame [OF s_stop(3)] show ?thesis unfolding s_stop(1)
    by (intro ledger_frame [OF assms(1)]) (use s_stop in auto)
next
  case (s_agg i)
  show ?thesis unfolding s_agg(1)
    by (rule ledger_frame [OF assms(1)])
     (use s_agg in \<open>auto simp: agg_step_def flush_def Let_def split: if_splits agg_input.splits list.splits\<close>)
qed (use ledger_frame [OF assms(1), of n'] in simp_all)

end
