(* ===== verification/NodeDelivery.thy ===== *)
theory NodeDelivery
  imports NodeTrace
begin

text \<open>
  What the node sends: the aggregator of \<^verbatim>\<open>internal/node/node.go\<close> delivers the queued results in
  order and in bounded batches, and the books of \<^verbatim>\<open>NodeTrace\<close> say which requests these answer.
\<close>

section \<open>The aggregator\<close>

fun toSend :: "nevent \<Rightarrow> queuedResult list" where
  "toSend (Queued s r) = [(Some r, Some s)]"
| "toSend _ = []"

definition results :: "nevent list \<Rightarrow> nat \<Rightarrow> RemoteResult list" where
  "results tr s = group s (concat (map toSend tr))"

lemma results_simps [simp]: "results [] s = []" "results (xs @ ys) s = results xs s @ results ys s"
  by (simp_all add: results_def)

text \<open>Only the aggregator takes results out of the channel, and only \<^verbatim>\<open>Queued\<close> events put them in.\<close>

lemma enqueueResult_ch:
  "enqueueResult (Some s) (Some r) n = Some (n', evs) \<Longrightarrow>
     n_resultCh n' = n_resultCh n @ [(Some r, Some s)] \<and> evs = [Queued s r] \<and> n_batch n' = n_batch n \<and>
     n_sent n' = n_sent n \<and> length (n_resultCh n) < resultChCap"
  by (auto simp: enqueueResult_def split: if_splits)

definition keeps_queue :: "'st Node \<Rightarrow> nevent list \<Rightarrow> 'st Node \<Rightarrow> bool" where
  "keeps_queue n evs n' \<longleftrightarrow> n_resultCh n' = n_resultCh n @ concat (map toSend evs) \<and> n_batch n' = n_batch n \<and>
     n_sent n' = n_sent n \<and> (length (n_resultCh n) \<le> resultChCap \<longrightarrow> length (n_resultCh n') \<le> resultChCap)"

lemma hb_keeps_queue: "hb_step c now sid pc0 n = Some (pc, n', evs) \<Longrightarrow> keeps_queue n evs n'"
  by (cases "(c, now, sid, pc0, n)" rule: hb_step.cases)
    (auto simp: keeps_queue_def killAndDrain_def stopObj_def enqueueMail_def deleteActor_def createActor_def Let_def
      forceKillLocalActor_def dest!: enqueueResult_ch
      split: if_splits option.splits prod.splits sum.splits)

lemma obj_keeps_queue: "obj_step c now aid n = Some (n', evs) \<Longrightarrow> keeps_queue n evs n'"
  by (cases rule: obj_step_cases, assumption)
    (auto simp: keeps_queue_def setObj_def Emit_def takeRoute_def dest!: enqueueResult_ch split: option.splits)

lemma drain_keeps_queue: "drain_task_step task n = Some (task', n', evs) \<Longrightarrow> keeps_queue n evs n'"
  by (cases "(task, n)" rule: drain_task_step.cases)
    (auto simp: keeps_queue_def setObj_def takeRoute_def dest!: enqueueResult_ch split: option.splits if_splits prod.splits)

definition outgoing :: "nat \<Rightarrow> 'st Node \<Rightarrow> RemoteResult list" where
  "outgoing s n = concat (n_sent n s) @ group s (n_batch n) @ group s (n_resultCh n)"

definition batches_ok :: "'st Node \<Rightarrow> bool" where
  "batches_ok n \<longleftrightarrow> (\<forall>s. \<forall>b \<in> set (n_sent n s). 0 < length b \<and> length b \<le> maxBatchSize) \<and>
     length (n_batch n) < maxBatchSize \<and> length (n_resultCh n) \<le> resultChCap"

lemma keeps_queue_outgoing:
  "keeps_queue n evs n' \<Longrightarrow> outgoing s n' = outgoing s n @ results evs s \<and> (batches_ok n \<longrightarrow> batches_ok n')"
  by (auto simp: keeps_queue_def outgoing_def results_def batches_ok_def)

lemma flush_outgoing: "outgoing s (flush n) = outgoing s n"
  by (simp add: outgoing_def flush_def concat_slices)

lemma flush_batches:
  assumes "\<forall>s. \<forall>b \<in> set (n_sent n s). 0 < length b \<and> length b \<le> maxBatchSize" and "length (n_resultCh n) \<le> resultChCap"
  shows "batches_ok (flush n)"
proof -
  have "0 < length b \<and> length b \<le> maxBatchSize" if "b \<in> set (n_sent (flush n) s)" for b s
    using that assms(1) slices_bound [of b "group s (n_batch n)" 0] by (auto simp: flush_def split: if_splits)
  then show ?thesis using assms(2) by (auto simp: batches_ok_def flush_def maxBatchSize_def)
qed

lemma outgoing_frame:
  "n_sent n' = n_sent n \<Longrightarrow> n_batch n' = n_batch n \<Longrightarrow> n_resultCh n' = n_resultCh n \<Longrightarrow>
     outgoing s n' = outgoing s n \<and> batches_ok n' = batches_ok n"
  by (simp add: outgoing_def batches_ok_def)

lemma outgoing_upd [simp]:
  "outgoing s (n\<lparr>n_streams := f\<rparr>) = outgoing s n" "batches_ok (n\<lparr>n_streams := f\<rparr>) = batches_ok n"
  "outgoing s (n\<lparr>n_drains := g\<rparr>) = outgoing s n" "batches_ok (n\<lparr>n_drains := g\<rparr>) = batches_ok n"
  "outgoing s (n\<lparr>n_stop := p\<rparr>) = outgoing s n" "batches_ok (n\<lparr>n_stop := p\<rparr>) = batches_ok n"
  "outgoing s (n\<lparr>n_aggRunning := b\<rparr>) = outgoing s n" "batches_ok (n\<lparr>n_aggRunning := b\<rparr>) = batches_ok n"
  by (simp_all add: outgoing_def batches_ok_def)

lemma agg_outgoing:
  assumes "agg_step i n = Some n'" and "batches_ok n"
  shows "outgoing s n' = outgoing s n \<and> batches_ok n'"
proof -
  have flush: "batches_ok (flush n)" by (rule flush_batches) (use assms(2) in \<open>simp_all add: batches_ok_def\<close>)
  show ?thesis
  proof (cases i)
    case AggResult
    then obtain q rest where q: "n_resultCh n = q # rest" using assms(1)
      by (auto simp: agg_step_def split: if_splits list.splits)
    let ?n1 = "n\<lparr>n_resultCh := rest, n_batch := n_batch n @ [q]\<rparr>"
    have n': "n' = (if length (n_batch ?n1) \<ge> maxBatchSize then flush ?n1 else ?n1)"
      using assms(1) AggResult q by (simp add: agg_step_def Let_def split: if_splits)
    have "group s (q # rest) = group s [q] @ group s rest" by (metis append_Cons append_Nil group_append)
    then have "outgoing s ?n1 = outgoing s n" using q by (simp add: outgoing_def)
    moreover have "batches_ok n'"
    proof (cases "length (n_batch ?n1) \<ge> maxBatchSize")
      case True
      then have "n' = flush ?n1" using n' by simp
      moreover have "batches_ok (flush ?n1)" by (rule flush_batches) (use assms(2) q in \<open>simp_all add: batches_ok_def\<close>)
      ultimately show ?thesis by simp
    qed (use n' assms(2) q in \<open>auto simp: batches_ok_def\<close>)
    ultimately show ?thesis using n' by (simp add: flush_outgoing)
  next
    case AggDone
    then have "n' = (flush n)\<lparr>n_aggRunning := False\<rparr>" using assms(1) by (auto simp: agg_step_def split: if_splits)
    then show ?thesis using flush_outgoing [of s n] flush by simp
  next
    case AggTick
    then have "n' = flush n" using assms(1) by (auto simp: agg_step_def split: if_splits)
    then show ?thesis using flush_outgoing [of s n] flush by simp
  qed
qed

theorem nstep_outgoing:
  assumes "nstep c n evs n'" and "batches_ok n"
  shows "outgoing s n' = outgoing s n @ results evs s \<and> batches_ok n'"
  using assms(1)
proof (cases rule: nstep.cases)
  case (s_call sid es)
  then show ?thesis using assms(2) by (simp add: results_def)
next
  case (s_hb now sid pc n1)
  with keeps_queue_outgoing [OF hb_keeps_queue [OF s_hb(2)], of s] assms(2) show ?thesis by simp
next
  case (s_obj now aid)
  with keeps_queue_outgoing [OF obj_keeps_queue [OF s_obj], of s] assms(2) show ?thesis by simp
next
  case (s_drain d task n1)
  with keeps_queue_outgoing [OF drain_keeps_queue [OF s_drain(2)], of s] assms(2) show ?thesis by simp
next
  case (s_stop pc n1)
  then have "outgoing s n1 = outgoing s n \<and> batches_ok n1 = batches_ok n"
    using stop_step_frame [OF s_stop(3)] by (intro outgoing_frame) auto
  with s_stop assms(2) show ?thesis by simp
next
  case (s_agg i)
  with agg_outgoing [OF s_agg(2) assms(2)] show ?thesis by simp
qed (use assms(2) outgoing_frame [of n' n s] in \<open>simp_all add: passivateShard_def\<close>)

section \<open>Runs from a new node\<close>

definition node_inv :: "nevent list \<Rightarrow> 'st Node \<Rightarrow> bool" where
  "node_inv tr n \<longleftrightarrow> placed n \<and> finite_node n \<and> drains_fresh n \<and> batches_ok n \<and>
     ledger_run empty_ledger tr (books n) \<and> (\<forall>s. outgoing s n = results tr s)"

lemma NewNode_inv:
  assumes "NewNode store resolver ip limit st = (c, n)"
  shows "node_inv [] n"
proof -
  have n: "n_streams n = (\<lambda>_. HIdle)" "n_objs n = (\<lambda>_. noObj)" "n_drains n = (\<lambda>_. DNone)" "n_routes n = (\<lambda>_. None)"
    "n_shards n = (\<lambda>_ _. None)" "n_batch n = []" "n_resultCh n = []" "n_sent n = (\<lambda>_. [])"
    using assms by (auto simp: NewNode_def)
  have z: "obj_free noObj = {#}" "obj_mailed noObj = {#}" by (simp_all add: obj_free_def obj_mailed_def)
  have "books n = empty_ledger"
    using n z by (simp add: books_def empty_ledger_def)
  then have "ledger_run empty_ledger [] (books n)" using ledger_refl [of empty_ledger] by simp
  moreover have "finite_node n" using n z by (simp add: finite_node_def)
  moreover have "placed n" using n by (intro placedI) auto
  ultimately show ?thesis
    using n by (simp add: node_inv_def drains_fresh_def batches_ok_def outgoing_def maxBatchSize_def)
qed

lemma node_inv_step:
  assumes "node_inv tr n" and "nstep c n evs n'"
  shows "node_inv (tr @ evs) n'"
proof -
  note i = assms(1) [unfolded node_inv_def]
  have "finite_node n' \<and> ledger_step (books n) evs (books n')" by (rule ledger_refines [OF _ _ _ assms(2)]) (use i in auto)
  moreover have "placed n'" by (rule placed_step [OF _ assms(2)]) (use i in auto)
  moreover have "drains_fresh n'" by (rule drains_fresh_step [OF _ assms(2)]) (use i in auto)
  ultimately show ?thesis
    using i nstep_outgoing [OF assms(2)] ledger_next [of empty_ledger tr "books n" evs "books n'"]
    by (auto simp: node_inv_def)
qed

theorem node_inv_run:
  assumes "nrun c n tr n'" and "NewNode store resolver ip limit st = (c, n)"
  shows "node_inv tr n'"
  using assms
proof (induction rule: nrun.induct)
  case (nrun_refl n)
  then show ?case by (rule NewNode_inv)
next
  case (nrun_step n tr n' evs n'')
  then show ?case by (blast intro: node_inv_step)
qed

section \<open>Schedules\<close>

text \<open>An executable choice of the next step, for running the node on a concrete input.\<close>

datatype nchoice = CCall nat "RemoteEnvelope option list" | CStream int64 nat | CActor int64 nat | CDrain nat
  | CPassivate int64 nat | CStop | CAgg agg_input

fun nexec1 :: "'st NodeConfig \<Rightarrow> nchoice \<Rightarrow> 'st Node \<Rightarrow> (nevent list \<times> 'st Node) option" where
  "nexec1 c (CCall sid es) n = (if n_streams n sid = HIdle
     then Some ([Submitted sid es], n\<lparr>n_streams := (n_streams n)(sid := HStart es)\<rparr>) else None)"
| "nexec1 c (CStream now sid) n = (case hb_step c now sid (n_streams n sid) n of None \<Rightarrow> None
     | Some (pc, n', evs) \<Rightarrow> Some (evs, n'\<lparr>n_streams := (n_streams n')(sid := pc)\<rparr>))"
| "nexec1 c (CActor now aid) n = (case obj_step c now aid n of None \<Rightarrow> None | Some (n', evs) \<Rightarrow> Some (evs, n'))"
| "nexec1 c (CDrain d) n = (case drain_task_step (n_drains n d) n of None \<Rightarrow> None
     | Some (task, n', evs) \<Rightarrow> Some (evs, n'\<lparr>n_drains := (n_drains n')(d := task)\<rparr>))"
| "nexec1 c (CPassivate now i) n = (if \<not> n_done n \<and> i < 256 then Some ([], passivateShard now i n) else None)"
| "nexec1 c CStop n = (case stop_step (n_stop n) n of None \<Rightarrow> None | Some (pc, n') \<Rightarrow> Some ([], n'\<lparr>n_stop := pc\<rparr>))"
| "nexec1 c (CAgg i) n = (case agg_step i n of None \<Rightarrow> None | Some n' \<Rightarrow> Some ([], n'))"

fun nexec :: "'st NodeConfig \<Rightarrow> nchoice list \<Rightarrow> 'st Node \<Rightarrow> (nevent list \<times> 'st Node) option" where
  "nexec c [] n = Some ([], n)"
| "nexec c (x # xs) n = (case nexec1 c x n of None \<Rightarrow> None
     | Some (es, n1) \<Rightarrow> (case nexec c xs n1 of None \<Rightarrow> None | Some (tr, n2) \<Rightarrow> Some (es @ tr, n2)))"

lemma nexec1_nstep: "nexec1 c x n = Some (evs, n') \<Longrightarrow> nstep c n evs n'"
  by (cases "(c, x, n)" rule: nexec1.cases) (auto intro: nstep.intros split: if_splits option.splits)

lemma nrun_cons: "nrun c n1 tr n2 \<Longrightarrow> nstep c n evs n1 \<Longrightarrow> nrun c n (evs @ tr) n2"
proof (induction rule: nrun.induct)
  case (nrun_refl n1)
  then show ?case using nrun.nrun_step [OF nrun.nrun_refl, of c n evs] by simp
next
  case (nrun_step n1 tr n2 evs' n3)
  then show ?case using nrun.nrun_step [of c n "evs @ tr" n2 evs' n3] by simp
qed

lemma nexec_nrun: "nexec c xs n = Some (tr, n') \<Longrightarrow> nrun c n tr n'"
proof (induction xs arbitrary: n tr)
  case Nil
  then show ?case by (auto intro: nrun_refl)
next
  case (Cons x xs)
  then obtain es n1 tr' where "nexec1 c x n = Some (es, n1)" "nexec c xs n1 = Some (tr', n')" "tr = es @ tr'"
    by (auto split: option.splits prod.splits)
  with Cons.IH show ?case by (metis nrun_cons nexec1_nstep)
qed

text \<open>Two streams, one wallet: a deposit on stream 1 and a bad request on stream 2.\<close>

definition demo_node :: "mem_db CassandraStore NodeConfig \<times> mem_db CassandraStore Node" where
  "demo_node = NewNode (cassandra_Store mem_session) None ''10.0.0.1'' 0 demo_st"

definition demo_bad :: RemoteEnvelope where
  "demo_bad = (demo_env [] 5)\<lparr>env_RequestId := 2\<rparr>"

definition node_schedule :: "nchoice list" where
  "node_schedule = [CCall 1 [Some (demo_env ''a'' 100)], CCall 2 [Some demo_bad]] @
     replicate 8 (CStream 3 1) @ replicate 4 (CStream 3 2) @ replicate 3 (CActor 3 0) @
     [CAgg AggResult, CAgg AggResult, CAgg AggTick]"

text \<open>Nothing is under way: no call, no message, no result.\<close>

definition quiescent :: "'st Node \<Rightarrow> bool" where
  "quiescent n \<longleftrightarrow> (\<forall>s. n_streams n s = HIdle) \<and> (\<forall>a. ob_mail (n_objs n a) = [] \<and> ob_out (n_objs n a) = OutNone) \<and>
     (\<forall>d. n_drains n d = DNone \<or> (\<exists>a. n_drains n d = DWait a)) \<and> n_batch n = [] \<and> n_resultCh n = []"

lemma slices_short: "xs \<noteq> [] \<Longrightarrow> length xs \<le> maxBatchSize \<Longrightarrow> slices xs 0 = [xs]"
  by (subst slices.simps, simp add: Let_def) (subst slices.simps, simp)

lemma demo_keys:
  "envKey (demo_env ''a'' 100) = (1, 7, 1)" "ActorKey (demo_env ''a'' 100) = (1, 7)" "\<not> badRequest (demo_env ''a'' 100)"
  "badRequest demo_bad" "envKey demo_bad = (1, 7, 2)" "shardIndex (1, 7) = 6" "\<not> (1500000 :: uint64) \<le> 1"
  by (simp_all add: envKey_def ActorKey_def badRequest_def demo_bad_def demo_env_def shardIndex_def word_le_nat_alt)

lemmas demo_eval = node_schedule_def demo_node_def NewNode_def replicate_numeral demo_keys mailboxPending_def
  defaultMailboxLimit_def isOwner_def createActor_def Let_def demo_rehydrate enqueueMail_def enqueueResult_def
  resultChCap_def setObj_def obj_step_def agg_step_def maxBatchSize_def Emit_def takeRoute_def flush_def
  quiescent_def slices_short

lemma node_demo_run:
  "\<exists>r tr n. nexec (fst demo_node) node_schedule (snd demo_node) = Some (tr, n) \<and>
     submitted tr = {#(1, 1, 7, 1), (2, 1, 7, 2)#} \<and> quiescent n \<and>
     n_sent n 1 = [[r]] \<and> resultRouteKey r = (1, 7, 1) \<and> n_sent n 2 = [[badRequestResult demo_bad]]"
proof -
  obtain r where h: "Handle (cassandra_Store mem_session) demo_st (newBusinessActor 1 7 3) 3 (demo_env ''a'' 100) =
     (r, committed (newBusinessActor 1 7 3) 3 (demo_env ''a'' 100), demo_st1, [])"
    using demo_handle by blast
  define r' where "r' = completeResult r (demo_env ''a'' 100)"
  have key: "resultRouteKey r' = (1, 7, 1)"
    using Handle_identity [OF h]
    by (auto simp: r'_def completeResult_def Let_def resultRouteKey_def newBusinessActor_def demo_env_def)
  show ?thesis by (rule exI [of _ r']) (simp add: demo_eval h key flip: r'_def)
qed

section \<open>Properties\<close>

text \<open>
  C12: The node keeps the books: every run of the process, with any number of streams, actors,
  evictions, passivations and shutdown interleaved, is a run of the abstract ledger.
\<close>

theorem node_refines_ledger:
  assumes "NewNode store resolver ip limit st = (c, n0)" and "nrun c n0 tr n"
  shows "ledger_run empty_ledger tr (books n)"
  using node_inv_run [OF assms(2,1)] by (simp add: node_inv_def)

theorem node_refines_ledger_witness:
  "\<exists>tr n. nexec (fst demo_node) node_schedule (snd demo_node) = Some (tr, n) \<and>
     submitted tr = {#(1, 1, 7, 1), (2, 1, 7, 2)#} \<and> ledger_run empty_ledger tr (books n)"
proof -
  obtain tr n where x: "nexec (fst demo_node) node_schedule (snd demo_node) = Some (tr, n)"
    "submitted tr = {#(1, 1, 7, 1), (2, 1, 7, 2)#}" using node_demo_run by blast
  from node_refines_ledger [OF _ nexec_nrun [OF x(1)], of "cassandra_Store mem_session" None "''10.0.0.1''" 0 demo_st] x
  show ?thesis by (auto simp: demo_node_def)
qed

lemma results_queued: "r \<in> set (results tr s) \<Longrightarrow> (s, resultRouteKey r) \<in># queued tr"
proof (induction tr)
  case (Cons e tr)
  then show ?case by (cases e) (auto simp: results_def split: if_splits)
qed simp

text \<open>
  C10: Answers go where they belong. In every run, each result a stream has been sent carries the
  key of a request that this stream submitted; results are sent in the order in which they were
  queued, none twice; no request is answered more often than it was submitted, over all streams;
  and every batch sent holds between 1 and 1000 results.
\<close>

theorem answers_belong:
  assumes "NewNode store resolver ip limit st = (c, n0)" and "nrun c n0 tr n"
  shows "(\<forall>r \<in> set (concat (n_sent n s)). (s, resultRouteKey r) \<in># submitted tr) \<and>
    (\<exists>rest. results tr s = concat (n_sent n s) @ rest) \<and>
    image_mset snd (queued tr) \<subseteq># image_mset snd (submitted tr) \<and>
    (\<forall>b \<in> set (n_sent n s). 0 < length b \<and> length b \<le> 1000)"
proof (intro conjI)
  note i = node_inv_run [OF assms(2,1), unfolded node_inv_def]
  have rs: "results tr s = concat (n_sent n s) @ group s (n_batch n) @ group s (n_resultCh n)"
    using i by (simp add: outgoing_def)
  then show "\<exists>rest. results tr s = concat (n_sent n s) @ rest" by blast
  have "set_mset (queued tr) \<subseteq> set_mset (submitted tr)"
    using ledger_sound_run [of tr "books n"] i by (simp add: ledger_sound_def)
  then show "\<forall>r \<in> set (concat (n_sent n s)). (s, resultRouteKey r) \<in># submitted tr"
    using rs results_queued [of _ tr s] by auto
  show "image_mset snd (queued tr) \<subseteq># image_mset snd (submitted tr)"
    using ledger_conserves [of tr "books n"] i by simp
  show "\<forall>b \<in> set (n_sent n s). 0 < length b \<and> length b \<le> 1000"
    using i by (simp add: batches_ok_def maxBatchSize_def)
qed

theorem answers_belong_witness:
  "\<exists>r. resultRouteKey r = (1, 7, 1) \<and> (\<exists>tr n. nexec (fst demo_node) node_schedule (snd demo_node) = Some (tr, n) \<and>
     n_sent n 1 = [[r]] \<and> (1, resultRouteKey r) \<in># submitted tr)"
proof -
  obtain r tr n where x: "nexec (fst demo_node) node_schedule (snd demo_node) = Some (tr, n)"
    "n_sent n 1 = [[r]]" "resultRouteKey r = (1, 7, 1)" using node_demo_run by blast
  from answers_belong [OF _ nexec_nrun [OF x(1)], of "cassandra_Store mem_session" None "''10.0.0.1''" 0 demo_st 1] x
  show ?thesis by (auto simp: demo_node_def)
qed

lemma results_mset: "mset (map (\<lambda>r. (s, resultRouteKey r)) (results tr s)) = filter_mset (\<lambda>p. fst p = s) (queued tr)"
proof (induction tr)
  case (Cons e tr)
  then show ?case by (cases e) (auto simp: results_def)
qed simp

lemma quiescent_books: "quiescent n \<Longrightarrow> answering (books n) = {#}"
proof -
  assume q: "quiescent n"
  then have "task_free (n_drains n d) = {#}" "task_mailed (n_drains n d) = {#}" for d
    unfolding quiescent_def by (metis task_free.simps(2,3) task_mailed.simps(3,4))+
  with q show ?thesis
    by (simp add: answering_def books_def quiescent_def obj_free_def obj_mailed_def)
qed

lemma answered_exactly:
  assumes "NewNode store resolver ip limit st = (c, n0)" and "nrun c n0 tr n" and "distinct_keys tr"
  shows "dropped tr = {#} \<and> image_mset snd (submitted tr) = image_mset snd (queued tr) + answering (books n) \<and>
    (quiescent n \<longrightarrow> (\<forall>s. mset (map (\<lambda>r. (s, resultRouteKey r)) (concat (n_sent n s))) =
      filter_mset (\<lambda>p. fst p = s) (submitted tr)))"
proof -
  note i = node_inv_run [OF assms(2,1), unfolded node_inv_def]
  have drop: "dropped tr = {#}" using ledger_tight_run [OF _ assms(3), of "books n"] i by (simp add: ledger_tight_def)
  with ledger_conserves [of tr "books n"] i
  have cons: "image_mset snd (submitted tr) = image_mset snd (queued tr) + answering (books n)" by simp
  have "mset (map (\<lambda>r. (s, resultRouteKey r)) (concat (n_sent n s))) = filter_mset (\<lambda>p. fst p = s) (submitted tr)"
    if "quiescent n" for s
  proof -
    have "submitted tr = queued tr"
    proof (rule mset_eq_by_snd)
      show "image_mset snd (submitted tr) = image_mset snd (queued tr)"
        using cons quiescent_books [OF that] by simp
      show "set_mset (queued tr) \<subseteq> set_mset (submitted tr)"
        using ledger_sound_run [of tr "books n"] i by (simp add: ledger_sound_def)
    qed (use assms(3) in \<open>simp add: distinct_keys_def\<close>)
    moreover have "concat (n_sent n s) = results tr s" using i that by (simp add: outgoing_def quiescent_def)
    ultimately show ?thesis using results_mset [of s tr] by simp
  qed
  with drop cons show ?thesis by blast
qed

text \<open>
  C7: With unique request keys every request is answered on its own stream. When no key
  (tenant, user, request identifier) is submitted twice in a run, the node never drops a result;
  and once nothing is under way, the results each stream was sent answer exactly the requests it
  submitted, each once, whatever evictions, passivations and retries happened.
\<close>

theorem unique_requests_answered:
  assumes "NewNode store resolver ip limit st = (c, n0)" and "nrun c n0 tr n" and "distinct_keys tr"
  shows "dropped tr = {#} \<and> image_mset snd (submitted tr) = image_mset snd (queued tr) + answering (books n) \<and>
    (quiescent n \<longrightarrow> (\<forall>s. mset (map (\<lambda>r. (s, resultRouteKey r)) (concat (n_sent n s))) =
      filter_mset (\<lambda>p. fst p = s) (submitted tr)))"
  by (rule answered_exactly [OF assms])

theorem unique_requests_answered_witness:
  "\<exists>tr n. nexec (fst demo_node) node_schedule (snd demo_node) = Some (tr, n) \<and> quiescent n \<and> distinct_keys tr \<and>
     mset (map (\<lambda>r. (2 :: nat, resultRouteKey r)) (concat (n_sent n 2))) = {#(2, 1, 7, 2)#}"
proof -
  obtain tr n where x: "nexec (fst demo_node) node_schedule (snd demo_node) = Some (tr, n)"
    "submitted tr = {#(1, 1, 7, 1), (2, 1, 7, 2)#}" "quiescent n" using node_demo_run by blast
  then have d: "distinct_keys tr" by (simp add: distinct_keys_def)
  from unique_requests_answered [OF _ nexec_nrun [OF x(1)] d, of "cassandra_Store mem_session" None "''10.0.0.1''" 0 demo_st]
    x(2,3) have "mset (map (\<lambda>r. (2 :: nat, resultRouteKey r)) (concat (n_sent n 2))) = {#(2, 1, 7, 2)#}"
    by (auto simp: demo_node_def elim!: allE [of _ 2])
  with x d show ?thesis by (intro exI [of _ tr] exI [of _ n]) simp
qed

text \<open>
  C38: Actors are isolated. In every run an actor is only found in the shard of its key and under
  its own key, and every message in an actor's mailbox, whether the actor is in the table, evicted
  or stopping, is addressed to that actor's tenant and user.
\<close>

theorem actors_isolated:
  assumes "NewNode store resolver ip limit st = (c, n0)" and "nrun c n0 tr n"
  shows "(\<forall>i k aid. n_shards n i k = Some aid \<longrightarrow> i = shardIndex k \<and> i < 256 \<and>
      (ba_tenantID (ob_b (n_objs n aid)), ba_uid (ob_b (n_objs n aid))) = k) \<and>
    (\<forall>aid env. env \<in> set (ob_mail (n_objs n aid)) \<longrightarrow>
      env_TenantId env = ba_tenantID (ob_b (n_objs n aid)) \<and> env_Uid env = ba_uid (ob_b (n_objs n aid)))"
proof -
  have p: "placed n" using node_inv_run [OF assms(2,1)] by (simp add: node_inv_def)
  have "i = shardIndex k \<and> i < 256" if "n_shards n i k = Some aid" for i k aid
    using placedD(1) [OF p that] shardIndex_bound by simp
  then show ?thesis using placedD(3,4) [OF p] by (auto simp: okey_def ActorKey_def)
qed

lemma demo_prefix:
  "\<exists>tr n. nexec (fst demo_node) (take 8 node_schedule) (snd demo_node) = Some (tr, n) \<and> n_shards n 6 (1, 7) = Some 0"
  by (simp add: demo_eval)

theorem actors_isolated_witness:
  "\<exists>tr n. nexec (fst demo_node) (take 8 node_schedule) (snd demo_node) = Some (tr, n) \<and>
     n_shards n 6 (1, 7) = Some 0 \<and> ba_uid (ob_b (n_objs n 0)) = 7"
proof -
  obtain tr n where x: "nexec (fst demo_node) (take 8 node_schedule) (snd demo_node) = Some (tr, n)"
    "n_shards n 6 (1, 7) = Some 0" using demo_prefix by blast
  from actors_isolated [OF _ nexec_nrun [OF x(1)], of "cassandra_Store mem_session" None "''10.0.0.1''" 0 demo_st] x
  show ?thesis by (auto simp: demo_node_def)
qed

section \<open>A call on its own\<close>

fun hb_alone :: "'st NodeConfig \<Rightarrow> int64 \<Rightarrow> nat \<Rightarrow> nat \<Rightarrow> 'st Node \<Rightarrow> 'st Node option" where
  "hb_alone c now sid 0 n = Some n"
| "hb_alone c now sid (Suc k) n = (case hb_step c now sid (n_streams n sid) n of None \<Rightarrow> None
     | Some (pc, n', evs) \<Rightarrow> hb_alone c now sid k (n'\<lparr>n_streams := (n_streams n')(sid := pc)\<rparr>))"

lemma hb_alone_add:
  "hb_alone c now sid j n = Some n1 \<Longrightarrow> hb_alone c now sid k n1 = Some n2 \<Longrightarrow> hb_alone c now sid (j + k) n = Some n2"
  by (induction j arbitrary: n) (auto split: option.splits)








lemma alone_over:
  assumes "n_streams n sid = HOver es" and "length (n_resultCh n) + length es \<le> resultChCap"
  shows "\<exists>n'. hb_alone c now sid (length es + 1) n = Some n' \<and> n_streams n' sid = HIdle \<and>
    n_resultCh n' = n_resultCh n @ map (\<lambda>env. (Some (overloadResult env), Some sid)) (concat (map (\<lambda>e. case e of None \<Rightarrow> [] | Some x \<Rightarrow> [x]) es)) \<and>
    n_objs n' = n_objs n \<and> n_shards n' = n_shards n \<and> n_routes n' = n_routes n \<and> n_store n' = n_store n"
  using assms
proof (induction es arbitrary: n)
  case (Cons e es)
  then show ?case
  proof (cases e)
    case None
    then show ?thesis using Cons.prems Cons.IH [of "n\<lparr>n_streams := (n_streams n)(sid := HOver es)\<rparr>"] by simp
  next
    case (Some env)
    then show ?thesis using Cons.prems
      Cons.IH [of "n\<lparr>n_resultCh := n_resultCh n @ [(Some (overloadResult env), Some sid)], n_streams := (n_streams n)(sid := HOver es)\<rparr>"]
      by (simp add: enqueueResult_def)
  qed
qed simp




text \<open>
  C40: Load shedding touches no wallet. When the mailbox backlog has reached the limit, a call answers
  every non-nil envelope of the batch with the overload error, in order and on the calling stream,
  and changes no actor, no shard, no reply route and nothing in the store.
\<close>

theorem overload_sheds:
  assumes "n_streams n sid = HStart es" and "nc_mailboxLimit c \<le> mailboxPending n"
    and "length (n_resultCh n) + length es \<le> resultChCap"
  shows "\<exists>n'. hb_alone c now sid (length es + 2) n = Some n' \<and> n_streams n' sid = HIdle \<and>
    n_resultCh n' = n_resultCh n @ map (\<lambda>env. (Some (overloadResult env), Some sid)) (concat (map (\<lambda>e. case e of None \<Rightarrow> [] | Some x \<Rightarrow> [x]) es)) \<and>
    n_objs n' = n_objs n \<and> n_shards n' = n_shards n \<and> n_routes n' = n_routes n \<and> n_store n' = n_store n"
proof -
  let ?n = "n\<lparr>n_streams := (n_streams n)(sid := HOver es)\<rparr>"
  have "hb_alone c now sid 1 n = Some ?n" using assms(1,2) by simp
  from hb_alone_add [OF this] alone_over [of ?n sid es c now] assms(3) show ?thesis by fastforce
qed

theorem overload_sheds_witness:
  "\<exists>n'. hb_alone ((fst demo_node)\<lparr>nc_mailboxLimit := 0\<rparr>) 3 1 4
     ((snd demo_node)\<lparr>n_streams := (\<lambda>_. HIdle)(1 := HStart [None, Some (demo_env ''a'' 100)])\<rparr>) = Some n' \<and>
     n_resultCh n' = [(Some (overloadResult (demo_env ''a'' 100)), Some 1)]"
proof -
  let ?n = "(snd demo_node)\<lparr>n_streams := (\<lambda>_. HIdle)(1 := HStart [None, Some (demo_env ''a'' 100)])\<rparr>"
  have "n_streams ?n 1 = HStart [None, Some (demo_env ''a'' 100)]"
    "nc_mailboxLimit ((fst demo_node)\<lparr>nc_mailboxLimit := 0\<rparr>) \<le> mailboxPending ?n"
    "length (n_resultCh ?n) + length [None, Some (demo_env ''a'' 100)] \<le> resultChCap" "n_resultCh ?n = []"
    by (simp_all add: demo_node_def NewNode_def resultChCap_def)
  with overload_sheds [OF this(1-3), of 3] show ?thesis by (auto simp: numeral_eq_Suc)
qed

section \<open>Shutdown and passivation\<close>

lemma nexec_append:
  "nexec c (xs @ ys) n = (case nexec c xs n of None \<Rightarrow> None
     | Some (tr, n1) \<Rightarrow> (case nexec c ys n1 of None \<Rightarrow> None | Some (tr', n2) \<Rightarrow> Some (tr @ tr', n2)))"
  by (induction xs arbitrary: n) (auto split: option.splits prod.splits)

lemma stop_empty_shards:
  assumes "n_stop n = NStopShard i {}" and "n_shards n = (\<lambda>_ _. None)" and "i + k = 256"
  shows "nexec c (replicate k CStop) n = Some ([], n\<lparr>n_stop := NStopShard 256 {}\<rparr>)"
  using assms
proof (induction k arbitrary: i n)
  case (Suc k)
  then have "stop_step (n_stop n) n = Some (NStopShard (Suc i) {}, n)"
    by (simp add: stopAll_empty fun_upd_idem)
  with Suc.IH [of "n\<lparr>n_stop := NStopShard (Suc i) {}\<rparr>" "Suc i"] Suc.prems show ?case by simp
qed simp

text \<open>
  A result that was in the result channel before \<^verbatim>\<open>Stop\<close> was called need not be sent: the aggregator
  may take the closed \<^verbatim>\<open>done\<close> channel first, flushes only its batch, and returns.
\<close>

definition shutdown_schedule :: "nchoice list" where
  "shutdown_schedule = [CCall 2 [Some demo_bad]] @ replicate 4 (CStream 3 2) @ [CStop] @ replicate 256 CStop @
     [CStop, CStop, CAgg AggDone]"

lemma stop_loses_queued_result:
  "\<exists>tr n. nexec (fst demo_node) shutdown_schedule (snd demo_node) = Some (tr, n) \<and> n_stop n = NStopped \<and>
     results tr 2 = [badRequestResult demo_bad] \<and> n_sent n 2 = [] \<and> (\<forall>i. agg_step i n = None)"
proof -
  define xs where "xs = [CCall 2 [Some demo_bad]] @ replicate 4 (CStream 3 2) @ [CStop]"
  define ys where "ys = replicate 256 CStop @ [CStop, CStop, CAgg AggDone]"
  have "\<exists>n tr. nexec (fst demo_node) xs (snd demo_node) = Some (tr, n) \<and>
     results tr 2 = [badRequestResult demo_bad] \<and> n_stop n = NStopShard 0 {} \<and> n_shards n = (\<lambda>_ _. None) \<and>
     n_aggRunning n \<and> n_batch n = [] \<and> n_sent n 2 = []"
    by (simp add: demo_eval results_def xs_def)
  then obtain n tr where n: "nexec (fst demo_node) xs (snd demo_node) = Some (tr, n)"
    "results tr 2 = [badRequestResult demo_bad]" "n_stop n = NStopShard 0 {}" "n_shards n = (\<lambda>_ _. None)"
    "n_aggRunning n" "n_batch n = []" "n_sent n 2 = []" by blast
  have "nexec (fst demo_node) ys n = Some ([], n\<lparr>n_stop := NStopped, n_done := True, n_aggRunning := False\<rparr>)"
    using n(5,6) unfolding ys_def nexec_append stop_empty_shards [OF n(3,4), of 256, simplified]
    by (simp add: agg_step_def flush_def)
  then have "nexec (fst demo_node) (xs @ ys) (snd demo_node) =
      Some (tr, n\<lparr>n_stop := NStopped, n_done := True, n_aggRunning := False\<rparr>)"
    unfolding nexec_append n(1) by simp
  moreover have "shutdown_schedule = xs @ ys" by (simp add: shutdown_schedule_def xs_def ys_def)
  ultimately show ?thesis using n(2,7) by (simp add: agg_step_def)
qed

text \<open>
  A passivated actor may still have a message to handle when its successor is created. Both then
  assign the same version, and the second write replaces the first event: a deposit that was
  answered with success is lost.
\<close>

definition demo_env2 :: RemoteEnvelope where
  "demo_env2 = (demo_env ''c'' 50)\<lparr>env_RequestId := 3\<rparr>"

definition demo_event2 :: EventRow where
  "demo_event2 = \<lparr>ev_version = 1, ev_createdAt = 3, ev_txID = ''c'', ev_delta = 50,
     ev_payload = BigEndian_PutUint64 50\<rparr>"

lemma demo_overwrite:
  "\<exists>r st'. Handle (cassandra_Store mem_session) demo_st1 (newBusinessActor 1 7 now) 3 demo_env2 =
     (r, committed (newBusinessActor 1 7 now) 3 demo_env2, st', []) \<and> res_Success r \<and>
     md_events (cs_db st') (1, 7) = [demo_event2]"
proof -
  let ?b = "newBusinessActor 1 7 now"
  have "accepts ?b demo_env2"
    by (simp add: accepts_def newBusinessActor_def demo_env2_def demo_env_def amount_of_def)
  moreover have "event_of ?b 3 demo_env2 = demo_event2"
    by (simp add: event_of_def newBusinessActor_def demo_env2_def demo_env_def amount_of_def demo_event2_def)
  moreover have "spawned_snapshots ?b demo_env2 = []"
    by (simp add: spawned_snapshots_def newBusinessActor_def snapshotThreshold_def)
  moreover have "\<exists>st'. ExecuteBatch mem_session demo_st1 UnloggedBatch [eventStmt (1, 7) demo_event2] = (st', None) \<and>
      md_events (cs_db st') (1, 7) = [demo_event2]"
    by (simp add: ExecuteBatch_def mem_session_def demo_defs demo_event2_def eventStmt_def batchEntry_def mem_entry_def
        mem_insert_event_def UnloggedBatch_def toGocqlBatchType_def LoggedBatch_def)
  ultimately show ?thesis
    using Handle_committed [of ?b demo_env2 "cassandra_Store mem_session" demo_st1 3]
    by (fastforce simp: newBusinessActor_def)
qed

definition passivation_schedule :: "nchoice list" where
  "passivation_schedule = [CCall 1 [Some (demo_env ''a'' 100)]] @ replicate 8 (CStream (- 99999999999997) 1) @ [CPassivate 3 6] @
     [CCall 1 [Some demo_env2]] @ replicate 8 (CStream 3 1) @ [CActor 3 0, CActor 3 0, CActor 3 0, CActor 3 1, CActor 3 1, CActor 3 1]"

lemma completeResult_Success: "res_Success (completeResult r env) = res_Success r"
  by (simp add: completeResult_def Let_def)

lemma passivation_loses_deposit:
  "\<exists>r1 r2 tr n. nexec (fst demo_node) passivation_schedule (snd demo_node) = Some (tr, n) \<and>
     results tr 1 = [r1, r2] \<and> res_Success r1 \<and> resultRouteKey r1 = envKey (demo_env ''a'' 100) \<and> res_Success r2 \<and>
     md_events (cs_db (n_store n)) (1, 7) = [demo_event2]"
proof -
  obtain r1 where h1: "Handle (cassandra_Store mem_session) demo_st (newBusinessActor 1 7 (- 99999999999997)) 3 (demo_env ''a'' 100) =
     (r1, committed (newBusinessActor 1 7 (- 99999999999997)) 3 (demo_env ''a'' 100), demo_st1, [])" "res_Success r1"
    using demo_handle by blast
  obtain r2 st' where h2: "Handle (cassandra_Store mem_session) demo_st1 (newBusinessActor 1 7 3) 3 demo_env2 =
     (r2, committed (newBusinessActor 1 7 3) 3 demo_env2, st', [])" "res_Success r2" "md_events (cs_db st') (1, 7) = [demo_event2]"
    using demo_overwrite by blast
  define r1' r2' where "r1' = completeResult r1 (demo_env ''a'' 100)" and "r2' = completeResult r2 demo_env2"
  have k: "resultRouteKey r1' = (1, 7, 1)" "res_Success r1'" "resultRouteKey r2' = (1, 7, 3)" "res_Success r2'"
    using Handle_identity [OF h1(1)] Handle_identity [OF h2(1)] h1(2) h2(2)
    by (auto simp: r1'_def r2'_def completeResult_def Let_def resultRouteKey_def newBusinessActor_def demo_env_def demo_env2_def)
  have e2: "envKey demo_env2 = (1, 7, 3)" "ActorKey demo_env2 = (1, 7)" "\<not> badRequest demo_env2"
    by (simp_all add: envKey_def ActorKey_def badRequest_def demo_env2_def demo_env_def)
  have idle: "idleThreshold <s 100000000000000" by (simp add: idleThreshold_def word_sless_alt)
  have la: "ba_lastActive (newBusinessActor 1 7 t) = t" for t by (simp add: newBusinessActor_def)
  show ?thesis
    by (rule exI [of _ r1'], rule exI [of _ r2'])
      (simp add: demo_eval passivation_schedule_def passivateShard_def idle_def idle la stopAll_def stopStatus_def h1 h2 k e2 results_def
        flip: r1'_def r2'_def)
qed

end
