(* ===== verification/Server.thy ===== *)
theory Server
  imports Messages
begin

text \<open>
  \<^verbatim>\<open>pkg/remote/server.go\<close> and \<^verbatim>\<open>types.go\<close>: the gRPC adapter that reads batches from a stream and
  gives them to a batch handler. The stream is the list of outcomes of \<^verbatim>\<open>Recv\<close>; the handler is a
  parameter that passes its own state.
\<close>

section \<open>Errors\<close>

text \<open>
  The gRPC codes the source uses, and the errors it distinguishes: an error that carries a gRPC
  status, the three sentinel values it compares with, and any other error.
\<close>

datatype code = Canceled | InvalidArgument | DeadlineExceeded | Unavailable | Internal | OtherCode nat

datatype err = StatusError code string | EOF | ContextCanceled | ContextDeadlineExceeded | OtherError string

text \<open>\<^verbatim>\<open>status.FromError\<close>, second result.\<close>

fun isStatus :: "err \<Rightarrow> bool" where
  "isStatus (StatusError c m) = True"
| "isStatus _ = False"

section \<open>The adapter\<close>

type_synonym BatchRequest = "RemoteEnvelope option list"
type_synonym 's BatchHandler = "'s \<Rightarrow> BatchRequest \<Rightarrow> 's \<times> err option"
type_synonym BatchSender = "RemoteResult list option \<Rightarrow> err option"

record ServerConfig =
  MaxBatchSize :: int

definition defaultMaxBatchSize :: int where "defaultMaxBatchSize = 256"

record 's Server =
  srv_handler :: "'s BatchHandler"
  srv_cfg :: ServerConfig

text \<open>\<^term>\<open>None\<close> is the panic on a nil handler.\<close>

definition NewServer :: "'s BatchHandler option \<Rightarrow> ServerConfig \<Rightarrow> 's Server option" where
  "NewServer handler cfg = (case handler of None \<Rightarrow> None
     | Some h \<Rightarrow> Some \<lparr>srv_handler = h,
         srv_cfg = (if MaxBatchSize cfg \<le> 0 then cfg\<lparr>MaxBatchSize := defaultMaxBatchSize\<rparr> else cfg)\<rparr>)"

definition normalizeHandlerError :: "err option \<Rightarrow> err option" where
  "normalizeHandlerError e = (case e of None \<Rightarrow> None
     | Some err \<Rightarrow>
         if isStatus err then Some err
         else if err = ContextCanceled then Some (StatusError Canceled ErrTransportClosed)
         else if err = ContextDeadlineExceeded then Some (StatusError DeadlineExceeded ErrDeadlineExceeded)
         else Some (StatusError Internal ErrInternal))"

text \<open>What \<^verbatim>\<open>stream.Recv\<close> returns.\<close>

datatype recv = RecvErr err | RecvNil | RecvBatch BatchRequest

text \<open>
  The receive loop. The second result is \<^term>\<open>None\<close> while the loop waits for the next message, and
  otherwise what \<^verbatim>\<open>StreamMessages\<close> returns.
\<close>

fun StreamMessages :: "'s Server \<Rightarrow> recv list \<Rightarrow> 's \<Rightarrow> 's \<times> err option option" where
  "StreamMessages srv [] s = (s, None)"
| "StreamMessages srv (RecvErr e # rs) s =
     (s, Some (if e = EOF then None else Some (StatusError Unavailable ErrTransportClosed)))"
| "StreamMessages srv (RecvNil # rs) s = (s, Some (Some (StatusError InvalidArgument ErrBadRequest)))"
| "StreamMessages srv (RecvBatch batch # rs) s =
     (if int (length batch) > MaxBatchSize (srv_cfg srv)
      then (s, Some (Some (StatusError InvalidArgument ErrBatchTooLarge)))
      else case srv_handler srv s batch of
        (s', Some handleErr) \<Rightarrow> (s', Some (normalizeHandlerError (Some handleErr)))
      | (s', None) \<Rightarrow> StreamMessages srv rs s')"

text \<open>\<^verbatim>\<open>streamBatchSender\<close>: the outcome of \<^verbatim>\<open>stream.Send\<close> is a parameter.\<close>

definition SendBatchResponse :: "(RemoteResult list \<Rightarrow> err option) \<Rightarrow> BatchSender" where
  "SendBatchResponse send resp = (case resp of None \<Rightarrow> Some (StatusError InvalidArgument ErrBadRequest)
     | Some r \<Rightarrow> (case send r of None \<Rightarrow> None | Some _ \<Rightarrow> Some (StatusError Unavailable ErrTransportClosed)))"

section \<open>Lemmas\<close>

lemma NewServer_limit: "NewServer h cfg = Some srv \<Longrightarrow> 0 < MaxBatchSize (srv_cfg srv)"
  by (auto simp: NewServer_def defaultMaxBatchSize_def split: option.splits if_splits)

lemma normalize_isStatus: "normalizeHandlerError (Some e) = Some e' \<Longrightarrow> isStatus e'"
  by (auto simp: normalizeHandlerError_def split: if_splits)

lemma normalize_Some: "\<exists>e'. normalizeHandlerError (Some e) = Some e'"
  by (simp add: normalizeHandlerError_def)

text \<open>Calls of the handler that all succeed.\<close>

fun served :: "'s BatchHandler \<Rightarrow> BatchRequest list \<Rightarrow> 's \<Rightarrow> 's option" where
  "served h [] s = Some s"
| "served h (b # bs) s = (case h s b of (s', None) \<Rightarrow> served h bs s' | (s', Some e) \<Rightarrow> None)"

text \<open>How a stream ends after the batches that were served.\<close>

inductive stream_ends :: "'s Server \<Rightarrow> 's \<Rightarrow> recv list \<Rightarrow> 's \<Rightarrow> err option option \<Rightarrow> bool" for srv s where
  waiting: "stream_ends srv s [] s None"
| closed: "stream_ends srv s (RecvErr EOF # rs) s (Some None)"
| broken: "e \<noteq> EOF \<Longrightarrow> stream_ends srv s (RecvErr e # rs) s (Some (Some (StatusError Unavailable ErrTransportClosed)))"
| nil_batch: "stream_ends srv s (RecvNil # rs) s (Some (Some (StatusError InvalidArgument ErrBadRequest)))"
| too_large: "int (length b) > MaxBatchSize (srv_cfg srv) \<Longrightarrow>
    stream_ends srv s (RecvBatch b # rs) s (Some (Some (StatusError InvalidArgument ErrBatchTooLarge)))"
| failed: "int (length b) \<le> MaxBatchSize (srv_cfg srv) \<Longrightarrow> srv_handler srv s b = (s', Some e) \<Longrightarrow>
    stream_ends srv s (RecvBatch b # rs) s' (Some (normalizeHandlerError (Some e)))"

inductive_simps stream_ends_simps [simp]:
  "stream_ends srv s [] s' out" "stream_ends srv s (RecvErr e # rs) s' out" "stream_ends srv s (RecvNil # rs) s' out"

inductive_cases stream_ends_batchE: "stream_ends srv s (RecvBatch b # rs) s' out"

abbreviation fits :: "'s Server \<Rightarrow> BatchRequest \<Rightarrow> bool" where
  "fits srv b \<equiv> int (length b) \<le> MaxBatchSize (srv_cfg srv)"

lemma serves_now:
  "stream_ends srv s rs s' out \<Longrightarrow> \<exists>bs rest s1. rs = map RecvBatch bs @ rest \<and> list_all (fits srv) bs \<and>
     served (srv_handler srv) bs s = Some s1 \<and> stream_ends srv s1 rest s' out"
  by (rule exI [of _ "[]"]) simp

lemma StreamMessages_sound:
  "StreamMessages srv rs s = (s', out) \<Longrightarrow> \<exists>bs rest s1. rs = map RecvBatch bs @ rest \<and> list_all (fits srv) bs \<and>
     served (srv_handler srv) bs s = Some s1 \<and> stream_ends srv s1 rest s' out"
proof (induction srv rs s rule: StreamMessages.induct)
  case (1 srv s)
  then show ?case by (intro serves_now) simp
next
  case (2 srv e rs s)
  then show ?case by (intro serves_now) (auto split: if_splits)
next
  case (3 srv rs s)
  then show ?case by (intro serves_now) (auto split: if_splits)
next
  case (4 srv batch rs s)
  show ?case
  proof (cases "fits srv batch \<and> snd (srv_handler srv s batch) = None")
    case True
    then obtain s2 where s2: "srv_handler srv s batch = (s2, None)" by (metis prod.collapse)
    with True "4.prems" have "StreamMessages srv rs s2 = (s', out)" by simp
    with "4.IH" [OF _ s2 [symmetric] refl] True obtain bs rest s1 where
      "rs = map RecvBatch bs @ rest" "list_all (fits srv) bs" "served (srv_handler srv) bs s2 = Some s1"
      "stream_ends srv s1 rest s' out" by fastforce
    with True s2 show ?thesis by (intro exI [of _ "batch # bs"] exI [of _ rest] exI [of _ s1]) simp
  next
    case False
    then have "stream_ends srv s (RecvBatch batch # rs) s' out"
      using "4.prems" by (cases "srv_handler srv s batch") (auto intro: too_large failed split: if_splits option.splits)
    then show ?thesis by (intro serves_now) (auto split: if_splits)
  qed
qed

lemma StreamMessages_ends: "stream_ends srv s rest s' out \<Longrightarrow> StreamMessages srv rest s = (s', out)"
  by (induction rule: stream_ends.induct) auto

lemma StreamMessages_served:
  "list_all (fits srv) bs \<Longrightarrow> served (srv_handler srv) bs s = Some s1 \<Longrightarrow>
     StreamMessages srv (map RecvBatch bs @ rest) s = StreamMessages srv rest s1"
  by (induction bs arbitrary: s) (auto split: prod.splits option.splits)

section \<open>Properties\<close>

text \<open>
  C25: What a stream does to the node. The batches of a stream reach the handler one after the other in
  the order they were received, each fits the size limit, as long as every call succeeds. The
  loop returns without error exactly at the end of the stream; a failed receive, a nil message and
  a batch over the limit each end it with their own status, without calling the handler; and an
  error of the handler ends it with the normalised error.
\<close>

theorem StreamMessages_serves:
  "StreamMessages srv rs s = (s', out) \<longleftrightarrow>
     (\<exists>bs rest s1. rs = map RecvBatch bs @ rest \<and> list_all (fits srv) bs \<and>
       served (srv_handler srv) bs s = Some s1 \<and> stream_ends srv s1 rest s' out)"
  using StreamMessages_sound [of srv rs s s' out] StreamMessages_served [of srv _ s] StreamMessages_ends [of srv _ _ s' out]
  by fastforce

text \<open>
  C33: Every error that leaves the server is a gRPC status: whatever the stream delivers and whatever
  error the handler returns, \<^verbatim>\<open>StreamMessages\<close> returns nil or an error with a gRPC status, and so does
  \<^verbatim>\<open>SendBatchResponse\<close>; a status returned by the handler is passed on unchanged, and cancellation
  and an expired deadline keep their meaning.
\<close>

theorem server_errors_are_statuses:
  "(case snd (StreamMessages srv rs s) of Some (Some e) \<Rightarrow> isStatus e | _ \<Rightarrow> True) \<and>
   (case SendBatchResponse send resp of Some e \<Rightarrow> isStatus e | None \<Rightarrow> True) \<and>
   normalizeHandlerError (Some (StatusError c m)) = Some (StatusError c m) \<and>
   normalizeHandlerError (Some ContextCanceled) = Some (StatusError Canceled ErrTransportClosed) \<and>
   normalizeHandlerError (Some ContextDeadlineExceeded) = Some (StatusError DeadlineExceeded ErrDeadlineExceeded)"
proof -
  have "case snd (StreamMessages srv rs s) of Some (Some e) \<Rightarrow> isStatus e | _ \<Rightarrow> True"
  proof (induction srv rs s rule: StreamMessages.induct)
    case (4 srv batch rs s)
    then show ?case
      using normalize_isStatus by (cases "srv_handler srv s batch") (auto split: option.splits)
  qed simp_all
  moreover have "case SendBatchResponse send resp of Some e \<Rightarrow> isStatus e | None \<Rightarrow> True"
    by (simp add: SendBatchResponse_def split: option.splits)
  ultimately show ?thesis by (simp add: normalizeHandlerError_def)
qed

end
