(* ===== verification/Callbacks.thy ===== *)
theory Callbacks
  imports Messages
begin

text \<open>
  The callback table of \<^verbatim>\<open>cmd/client/router.go\<close>: 256 locked shards and an atomic counter. The table
  is shown to be one map with an exact number of entries, through the interface
  \<^verbatim>\<open>callback_table\<close>.
\<close>

section \<open>The sharded table\<close>

text \<open>An entry names the response channel by the call that owns it; \<^term>\<open>None\<close> is the nil channel.\<close>

record callbackEntry =
  ce_startedAt :: int64
  ce_respCh :: "nat option"

record ShardedCallbackMap =
  sm_pending :: uint64
  sm_shards :: "nat \<Rightarrow> uint64 \<rightharpoonup> callbackEntry"

definition NewShardedCallbackMap :: ShardedCallbackMap where
  "NewShardedCallbackMap = \<lparr>sm_pending = 0, sm_shards = (\<lambda>_ _. None)\<rparr>"

definition shardIdx :: "uint64 \<Rightarrow> nat" where
  "shardIdx reqID = unat (reqID mod 256)"

definition cbStore :: "uint64 \<Rightarrow> callbackEntry \<Rightarrow> ShardedCallbackMap \<Rightarrow> ShardedCallbackMap" where
  "cbStore reqID entry sm = (let i = shardIdx reqID; s = sm_shards sm i in
     sm\<lparr>sm_pending := (if s reqID = None then sm_pending sm + 1 else sm_pending sm),
        sm_shards := (sm_shards sm)(i := s(reqID \<mapsto> entry))\<rparr>)"

text \<open>The source decrements by adding \<^verbatim>\<open>^uint64(0)\<close>.\<close>

definition cbLoadAndDelete :: "uint64 \<Rightarrow> ShardedCallbackMap \<Rightarrow> callbackEntry option \<times> ShardedCallbackMap" where
  "cbLoadAndDelete reqID sm = (let i = shardIdx reqID; s = sm_shards sm i in
     case s reqID of None \<Rightarrow> (None, sm)
     | Some entry \<Rightarrow> (Some entry, sm\<lparr>sm_pending := sm_pending sm + NOT 0,
         sm_shards := (sm_shards sm)(i := s(reqID := None))\<rparr>))"

definition cbDelete :: "uint64 \<Rightarrow> ShardedCallbackMap \<Rightarrow> ShardedCallbackMap" where
  "cbDelete reqID sm = (let i = shardIdx reqID; s = sm_shards sm i in
     if s reqID \<noteq> None then sm\<lparr>sm_pending := sm_pending sm + NOT 0,
         sm_shards := (sm_shards sm)(i := s(reqID := None))\<rparr>
     else sm)"

definition cbPending :: "ShardedCallbackMap \<Rightarrow> uint64" where
  "cbPending sm = sm_pending sm"

section \<open>Interface\<close>

text \<open>What the client relies on: a finite map with insertion, removal and an entry count.\<close>

locale callback_table =
  fixes empty :: 'm
    and store :: "uint64 \<Rightarrow> 'e \<Rightarrow> 'm \<Rightarrow> 'm"
    and fetch :: "uint64 \<Rightarrow> 'm \<Rightarrow> 'e option \<times> 'm"
    and remove :: "uint64 \<Rightarrow> 'm \<Rightarrow> 'm"
    and pend :: "'m \<Rightarrow> uint64"
    and entries :: "'m \<Rightarrow> uint64 \<rightharpoonup> 'e"
    and ok :: "'m \<Rightarrow> bool"
  assumes empty_ok: "ok empty" "entries empty = Map.empty"
    and store_ok: "ok m \<Longrightarrow> ok (store k e m)" "ok m \<Longrightarrow> entries (store k e m) = (entries m)(k \<mapsto> e)"
    and fetch_ok: "ok m \<Longrightarrow> ok (snd (fetch k m))" "ok m \<Longrightarrow> fst (fetch k m) = entries m k"
      "ok m \<Longrightarrow> entries (snd (fetch k m)) = (entries m)(k := None)"
    and remove_ok: "ok m \<Longrightarrow> ok (remove k m)" "ok m \<Longrightarrow> entries (remove k m) = (entries m)(k := None)"
    and pend_ok: "ok m \<Longrightarrow> finite (dom (entries m))" "ok m \<Longrightarrow> pend m = of_nat (card (dom (entries m)))"
begin

text \<open>A callback fires once: it is handed out once after it was stored, and then is gone.\<close>

lemma take_after_store:
  assumes "ok m"
  shows "fst (fetch k (store k e m)) = Some e" "fst (fetch k (snd (fetch k (store k e m)))) = None"
  using assms by (simp_all add: fetch_ok store_ok)

lemma take_other:
  "ok m \<Longrightarrow> j \<noteq> k \<Longrightarrow> fst (fetch j (store k e m)) = fst (fetch j m)"
  by (simp add: fetch_ok store_ok)

end

text \<open>The operations as data, so that whole sequences can be compared.\<close>

datatype 'e op = OpStore uint64 'e | OpTake uint64 | OpDelete uint64 | OpPending

datatype 'e answer = Done | Taken "'e option" | Number uint64

text \<open>The reference: a single map.\<close>

fun plain_op :: "'e op \<Rightarrow> (uint64 \<rightharpoonup> 'e) \<Rightarrow> 'e answer \<times> (uint64 \<rightharpoonup> 'e)" where
  "plain_op (OpStore k e) m = (Done, m(k \<mapsto> e))"
| "plain_op (OpTake k) m = (Taken (m k), m(k := None))"
| "plain_op (OpDelete k) m = (Done, m(k := None))"
| "plain_op OpPending m = (Number (of_nat (card (dom m))), m)"

fun answers :: "('o \<Rightarrow> 'm \<Rightarrow> 'a \<times> 'm) \<Rightarrow> 'o list \<Rightarrow> 'm \<Rightarrow> 'a list" where
  "answers f [] m = []"
| "answers f (x # xs) m = fst (f x m) # answers f xs (snd (f x m))"

context callback_table
begin

fun table_op :: "'e op \<Rightarrow> 'm \<Rightarrow> 'e answer \<times> 'm" where
  "table_op (OpStore k e) m = (Done, store k e m)"
| "table_op (OpTake k) m = (case fetch k m of (r, m') \<Rightarrow> (Taken r, m'))"
| "table_op (OpDelete k) m = (Done, remove k m)"
| "table_op OpPending m = (Number (pend m), m)"

lemma table_op_plain:
  assumes "ok m"
  shows "ok (snd (table_op x m))" "fst (table_op x m) = fst (plain_op x (entries m))"
    "entries (snd (table_op x m)) = snd (plain_op x (entries m))"
  using assms by (cases x; simp add: store_ok fetch_ok remove_ok pend_ok split_beta)+

lemma answers_plain: "ok m \<Longrightarrow> answers table_op xs m = answers plain_op xs (entries m)"
  by (induction xs arbitrary: m) (simp_all add: table_op_plain)

end

section \<open>The sharded table implements the interface\<close>

definition lookup :: "ShardedCallbackMap \<Rightarrow> uint64 \<rightharpoonup> callbackEntry" where
  "lookup sm k = sm_shards sm (shardIdx k) k"

definition sm_ok :: "ShardedCallbackMap \<Rightarrow> bool" where
  "sm_ok sm \<longleftrightarrow> (\<forall>i k e. sm_shards sm i k = Some e \<longrightarrow> i = shardIdx k) \<and> finite (dom (lookup sm)) \<and>
     sm_pending sm = of_nat (card (dom (lookup sm)))"

lemma lookup_upd:
  "lookup (sm\<lparr>sm_pending := p, sm_shards := (sm_shards sm)(shardIdx k := (sm_shards sm (shardIdx k))(k := v))\<rparr>) =
     (lookup sm)(k := v)"
  by (auto simp: lookup_def fun_eq_iff)

lemma sm_ok_upd:
  assumes "sm_ok sm" and "p = of_nat (card (dom ((lookup sm)(k := v))))"
  shows "sm_ok (sm\<lparr>sm_pending := p, sm_shards := (sm_shards sm)(shardIdx k := (sm_shards sm (shardIdx k))(k := v))\<rparr>)"
  using assms unfolding sm_ok_def lookup_upd by (auto split: if_splits option.splits)

lemma card_dom_remove:
  assumes "finite (dom m)" and "m k \<noteq> None"
  shows "(of_nat (card (dom (m(k := None)))) :: uint64) = of_nat (card (dom m)) - 1"
proof -
  have "card (dom m) = Suc (card (dom m - {k}))" using card_Suc_Diff1 [of "dom m" k] assms by (metis domI domIff)
  then show ?thesis by simp
qed

lemma card_dom_insert:
  assumes "finite (dom m)"
  shows "card (dom (m(k \<mapsto> e))) = (if m k = None then card (dom m) + 1 else card (dom m))"
  using assms by (auto simp: card_insert_if domIff insert_absorb)

interpretation sharded: callback_table NewShardedCallbackMap cbStore cbLoadAndDelete cbDelete cbPending lookup sm_ok
proof unfold_locales
  show "sm_ok NewShardedCallbackMap" "lookup NewShardedCallbackMap = Map.empty"
    by (auto simp: sm_ok_def NewShardedCallbackMap_def lookup_def fun_eq_iff dom_def)
next
  fix m k e assume ok: "sm_ok m"
  show "sm_ok (cbStore k e m)"
    unfolding cbStore_def Let_def
    by (rule sm_ok_upd [OF ok]) (use ok in \<open>simp add: sm_ok_def card_dom_insert lookup_def [symmetric] del: dom_fun_upd\<close>)
  show "lookup (cbStore k e m) = (lookup m)(k \<mapsto> e)" by (simp add: cbStore_def Let_def lookup_upd)
next
  fix m k assume ok: "sm_ok m"
  then have fin: "finite (dom (lookup m))" and pend: "sm_pending m = of_nat (card (dom (lookup m)))"
    by (simp_all add: sm_ok_def)
  have "sm_pending m + NOT 0 = of_nat (card (dom ((lookup m)(k := None))))" if "lookup m k \<noteq> None"
    unfolding card_dom_remove [OF fin that] pend by simp
  note upd = sm_ok_upd [OF ok this]
  show "sm_ok (snd (cbLoadAndDelete k m))"
    using ok upd by (auto simp: cbLoadAndDelete_def Let_def lookup_def [symmetric] split: option.splits)
  show "fst (cbLoadAndDelete k m) = lookup m k"
    by (simp add: cbLoadAndDelete_def Let_def lookup_def split: option.splits)
  show "lookup (snd (cbLoadAndDelete k m)) = (lookup m)(k := None)"
    by (auto simp: cbLoadAndDelete_def Let_def lookup_upd fun_upd_idem lookup_def [symmetric] split: option.splits)
  show "sm_ok (cbDelete k m)"
    using ok upd by (simp add: cbDelete_def Let_def lookup_def [symmetric])
  show "lookup (cbDelete k m) = (lookup m)(k := None)"
    by (auto simp: cbDelete_def Let_def lookup_upd fun_upd_idem lookup_def [symmetric])
  show "finite (dom (lookup m))" "cbPending m = of_nat (card (dom (lookup m)))"
    using fin pend by (simp_all add: cbPending_def)
qed

fun cb_op :: "callbackEntry op \<Rightarrow> ShardedCallbackMap \<Rightarrow> callbackEntry answer \<times> ShardedCallbackMap" where
  "cb_op (OpStore k e) m = (Done, cbStore k e m)"
| "cb_op (OpTake k) m = (case cbLoadAndDelete k m of (r, m') \<Rightarrow> (Taken r, m'))"
| "cb_op (OpDelete k) m = (Done, cbDelete k m)"
| "cb_op OpPending m = (Number (cbPending m), m)"

lemma cb_op_table: "cb_op = sharded.table_op"
  by (intro ext, case_tac x) simp_all

text \<open>
  C24: The sharded callback table is a single map. For every sequence of the operations the 256 shards
  and the separate counter give the same answers as one map, in particular the number of pending
  callbacks is the number of entries.
\<close>

theorem sharded_table_is_a_map:
  "answers cb_op xs NewShardedCallbackMap = answers plain_op xs Map.empty"
  using sharded.answers_plain [of NewShardedCallbackMap xs] by (simp add: cb_op_table sharded.empty_ok)

end
