(* ===== verification/Client.thy ===== *)
theory Client
  imports Callbacks
begin

text \<open>
  \<^verbatim>\<open>cmd/client/router.go\<close> and \<^verbatim>\<open>cmd/client/streamer.go\<close>: the router that sends envelopes to nodes
  and waits for results, and the streamer that batches envelopes onto one gRPC stream and matches
  the results with their callers. Any number of calls and streamers interleave. Every critical
  section and every channel operation is one step; a counter is updated in the step it belongs to.
  The outcome of dialling, sending and receiving is chosen by the environment. The model is for a
  positive batch size; with zero the channel of a streamer would have no buffer.
\<close>

section \<open>Metrics\<close>

record Metrics =
  reqSent :: uint64
  respRecv :: uint64
  errCount :: uint64
  latencyNanos :: uint64
  latencySamples :: uint64
  errBreakdown :: "string \<rightharpoonup> uint64"

definition zeroMetrics :: Metrics where
  "zeroMetrics = \<lparr>reqSent = 0, respRecv = 0, errCount = 0, latencyNanos = 0, latencySamples = 0,
     errBreakdown = (\<lambda>_. None)\<rparr>"

definition RecordError :: "string \<Rightarrow> Metrics \<Rightarrow> Metrics" where
  "RecordError errCode m = (let code = (if errCode = '''' then ''UNKNOWN'' else errCode);
       v = (case errBreakdown m code of None \<Rightarrow> 0 | Some n \<Rightarrow> n)
     in m\<lparr>errBreakdown := (errBreakdown m)(code \<mapsto> v + 1)\<rparr>)"

text \<open>\<^verbatim>\<open>r.errCount.Add(1); r.RecordError(code)\<close>, which the source always does together.\<close>

definition countError :: "string \<Rightarrow> Metrics \<Rightarrow> Metrics" where
  "countError errCode m = RecordError errCode (m\<lparr>errCount := errCount m + 1\<rparr>)"

definition RecordLatency :: "int64 \<Rightarrow> Metrics \<Rightarrow> Metrics" where
  "RecordLatency d m = (if sint d \<le> 0 then m
     else m\<lparr>latencyNanos := latencyNanos m + d, latencySamples := latencySamples m + 1\<rparr>)"

definition AvgLatency :: "Metrics \<Rightarrow> int64" where
  "AvgLatency m = (if latencySamples m = 0 then 0 else latencyNanos m div latencySamples m)"

definition ErrorBreakdownMap :: "Metrics \<Rightarrow> string \<rightharpoonup> uint64" where
  "ErrorBreakdownMap m = errBreakdown m"

text \<open>\<^verbatim>\<open>GetErrorBreakdown\<close>, with the entries in the order in which the iteration meets them.\<close>

definition GetErrorBreakdown :: "(string \<times> uint64) list \<Rightarrow> string" where
  "GetErrorBreakdown entries = (let res = concat (map (\<lambda>(k, v). k @ '':'' @ FormatUint (unat v) @ '' '') entries) in
     if res = [] then ''None'' else res)"

section \<open>State\<close>

text \<open>The phases of \<^verbatim>\<open>fail\<close>, which runs at most once per streamer; \<^verbatim>\<open>FFailAll\<close> holds the lock of its shard.\<close>

datatype fail_pc = FIdle | FDead string | FEvict string | FRemove string | FFailAll string nat | FClose | FDone

datatype flusher_pc = FlRun | FlFail | FlExit

datatype receiver_pc = RRecv | RProcess "RemoteResult list" | RDeliver nat RemoteResult "RemoteResult list" | RFail | RExit

record NodeStreamer =
  ns_TargetIP :: string
  ns_envelopeCh :: "RemoteEnvelope list"
  ns_targetSize :: nat
  ns_callbackMap :: ShardedCallbackMap
  ns_ctxDone :: bool
  ns_stopCh :: bool
  ns_dead :: bool
  ns_fail :: fail_pc
  ns_batch :: "RemoteEnvelope list"
  ns_flusher :: flusher_pc
  ns_receiver :: receiver_pc

definition NewNodeStreamer :: "string \<Rightarrow> nat \<Rightarrow> NodeStreamer" where
  "NewNodeStreamer ip targetSize = \<lparr>ns_TargetIP = ip, ns_envelopeCh = [], ns_targetSize = targetSize,
     ns_callbackMap = NewShardedCallbackMap, ns_ctxDone = False, ns_stopCh = False, ns_dead = False,
     ns_fail = FIdle, ns_batch = [], ns_flusher = FlRun, ns_receiver = RRecv\<rparr>"

text \<open>
  A call of \<^verbatim>\<open>ExecuteAndWait\<close> (\<^verbatim>\<open>cl_sync\<close>) or of \<^verbatim>\<open>EmulateGatewayFlow\<close>, and its program points. Both
  callers pass the tenant, user and request identifier of the envelope.
\<close>

record call =
  cl_env :: RemoteEnvelope
  cl_sync :: bool
  cl_startedAt :: int64

datatype caller_pc =
    CIdle
  | CResolve call
  | CGet call string nat
  | CEvict call string nat
  | CLock call string nat
  | CStore call string nat nat
  | CSelect call string nat nat
  | CDelete call string nat nat
  | CWait call
  | CTimeout call
  | CForget call "string list"
  | CReturned call "RemoteResult option"

text \<open>The program points of \<^verbatim>\<open>StopAll\<close>, which stops one streamer after the other.\<close>

datatype stopall_pc = SaIdle | SaRange "string list" | SaStop nat "string list" | SaClose nat "string list"
  | SaWait nat bool "string list" | SaDone

text \<open>The router with its streamers, the calls and their response channels, and \<^verbatim>\<open>StopAll\<close>.\<close>

record Router =
  r_resolver :: "int32 \<Rightarrow> int64 \<Rightarrow> string + string"
  r_batchSize :: nat
  r_streamers :: "string \<rightharpoonup> nat"
  r_ns :: "nat \<Rightarrow> NodeStreamer"
  r_nns :: nat
  r_metrics :: Metrics
  r_callers :: "nat \<Rightarrow> caller_pc"
  r_respCh :: "nat \<Rightarrow> RemoteResult list"
  r_stopAll :: stopall_pc

definition NewRouter :: "(int32 \<Rightarrow> int64 \<Rightarrow> string + string) \<Rightarrow> nat \<Rightarrow> Router" where
  "NewRouter resolver batchSize = \<lparr>r_resolver = resolver, r_batchSize = batchSize, r_streamers = (\<lambda>_. None),
     r_ns = (\<lambda>_. NewNodeStreamer [] batchSize), r_nns = 0, r_metrics = zeroMetrics,
     r_callers = (\<lambda>_. CIdle), r_respCh = (\<lambda>_. []), r_stopAll = SaIdle\<rparr>"

definition setNS :: "nat \<Rightarrow> NodeStreamer \<Rightarrow> Router \<Rightarrow> Router" where
  "setNS i ns r = r\<lparr>r_ns := (r_ns r)(i := ns)\<rparr>"

definition noteError :: "string \<Rightarrow> Router \<Rightarrow> Router" where
  "noteError errCode r = r\<lparr>r_metrics := countError errCode (r_metrics r)\<rparr>"

text \<open>The lock of a shard is held while \<^verbatim>\<open>FailAll\<close> empties it.\<close>

definition shardFree :: "NodeStreamer \<Rightarrow> uint64 \<Rightarrow> bool" where
  "shardFree ns reqID \<longleftrightarrow> (case ns_fail ns of FFailAll _ i \<Rightarrow> i \<noteq> shardIdx reqID | _ \<Rightarrow> True)"

text \<open>What the outside sees of a step.\<close>

datatype cevent = Stored nat nat | Accepted nat RemoteEnvelope | SentBatch nat "RemoteEnvelope list"
  | Delivered nat RemoteResult

section \<open>The router\<close>

definition syntheticResult :: "RemoteEnvelope \<Rightarrow> string \<Rightarrow> string \<Rightarrow> RemoteResult" where
  "syntheticResult env errCode errMsg = zero_RemoteResult\<lparr>res_TenantId := env_TenantId env, res_Uid := env_Uid env,
     res_TxId := env_TxId env, res_RequestId := env_RequestId env, res_OpCode := env_OpCode env,
     res_Success := False, res_ErrorCode := errCode, res_ErrorMsg := errMsg\<rparr>"

text \<open>The critical section of \<^verbatim>\<open>getStreamer\<close>; \<^term>\<open>dialled\<close> is the outcome of \<^verbatim>\<open>NewNodeStreamer\<close>.\<close>

definition createStreamer :: "bool \<Rightarrow> string \<Rightarrow> Router \<Rightarrow> nat option \<times> Router" where
  "createStreamer dialled ip r = (if \<not> dialled then (None, r)
     else (Some (r_nns r), r\<lparr>r_ns := (r_ns r)(r_nns r := NewNodeStreamer ip (r_batchSize r)),
       r_nns := Suc (r_nns r), r_streamers := (r_streamers r)(ip \<mapsto> r_nns r)\<rparr>))"

definition getStreamer :: "bool \<Rightarrow> string \<Rightarrow> Router \<Rightarrow> nat option \<times> Router" where
  "getStreamer dialled ip r = (case r_streamers r ip of
     Some i \<Rightarrow> if \<not> ns_dead (r_ns r i) then (Some i, r)
               else createStreamer dialled ip (r\<lparr>r_streamers := (r_streamers r)(ip := None)\<rparr>)
   | None \<Rightarrow> createStreamer dialled ip r)"

text \<open>
  The two iterations over the \<^verbatim>\<open>sync.Map\<close> of streamers, in \<^verbatim>\<open>callbackTimeout\<close> and \<^verbatim>\<open>StopAll\<close>. An iteration
  comes to every address registered at its start, and perhaps to some that are registered meanwhile, once
  each and in any order; it finds what is registered when it comes to the address.
  \<^verbatim>\<open>forgetCallback\<close> is the visit of one address by \<^verbatim>\<open>callbackTimeout\<close>.
\<close>

definition forgetCallback :: "uint64 \<Rightarrow> string \<Rightarrow> Router \<Rightarrow> Router option" where
  "forgetCallback k ip r = (case r_streamers r ip of None \<Rightarrow> Some r
     | Some i \<Rightarrow> (let ns = r_ns r i in
         if shardFree ns k then Some (setNS i (ns\<lparr>ns_callbackMap := cbDelete k (ns_callbackMap ns)\<rparr>) r) else None))"

definition rangeOf :: "Router \<Rightarrow> string list \<Rightarrow> bool" where
  "rangeOf r ks \<longleftrightarrow> distinct ks \<and> list_all (\<lambda>i. let ip = ns_TargetIP (r_ns r i) in
     r_streamers r ip = None \<or> ip \<in> set ks) [0..<r_nns r]"

definition CallbackPending :: "Router \<Rightarrow> uint64" where
  "CallbackPending r = (\<Sum>ip \<in> dom (r_streamers r). case r_streamers r ip of None \<Rightarrow> 0
     | Some i \<Rightarrow> cbPending (ns_callbackMap (r_ns r i)))"

text \<open>The cases of the \<^verbatim>\<open>select\<close> statements of a call, and the order of an iteration.\<close>

datatype call_choice = TakeSend | TakeCtxDone | TakeResp | TakeTimer | TakeKeys "string list"

definition reqID :: "call \<Rightarrow> uint64" where
  "reqID cl = env_RequestId (cl_env cl)"

definition entryOf :: "nat \<Rightarrow> call \<Rightarrow> callbackEntry" where
  "entryOf c cl = \<lparr>ce_startedAt = cl_startedAt cl, ce_respCh = (if cl_sync cl then Some c else None)\<rparr>"

text \<open>Where a call enters.\<close>

definition EmulateGatewayFlow :: "RemoteEnvelope \<Rightarrow> int64 \<Rightarrow> caller_pc" where
  "EmulateGatewayFlow env now = CResolve \<lparr>cl_env = env, cl_sync = False, cl_startedAt = now\<rparr>"

definition ExecuteAndWait :: "RemoteEnvelope \<Rightarrow> int64 \<Rightarrow> caller_pc" where
  "ExecuteAndWait env now = CResolve \<lparr>cl_env = env, cl_sync = True, cl_startedAt = now\<rparr>"

text \<open>
  One step of \<^verbatim>\<open>ExecuteAndWait\<close> and \<^verbatim>\<open>dispatchEnvelope\<close> with the fast path of \<^verbatim>\<open>getStreamer\<close>;
  \<^term>\<open>None\<close> when the call is blocked or has returned.
\<close>

fun caller_step :: "call_choice \<Rightarrow> bool \<Rightarrow> nat \<Rightarrow> caller_pc \<Rightarrow> Router \<Rightarrow> (caller_pc \<times> Router \<times> cevent list) option" where
  "caller_step ch dialled c (CResolve cl) r =
     (case r_resolver r (env_TenantId (cl_env cl)) (env_Uid (cl_env cl)) of
        Inl e \<Rightarrow> Some (CReturned cl (Some (syntheticResult (cl_env cl) ErrDiscovery e)), noteError ErrDiscovery r, [])
      | Inr ip \<Rightarrow> Some (CGet cl ip 0, r, []))"
| "caller_step ch dialled c (CGet cl ip n) r =
     (case r_streamers r ip of None \<Rightarrow> Some (CLock cl ip n, r, [])
      | Some i \<Rightarrow> Some (if \<not> ns_dead (r_ns r i) then CStore cl ip n i else CEvict cl ip n, r, []))"
| "caller_step ch dialled c (CEvict cl ip n) r =
     Some (CLock cl ip n, r\<lparr>r_streamers := (r_streamers r)(ip := None)\<rparr>, [])"
| "caller_step ch dialled c (CLock cl ip n) r = (case getStreamer dialled ip r of
     (None, r') \<Rightarrow> Some (CReturned cl (Some (syntheticResult (cl_env cl) ErrConnection ErrConnection)), noteError ErrConnection r', [])
   | (Some i, r') \<Rightarrow> Some (CStore cl ip n i, r', []))"
| "caller_step ch dialled c (CStore cl ip n i) r = (let ns = r_ns r i in
     if shardFree ns (reqID cl)
     then Some (CSelect cl ip n i, setNS i (ns\<lparr>ns_callbackMap := cbStore (reqID cl) (entryOf c cl) (ns_callbackMap ns)\<rparr>) r, [Stored c i])
     else None)"
| "caller_step ch dialled c (CSelect cl ip n i) r = (let ns = r_ns r i in
     if ch = TakeSend \<and> length (ns_envelopeCh ns) < 2 * ns_targetSize ns
     then Some (if cl_sync cl then CWait cl else CReturned cl None,
                setNS i (ns\<lparr>ns_envelopeCh := ns_envelopeCh ns @ [cl_env cl]\<rparr>) r, [Accepted i (cl_env cl)])
     else if ch = TakeCtxDone \<and> ns_ctxDone ns then Some (CDelete cl ip n i, r, [])
     else None)"
| "caller_step ch dialled c (CDelete cl ip n i) r = (let ns = r_ns r i;
       r' = setNS i (ns\<lparr>ns_callbackMap := cbDelete (reqID cl) (ns_callbackMap ns)\<rparr>) r
     in if \<not> shardFree ns (reqID cl) then None
        else if Suc n < 2 then Some (CGet cl ip (Suc n), r', [])
        else Some (CReturned cl (Some (syntheticResult (cl_env cl) ErrTransportClosed ErrTransportClosed)),
                   noteError ErrTransportClosed r', []))"
| "caller_step ch dialled c (CWait cl) r =
     (if ch = TakeResp then (case r_respCh r c of [] \<Rightarrow> None
        | res # rest \<Rightarrow> Some (CReturned cl (Some res), r\<lparr>r_respCh := (r_respCh r)(c := rest)\<rparr>, []))
      else if ch = TakeTimer then Some (CTimeout cl, r, []) else None)"
| "caller_step ch dialled c (CTimeout cl) r = (case ch of
     TakeKeys ks \<Rightarrow> if rangeOf r ks then Some (CForget cl ks, noteError ErrDeadlineExceeded r, []) else None
   | _ \<Rightarrow> None)"
| "caller_step ch dialled c (CForget cl []) r =
     Some (CReturned cl (Some (syntheticResult (cl_env cl) ErrDeadlineExceeded ''gateway wait timeout'')), r, [])"
| "caller_step ch dialled c (CForget cl (ip # ips)) r = (case forgetCallback (reqID cl) ip r of None \<Rightarrow> None
     | Some r' \<Rightarrow> Some (CForget cl ips, r', []))"
| "caller_step ch dialled c _ r = None"

section \<open>The streamer\<close>

text \<open>A call of \<^verbatim>\<open>fail\<close>: the first one runs the body, a later one waits for it to end.\<close>

definition startFail :: "string \<Rightarrow> NodeStreamer \<Rightarrow> NodeStreamer" where
  "startFail errCode ns = (if ns_fail ns = FIdle then ns\<lparr>ns_fail := FDead errCode\<rparr> else ns)"

text \<open>\<^verbatim>\<open>sendBatch\<close>; \<^term>\<open>sent\<close> is the outcome of \<^verbatim>\<open>stream.Send\<close>. The caller empties the batch after a success.\<close>

definition sendBatch :: "bool \<Rightarrow> nat \<Rightarrow> NodeStreamer \<Rightarrow> Router \<Rightarrow> bool \<times> Router \<times> cevent list" where
  "sendBatch sent i ns r = (if ns_batch ns = [] then (True, setNS i ns r, [])
     else if sent then (True, (setNS i (ns\<lparr>ns_batch := []\<rparr>) r)
         \<lparr>r_metrics := (r_metrics r)\<lparr>reqSent := reqSent (r_metrics r) + of_nat (length (ns_batch ns))\<rparr>\<rparr>,
         [SentBatch i (ns_batch ns)])
     else (False, setNS i ((startFail ErrTransportClosed ns)\<lparr>ns_flusher := FlFail\<rparr>) r, []))"

datatype flush_choice = FlCtxDone | FlStop | FlEnvelope | FlTick

definition exitFlusher :: "nat \<Rightarrow> Router \<Rightarrow> Router" where
  "exitFlusher i r = setNS i ((r_ns r i)\<lparr>ns_flusher := FlExit\<rparr>) r"

definition flusherLoop :: "flush_choice \<Rightarrow> bool \<Rightarrow> nat \<Rightarrow> Router \<Rightarrow> (Router \<times> cevent list) option" where
  "flusherLoop ch sent i r = (let ns = r_ns r i in case ns_flusher ns of
     FlExit \<Rightarrow> None
   | FlFail \<Rightarrow> if ns_fail ns = FDone then Some (exitFlusher i r, []) else None
   | FlRun \<Rightarrow> (case ch of
       FlCtxDone \<Rightarrow> if ns_ctxDone ns then Some (exitFlusher i r, []) else None
     | FlStop \<Rightarrow> if \<not> ns_stopCh ns then None
         else (case sendBatch sent i ns r of (ok, r', evs) \<Rightarrow> Some (if ok then exitFlusher i r' else r', evs))
     | FlEnvelope \<Rightarrow> (case ns_envelopeCh ns of [] \<Rightarrow> None
         | env # rest \<Rightarrow> let ns' = ns\<lparr>ns_envelopeCh := rest, ns_batch := ns_batch ns @ [env]\<rparr> in
             if length (ns_batch ns') \<ge> ns_targetSize ns then (case sendBatch sent i ns' r of (ok, r', evs) \<Rightarrow> Some (r', evs))
             else Some (setNS i ns' r, []))
     | FlTick \<Rightarrow> (case sendBatch sent i ns r of (ok, r', evs) \<Rightarrow> Some (r', evs))))"

text \<open>What \<^verbatim>\<open>stream.Recv\<close> returns on the client.\<close>

datatype client_recv = RespResults "RemoteResult list" | RespEOF | RespErr

definition resultError :: "RemoteResult \<Rightarrow> string" where
  "resultError res = (if res_ErrorMsg res \<noteq> [] then res_ErrorCode res @ '' ('' @ res_ErrorMsg res @ '')'' else res_ErrorCode res)"

definition countResult :: "RemoteResult \<Rightarrow> Metrics \<Rightarrow> Metrics" where
  "countResult res m = (if res_Success res then m\<lparr>respRecv := respRecv m + 1\<rparr> else countError (resultError res) m)"

definition setReceiver :: "nat \<Rightarrow> receiver_pc \<Rightarrow> Router \<Rightarrow> Router" where
  "setReceiver i pc r = setNS i ((r_ns r i)\<lparr>ns_receiver := pc\<rparr>) r"

definition receiverLoop :: "client_recv \<Rightarrow> int64 \<Rightarrow> nat \<Rightarrow> Router \<Rightarrow> (Router \<times> cevent list) option" where
  "receiverLoop rv elapsed i r = (let ns = r_ns r i in case ns_receiver ns of
     RExit \<Rightarrow> None
   | RFail \<Rightarrow> if ns_fail ns = FDone then Some (setReceiver i RExit r, []) else None
   | RRecv \<Rightarrow> (case rv of
       RespEOF \<Rightarrow> if ns_ctxDone ns then Some (setReceiver i RExit r, [])
                  else Some (setNS i ((startFail ErrTransportClosed ns)\<lparr>ns_receiver := RFail\<rparr>) r, [])
     | RespErr \<Rightarrow> Some (setNS i ((startFail ErrStreamInterrupted ns)\<lparr>ns_receiver := RFail\<rparr>) r, [])
     | RespResults rs \<Rightarrow> Some (setReceiver i (RProcess rs) r, []))
   | RProcess [] \<Rightarrow> Some (setReceiver i RRecv r, [])
   | RProcess (res # rs) \<Rightarrow> if \<not> shardFree ns (res_RequestId res) then None
       else (let r1 = r\<lparr>r_metrics := countResult res (r_metrics r)\<rparr> in
         case cbLoadAndDelete (res_RequestId res) (ns_callbackMap ns) of
           (None, _) \<Rightarrow> Some (setNS i (ns\<lparr>ns_receiver := RProcess rs\<rparr>) r1, [])
         | (Some entry, sm) \<Rightarrow>
             Some ((setNS i (ns\<lparr>ns_callbackMap := sm,
                 ns_receiver := (case ce_respCh entry of None \<Rightarrow> RProcess rs | Some c \<Rightarrow> RDeliver c res rs)\<rparr>) r1)
                 \<lparr>r_metrics := RecordLatency elapsed (r_metrics r1)\<rparr>, []))
   | RDeliver c res rs \<Rightarrow> if r_respCh r c = []
       then Some (setNS i (ns\<lparr>ns_receiver := RProcess rs\<rparr>) (r\<lparr>r_respCh := (r_respCh r)(c := [res])\<rparr>), [Delivered c res])
       else None)"

definition failResult :: "uint64 \<Rightarrow> string \<Rightarrow> RemoteResult" where
  "failResult k errCode = zero_RemoteResult\<lparr>res_RequestId := k, res_Success := False, res_ErrorCode := errCode,
     res_ErrorMsg := errCode\<rparr>"

text \<open>
  One entry of \<^verbatim>\<open>FailAll\<close>; sending to a full response channel blocks, with the shard's lock held.
\<close>

definition failEntry :: "string \<Rightarrow> uint64 \<Rightarrow> callbackEntry \<Rightarrow> nat \<Rightarrow> Router \<Rightarrow> (Router \<times> cevent list) option" where
  "failEntry errCode k entry i r = (let ns = r_ns r i;
       r' = setNS i (ns\<lparr>ns_callbackMap := cbDelete k (ns_callbackMap ns)\<rparr>) (noteError errCode r)
     in case ce_respCh entry of None \<Rightarrow> Some (r', [])
        | Some c \<Rightarrow> if r_respCh r c = []
            then Some (r'\<lparr>r_respCh := (r_respCh r)(c := [failResult k errCode])\<rparr>, [Delivered c (failResult k errCode)])
            else None)"

text \<open>
  \<^verbatim>\<open>FailAll\<close> at shard \<^term>\<open>j\<close>; \<^term>\<open>k\<close> is the key that the iteration over the shard's map meets next.
\<close>

definition FailAll :: "string \<Rightarrow> nat \<Rightarrow> uint64 \<Rightarrow> nat \<Rightarrow> Router \<Rightarrow> (Router \<times> cevent list) option" where
  "FailAll errCode j k i r = (let ns = r_ns r i in
     if 256 \<le> j then Some (setNS i (ns\<lparr>ns_fail := FClose\<rparr>) r, [])
     else if sm_shards (ns_callbackMap ns) j = Map.empty then Some (setNS i (ns\<lparr>ns_fail := FFailAll errCode (Suc j)\<rparr>) r, [])
     else (case sm_shards (ns_callbackMap ns) j k of None \<Rightarrow> None
           | Some entry \<Rightarrow> failEntry errCode k entry i r))"

text \<open>
  \<^verbatim>\<open>evictStreamer\<close> loads the registered streamer and compares it, and then deletes whatever is
  registered under the address.
\<close>

definition evictStreamer_load :: "string \<Rightarrow> nat \<Rightarrow> Router \<Rightarrow> bool" where
  "evictStreamer_load ip i r \<longleftrightarrow> r_streamers r ip = Some i"

definition evictStreamer_delete :: "string \<Rightarrow> Router \<Rightarrow> Router" where
  "evictStreamer_delete ip r = r\<lparr>r_streamers := (r_streamers r)(ip := None)\<rparr>"

text \<open>The body of \<^verbatim>\<open>fail\<close>: mark, evict, fail all callbacks, \<^verbatim>\<open>closeTransport\<close>.\<close>

definition fail_step :: "uint64 \<Rightarrow> nat \<Rightarrow> Router \<Rightarrow> (Router \<times> cevent list) option" where
  "fail_step k i r = (let ns = r_ns r i in case ns_fail ns of
     FIdle \<Rightarrow> None
   | FDead errCode \<Rightarrow> Some (setNS i (ns\<lparr>ns_dead := True, ns_fail := FEvict errCode\<rparr>) r, [])
   | FEvict errCode \<Rightarrow> Some (setNS i (ns\<lparr>ns_fail :=
       (if evictStreamer_load (ns_TargetIP ns) i r then FRemove errCode else FFailAll errCode 0)\<rparr>) r, [])
   | FRemove errCode \<Rightarrow> Some (setNS i (ns\<lparr>ns_fail := FFailAll errCode 0\<rparr>) (evictStreamer_delete (ns_TargetIP ns) r), [])
   | FFailAll errCode j \<Rightarrow> FailAll errCode j k i r
   | FClose \<Rightarrow> Some (setNS i (ns\<lparr>ns_ctxDone := True, ns_fail := FDone\<rparr>) r, [])
   | FDone \<Rightarrow> None)"

lemmas fail_defs = fail_step_def FailAll_def evictStreamer_load_def evictStreamer_delete_def

text \<open>
  \<^verbatim>\<open>StopAndWait\<close> of streamer \<^term>\<open>i\<close>: look at \<^verbatim>\<open>dead\<close>, close \<^verbatim>\<open>stopCh\<close>, wait for the receiver to end and cancel
  the context, or only wait. The last argument is what \<^verbatim>\<open>StopAll\<close> does next.
\<close>

fun StopAndWait :: "stopall_pc \<Rightarrow> Router \<Rightarrow> (stopall_pc \<times> Router) option" where
  "StopAndWait (SaStop i ips) r = Some (if ns_dead (r_ns r i) then SaWait i False ips else SaClose i ips, r)"
| "StopAndWait (SaClose i ips) r = (if ns_stopCh (r_ns r i) then None
     else Some (SaWait i True ips, setNS i ((r_ns r i)\<lparr>ns_stopCh := True\<rparr>) r))"
| "StopAndWait (SaWait i cancel ips) r = (if ns_receiver (r_ns r i) \<noteq> RExit then None
     else Some (SaRange ips, if cancel then setNS i ((r_ns r i)\<lparr>ns_ctxDone := True\<rparr>) r else r))"
| "StopAndWait _ r = None"

fun StopAll :: "string list \<Rightarrow> stopall_pc \<Rightarrow> Router \<Rightarrow> (stopall_pc \<times> Router) option" where
  "StopAll ks SaIdle r = (if rangeOf r ks then Some (SaRange ks, r) else None)"
| "StopAll ks (SaRange []) r = Some (SaDone, r)"
| "StopAll ks (SaRange (ip # ips)) r = Some (case r_streamers r ip of None \<Rightarrow> SaRange ips | Some i \<Rightarrow> SaStop i ips, r)"
| "StopAll ks pc r = StopAndWait pc r"

section \<open>The system\<close>

inductive cstep :: "Router \<Rightarrow> cevent list \<Rightarrow> Router \<Rightarrow> bool" where
  k_call: "r_callers r c = CIdle \<Longrightarrow> cstep r [] (r\<lparr>r_callers := (r_callers r)(c := CResolve cl)\<rparr>)"
| k_caller: "caller_step ch dialled c (r_callers r c) r = Some (pc, r', evs) \<Longrightarrow>
     cstep r evs (r'\<lparr>r_callers := (r_callers r')(c := pc)\<rparr>)"
| k_flusher: "i < r_nns r \<Longrightarrow> flusherLoop fc sent i r = Some (r', evs) \<Longrightarrow> cstep r evs r'"
| k_receiver: "i < r_nns r \<Longrightarrow> receiverLoop rv elapsed i r = Some (r', evs) \<Longrightarrow> cstep r evs r'"
| k_fail: "i < r_nns r \<Longrightarrow> fail_step k i r = Some (r', evs) \<Longrightarrow> cstep r evs r'"
| k_stop: "StopAll ks (r_stopAll r) r = Some (pc, r') \<Longrightarrow> cstep r [] (r'\<lparr>r_stopAll := pc\<rparr>)"
| k_topology: "cstep r [] (r\<lparr>r_resolver := f\<rparr>)"

inductive crun :: "Router \<Rightarrow> cevent list \<Rightarrow> Router \<Rightarrow> bool" where
  crun_refl: "crun r [] r"
| crun_step: "crun r tr r' \<Longrightarrow> cstep r' evs r'' \<Longrightarrow> crun r (tr @ evs) r''"

end
