(* ===== verification/ClientTrace.thy ===== *)
theory ClientTrace
  imports Client
begin

text \<open>
  Runs of the client: envelopes are sent in order and in bounded batches, results reach the call
  that asked, and the books of the callback tables and of the error counters balance.
\<close>

section \<open>Well-formed states\<close>

fun callOf :: "caller_pc \<Rightarrow> call option" where
  "callOf CIdle = None"
| "callOf (CResolve cl) = Some cl"
| "callOf (CGet cl ip n) = Some cl"
| "callOf (CEvict cl ip n) = Some cl"
| "callOf (CLock cl ip n) = Some cl"
| "callOf (CStore cl ip n i) = Some cl"
| "callOf (CSelect cl ip n i) = Some cl"
| "callOf (CDelete cl ip n i) = Some cl"
| "callOf (CWait cl) = Some cl"
| "callOf (CTimeout cl) = Some cl"
| "callOf (CForget cl ips) = Some cl"
| "callOf (CReturned cl res) = Some cl"

fun streamerOf :: "caller_pc \<Rightarrow> nat option" where
  "streamerOf (CStore cl ip n i) = Some i"
| "streamerOf (CSelect cl ip n i) = Some i"
| "streamerOf (CDelete cl ip n i) = Some i"
| "streamerOf _ = None"

fun stopOf :: "stopall_pc \<Rightarrow> nat option" where
  "stopOf (SaStop i ips) = Some i"
| "stopOf (SaClose i ips) = Some i"
| "stopOf (SaWait i cancel ips) = Some i"
| "stopOf _ = None"

definition cwf :: "Router \<Rightarrow> bool" where
  "cwf r \<longleftrightarrow> (\<forall>i \<ge> r_nns r. r_ns r i = NewNodeStreamer [] (r_batchSize r)) \<and>
     (\<forall>ip i. r_streamers r ip = Some i \<longrightarrow> i < r_nns r) \<and>
     (\<forall>c i. streamerOf (r_callers r c) = Some i \<longrightarrow> i < r_nns r) \<and>
     (\<forall>i. ns_targetSize (r_ns r i) = r_batchSize r) \<and> (\<forall>i. sm_ok (ns_callbackMap (r_ns r i))) \<and>
     (\<forall>i. stopOf (r_stopAll r) = Some i \<longrightarrow> i < r_nns r)"

lemma cwfD:
  assumes "cwf r"
  shows "r_nns r \<le> i \<Longrightarrow> r_ns r i = NewNodeStreamer [] (r_batchSize r)" "r_streamers r ip = Some i \<Longrightarrow> i < r_nns r"
    "streamerOf (r_callers r c) = Some i \<Longrightarrow> i < r_nns r" "ns_targetSize (r_ns r i) = r_batchSize r"
    "sm_ok (ns_callbackMap (r_ns r i))" "stopOf (r_stopAll r) = Some i \<Longrightarrow> i < r_nns r"
  using assms by (auto simp: cwf_def)

lemma cwfI:
  assumes "\<And>i. r_nns r \<le> i \<Longrightarrow> r_ns r i = NewNodeStreamer [] (r_batchSize r)" "\<And>ip i. r_streamers r ip = Some i \<Longrightarrow> i < r_nns r"
    "\<And>c i. streamerOf (r_callers r c) = Some i \<Longrightarrow> i < r_nns r" "\<And>i. ns_targetSize (r_ns r i) = r_batchSize r"
    "\<And>i. sm_ok (ns_callbackMap (r_ns r i))" "\<And>i. stopOf (r_stopAll r) = Some i \<Longrightarrow> i < r_nns r"
  shows "cwf r"
  using assms by (auto simp: cwf_def)

lemma setNS_sel [simp]:
  "r_ns (setNS i ns r) = (r_ns r)(i := ns)" "r_nns (setNS i ns r) = r_nns r" "r_streamers (setNS i ns r) = r_streamers r"
  "r_callers (setNS i ns r) = r_callers r" "r_batchSize (setNS i ns r) = r_batchSize r"
  "r_respCh (setNS i ns r) = r_respCh r" "r_metrics (setNS i ns r) = r_metrics r" "r_stopAll (setNS i ns r) = r_stopAll r"
  by (simp_all add: setNS_def)

lemma noteError_sel [simp]:
  "r_ns (noteError e r) = r_ns r" "r_nns (noteError e r) = r_nns r" "r_streamers (noteError e r) = r_streamers r"
  "r_callers (noteError e r) = r_callers r" "r_batchSize (noteError e r) = r_batchSize r"
  "r_respCh (noteError e r) = r_respCh r" "r_metrics (noteError e r) = countError e (r_metrics r)"
  "r_stopAll (noteError e r) = r_stopAll r"
  by (simp_all add: noteError_def)

lemma NewNodeStreamer_sel [simp]:
  "ns_targetSize (NewNodeStreamer ip n) = n" "ns_callbackMap (NewNodeStreamer ip n) = NewShardedCallbackMap"
  "ns_envelopeCh (NewNodeStreamer ip n) = []" "ns_batch (NewNodeStreamer ip n) = []"
  "ns_flusher (NewNodeStreamer ip n) = FlRun" "ns_receiver (NewNodeStreamer ip n) = RRecv"
  "ns_fail (NewNodeStreamer ip n) = FIdle" "ns_dead (NewNodeStreamer ip n) = False" "ns_ctxDone (NewNodeStreamer ip n) = False"
  by (simp_all add: NewNodeStreamer_def)

lemma startFail_sel [simp]:
  "ns_TargetIP (startFail e ns) = ns_TargetIP ns" "ns_targetSize (startFail e ns) = ns_targetSize ns" "ns_callbackMap (startFail e ns) = ns_callbackMap ns"
  "ns_envelopeCh (startFail e ns) = ns_envelopeCh ns" "ns_batch (startFail e ns) = ns_batch ns"
  "ns_receiver (startFail e ns) = ns_receiver ns" "ns_flusher (startFail e ns) = ns_flusher ns"
  by (simp_all add: startFail_def)

text \<open>
  Every step of a streamer's goroutines changes that streamer only, keeps its size, and touches the
  table through its operations.
\<close>

definition keeps :: "Router \<Rightarrow> nat \<Rightarrow> Router \<Rightarrow> bool" where
  "keeps r i r' \<longleftrightarrow> r_ns r' = (r_ns r)(i := r_ns r' i) \<and> r_nns r' = r_nns r \<and> r_callers r' = r_callers r \<and>
     r_batchSize r' = r_batchSize r \<and> (\<forall>ip j. r_streamers r' ip = Some j \<longrightarrow> r_streamers r ip = Some j) \<and>
     ns_targetSize (r_ns r' i) = ns_targetSize (r_ns r i) \<and> ns_TargetIP (r_ns r' i) = ns_TargetIP (r_ns r i) \<and>
     r_stopAll r' = r_stopAll r \<and>
     (ns_callbackMap (r_ns r' i) = ns_callbackMap (r_ns r i) \<or>
       (\<exists>k. ns_callbackMap (r_ns r' i) = cbDelete k (ns_callbackMap (r_ns r i))))"

lemma cbLoadAndDelete_eq: "cbLoadAndDelete k m = (lookup m k, cbDelete k m)"
  by (simp add: cbLoadAndDelete_def cbDelete_def lookup_def Let_def split: option.split)

lemma flusher_keeps: "flusherLoop fc sent i r = Some (r', evs) \<Longrightarrow> keeps r i r'"
  by (auto simp: keeps_def flusherLoop_def sendBatch_def exitFlusher_def Let_def
      split: flusher_pc.splits flush_choice.splits if_splits list.splits)

lemma receiver_keeps: "receiverLoop rv elapsed i r = Some (r', evs) \<Longrightarrow> keeps r i r'"
  by (auto simp: keeps_def receiverLoop_def setReceiver_def cbLoadAndDelete_eq Let_def
      split: receiver_pc.splits client_recv.splits if_splits list.splits prod.splits option.splits)

lemma fail_keeps: "fail_step k i r = Some (r', evs) \<Longrightarrow> keeps r i r'"
  by (auto simp: keeps_def fail_defs failEntry_def Let_def split: fail_pc.splits if_splits option.splits)

text \<open>\<^verbatim>\<open>StopAll\<close> touches only the two flags of streamers.\<close>

lemma StopAll_frame:
  assumes "StopAll ks pc r = Some (pc', r')"
  shows "r_nns r' = r_nns r" "r_streamers r' = r_streamers r" "r_callers r' = r_callers r" "r_batchSize r' = r_batchSize r"
    "r_respCh r' = r_respCh r" "r_metrics r' = r_metrics r" "ns_targetSize (r_ns r' i) = ns_targetSize (r_ns r i)"
    "ns_callbackMap (r_ns r' i) = ns_callbackMap (r_ns r i)" "ns_envelopeCh (r_ns r' i) = ns_envelopeCh (r_ns r i)"
    "ns_batch (r_ns r' i) = ns_batch (r_ns r i)" "ns_flusher (r_ns r' i) = ns_flusher (r_ns r i)"
    "ns_receiver (r_ns r' i) = ns_receiver (r_ns r i)" "stopOf pc \<noteq> Some i \<Longrightarrow> r_ns r' i = r_ns r i"
    "stopOf pc' = Some i \<Longrightarrow> stopOf pc = Some i \<or> (\<exists>ip. r_streamers r ip = Some i)"
    "ns_TargetIP (r_ns r' i) = ns_TargetIP (r_ns r i)"
  using assms by (cases "(ks, pc, r)" rule: StopAll.cases; auto split: if_splits option.splits)+


lemma keeps_cwf:
  assumes "cwf r" and "keeps r i r'" and "i < r_nns r"
  shows "cwf r'"
proof (rule cwfI)
  note k = assms(2) [unfolded keeps_def]
  have ns: "r_ns r' j = (if j = i then r_ns r' i else r_ns r j)" for j
    using k by (metis fun_upd_other)
  show "r_ns r' j = NewNodeStreamer [] (r_batchSize r')" if "r_nns r' \<le> j" for j
    using that assms(3) k ns [of j] cwfD(1) [OF assms(1), of j] by auto
  show "j < r_nns r'" if "r_streamers r' ip = Some j" for ip j
    using that k cwfD(2) [OF assms(1)] by auto
  show "j < r_nns r'" if "streamerOf (r_callers r' c) = Some j" for c j
    using that k cwfD(3) [OF assms(1)] by auto
  show "j < r_nns r'" if "stopOf (r_stopAll r') = Some j" for j
    using that k cwfD(6) [OF assms(1)] by auto
  show "ns_targetSize (r_ns r' j) = r_batchSize r'" for j
    using ns [of j] k cwfD(4) [OF assms(1)] by auto
  show "sm_ok (ns_callbackMap (r_ns r' j))" for j
    using ns [of j] k cwfD(5) [OF assms(1)] sharded.remove_ok(1) by auto
qed

text \<open>The steps of a call.\<close>

definition opened :: "string \<Rightarrow> Router \<Rightarrow> Router" where
  "opened ip r = r\<lparr>r_ns := (r_ns r)(r_nns r := NewNodeStreamer ip (r_batchSize r)), r_nns := Suc (r_nns r),
     r_streamers := (r_streamers r)(ip \<mapsto> r_nns r)\<rparr>"

definition unlisted :: "string \<Rightarrow> Router \<Rightarrow> Router" where
  "unlisted ip r = r\<lparr>r_streamers := (r_streamers r)(ip := None)\<rparr>"

lemma getStreamer_eq:
  "getStreamer dialled ip r = (case r_streamers r ip of
     Some i \<Rightarrow> if \<not> ns_dead (r_ns r i) then (Some i, r) else if dialled then (Some (r_nns r), opened ip r) else (None, unlisted ip r)
   | None \<Rightarrow> if dialled then (Some (r_nns r), opened ip r) else (None, r))"
  by (simp add: getStreamer_def createStreamer_def opened_def unlisted_def split: option.split)

lemma opened_sel [simp]:
  "r_callers (opened ip r) = r_callers r" "r_nns (opened ip r) = Suc (r_nns r)" "r_respCh (opened ip r) = r_respCh r"
  "r_metrics (opened ip r) = r_metrics r" "r_batchSize (opened ip r) = r_batchSize r"
  "r_ns (opened ip r) = (r_ns r)(r_nns r := NewNodeStreamer ip (r_batchSize r))"
  by (simp_all add: opened_def)

lemma unlisted_sel [simp]:
  "r_callers (unlisted ip r) = r_callers r" "r_nns (unlisted ip r) = r_nns r" "r_respCh (unlisted ip r) = r_respCh r"
  "r_metrics (unlisted ip r) = r_metrics r" "r_batchSize (unlisted ip r) = r_batchSize r" "r_ns (unlisted ip r) = r_ns r"
  by (simp_all add: unlisted_def)

lemma opened_cwf: "cwf r \<Longrightarrow> cwf (opened ip r)"
  using less_SucI [OF cwfD(2) [of r]] less_SucI [OF cwfD(3) [of r]] less_SucI [OF cwfD(6) [of r]]
  by (intro cwfI) (auto simp: opened_def cwfD sharded.empty_ok(1) split: if_splits)

lemma unlisted_cwf: "cwf r \<Longrightarrow> cwf (unlisted ip r)"
  by (intro cwfI) (auto simp: unlisted_def cwfD split: if_splits)

lemma noteError_cwf: "cwf r \<Longrightarrow> cwf (noteError e r)"
  by (intro cwfI) (auto simp: cwfD)

lemma pc_cwf: "cwf r \<Longrightarrow> (\<And>i. streamerOf pc = Some i \<Longrightarrow> i < r_nns r) \<Longrightarrow> cwf (r\<lparr>r_callers := (r_callers r)(c := pc)\<rparr>)"
  by (intro cwfI) (auto simp: cwfD split: if_splits)

lemma map_cwf:
  "cwf r \<Longrightarrow> i < r_nns r \<Longrightarrow> sm_ok m \<Longrightarrow> cwf (setNS i ((r_ns r i)\<lparr>ns_callbackMap := m\<rparr>) r)"
  by (intro cwfI) (auto simp: cwfD)

lemma caller_keeps:
  assumes "cwf r" and "caller_step ch dialled c (r_callers r c) r = Some (pc, r', evs)"
  shows "cwf r' \<and> r_callers r' = r_callers r \<and> (\<forall>i. streamerOf pc = Some i \<longrightarrow> i < r_nns r') \<and> callOf pc = callOf (r_callers r c) \<and>
    r_batchSize r' = r_batchSize r"
proof -
  note d = cwfD [OF assms(1)]
  show ?thesis
  proof (cases "r_callers r c")
    case (CLock cl ip n)
    then show ?thesis using assms(2) assms(1) d(2)
      by (auto simp: getStreamer_eq opened_cwf unlisted_cwf noteError_cwf split: option.splits if_splits)
  next
    case (CStore cl ip n i)
    then have "i < r_nns r" using d(3) [of c i] by simp
    then show ?thesis using CStore assms(2) map_cwf [OF assms(1)] sharded.store_ok(1) [OF d(5)]
      by (auto simp: Let_def split: if_splits)
  next
    case (CSelect cl ip n i)
    then have "i < r_nns r" using d(3) [of c i] by simp
    moreover have "cwf (setNS i ((r_ns r i)\<lparr>ns_envelopeCh := x\<rparr>) r)" for x
      using \<open>i < r_nns r\<close> by (intro cwfI) (auto simp: d)
    ultimately show ?thesis using CSelect assms by (auto simp: Let_def split: if_splits)
  next
    case (CDelete cl ip n i)
    then have "i < r_nns r" using d(3) [of c i] by simp
    then show ?thesis using CDelete assms(2) map_cwf [OF assms(1)] sharded.remove_ok(1) [OF d(5)]
      by (auto simp: Let_def noteError_cwf split: if_splits)
  next
    case (CWait cl)
    moreover have "cwf (r\<lparr>r_respCh := x\<rparr>)" for x by (intro cwfI) (auto simp: d)
    ultimately show ?thesis using assms by (auto split: if_splits list.splits)
  next
    case (CForget cl ips)
    then show ?thesis using assms(1,2) d(2) map_cwf [OF assms(1)] sharded.remove_ok(1) [OF d(5)]
      by (cases ips) (auto simp: forgetCallback_def Let_def split: if_splits option.splits)
  next
    case (CEvict cl ip n)
    with assms unlisted_cwf [OF assms(1), of ip] show ?thesis by (auto simp: unlisted_def)
  qed (use assms noteError_cwf d(2) in \<open>auto split: option.splits sum.splits if_splits call_choice.splits\<close>)
qed

theorem cwf_step: "cstep r evs r' \<Longrightarrow> cwf r \<Longrightarrow> cwf r'"
proof (induction rule: cstep.induct)
  case (k_call r c cl)
  then show ?case by (intro pc_cwf) auto
next
  case (k_caller ch dialled c r pc r' evs)
  then show ?case using caller_keeps [OF k_caller(2,1)] by (intro pc_cwf) auto
next
  case (k_stop ks r pc r')
  note d = cwfD [OF k_stop(2)] and f = StopAll_frame [OF k_stop(1)]
  show ?case
  proof (rule cwfI)
    fix i assume "r_nns (r'\<lparr>r_stopAll := pc\<rparr>) \<le> i"
    then show "r_ns (r'\<lparr>r_stopAll := pc\<rparr>) i = NewNodeStreamer [] (r_batchSize (r'\<lparr>r_stopAll := pc\<rparr>))"
      using d(1) [of i] d(6) [of i] f(13) [of i] f(1,4) by fastforce
  next
    fix i assume "stopOf (r_stopAll (r'\<lparr>r_stopAll := pc\<rparr>)) = Some i"
    then show "i < r_nns (r'\<lparr>r_stopAll := pc\<rparr>)" using f(14) [of i] d(2,6) f(1) by auto
  qed (use d f(1-4,7,8) in auto)
next
  case (k_topology r f)
  then show ?case using cwfD [of r] by (auto intro!: cwfI)
qed (blast intro: keeps_cwf flusher_keeps receiver_keeps fail_keeps)+


section \<open>Envelopes on the way to the node\<close>

fun accepted1 :: "nat \<Rightarrow> cevent \<Rightarrow> RemoteEnvelope list" where
  "accepted1 i (Accepted j env) = (if j = i then [env] else [])"
| "accepted1 i _ = []"

fun sent1 :: "nat \<Rightarrow> cevent \<Rightarrow> RemoteEnvelope list list" where
  "sent1 i (SentBatch j b) = (if j = i then [b] else [])"
| "sent1 i _ = []"

definition accepted :: "cevent list \<Rightarrow> nat \<Rightarrow> RemoteEnvelope list" where
  "accepted tr i = concat (map (accepted1 i) tr)"

definition sentTo :: "cevent list \<Rightarrow> nat \<Rightarrow> RemoteEnvelope list list" where
  "sentTo tr i = concat (map (sent1 i) tr)"

lemma cevent_simps [simp]:
  "accepted [] i = []" "accepted (e # es) i = accepted1 i e @ accepted es i" "accepted (xs @ ys) i = accepted xs i @ accepted ys i"
  "sentTo [] i = []" "sentTo (e # es) i = sent1 i e @ sentTo es i" "sentTo (xs @ ys) i = sentTo xs i @ sentTo ys i"
  by (simp_all add: accepted_def sentTo_def)

definition roomy :: "nat \<Rightarrow> NodeStreamer \<Rightarrow> bool" where
  "roomy n ns \<longleftrightarrow> length (ns_envelopeCh ns) \<le> 2 * n \<and> length (ns_batch ns) \<le> n \<and>
     (ns_flusher ns = FlRun \<longrightarrow> length (ns_batch ns) < n)"

text \<open>A step moves envelopes along the pipeline of one streamer, or leaves it alone.\<close>

definition moves :: "Router \<Rightarrow> cevent list \<Rightarrow> Router \<Rightarrow> nat \<Rightarrow> bool" where
  "moves r evs r' i \<longleftrightarrow> (let ns = r_ns r i; ns' = r_ns r' i in
     concat (sentTo evs i) @ ns_batch ns' @ ns_envelopeCh ns' = ns_batch ns @ ns_envelopeCh ns @ accepted evs i \<and>
     (\<forall>b \<in> set (sentTo evs i). 0 < length b \<and> length b \<le> r_batchSize r) \<and> roomy (r_batchSize r) ns')"

lemma movesI:
  assumes "roomy (r_batchSize r) (r_ns r i)" and "sentTo evs i = []" "accepted evs i = []"
    and "ns_batch (r_ns r' i) = ns_batch (r_ns r i)" "ns_envelopeCh (r_ns r' i) = ns_envelopeCh (r_ns r i)"
      "ns_flusher (r_ns r' i) = ns_flusher (r_ns r i)"
  shows "moves r evs r' i"
  using assms by (simp add: moves_def roomy_def Let_def)

lemma receiver_moves:
  assumes "receiverLoop rv elapsed j r = Some (r', evs)" and "roomy (r_batchSize r) (r_ns r i)"
  shows "moves r evs r' i"
  using assms(1)
  by (intro movesI [OF assms(2)]) (auto simp: receiverLoop_def setReceiver_def cbLoadAndDelete_eq Let_def
      split: receiver_pc.splits client_recv.splits if_splits list.splits prod.splits option.splits)

lemma fail_moves:
  assumes "fail_step k j r = Some (r', evs)" and "roomy (r_batchSize r) (r_ns r i)"
  shows "moves r evs r' i"
  using assms(1)
  by (intro movesI [OF assms(2)])
    (auto simp: fail_defs failEntry_def Let_def split: fail_pc.splits if_splits option.splits)

lemma stop_moves:
  assumes "StopAll ks pc r = Some (pc', r')" and "roomy (r_batchSize r) (r_ns r i)"
  shows "moves r [] (r'\<lparr>r_stopAll := pc'\<rparr>) i"
  by (rule movesI [OF assms(2)]) (simp_all add: StopAll_frame [OF assms(1)])

lemma flusher_moves:
  assumes "flusherLoop fc sent j r = Some (r', evs)" and "roomy (r_batchSize r) (r_ns r i)" and "ns_targetSize (r_ns r j) = r_batchSize r"
  shows "moves r evs r' i"
  using assms
  by (auto simp: moves_def roomy_def flusherLoop_def sendBatch_def exitFlusher_def Let_def
      split: flusher_pc.splits flush_choice.splits if_splits list.splits)

lemma caller_moves:
  assumes "cwf r" and "caller_step ch dialled c (r_callers r c) r = Some (pc, r', evs)" and "roomy (r_batchSize r) (r_ns r i)"
    and "0 < r_batchSize r"
  shows "moves r evs r' i"
proof -
  note d = cwfD(1,4) [OF assms(1)]
  show ?thesis
  proof (cases "r_callers r c")
    case (CSelect cl ip n j)
    then show ?thesis using assms(2,3) d(2) [of j]
      by (auto simp: moves_def roomy_def Let_def split: if_splits)
  next
    case (CLock cl ip n)
    then show ?thesis using assms(2,4) d(1) [of "r_nns r"]
      by (intro movesI [OF assms(3)]) (auto simp: getStreamer_eq split: option.splits if_splits)
  next
    case (CForget cl ips)
    then show ?thesis using assms(2)
      by (intro movesI [OF assms(3)]; cases ips) (auto simp: Let_def forgetCallback_def split: if_splits option.splits)
  qed (use assms(2) in \<open>intro movesI [OF assms(3)];
    auto simp: Let_def split: if_splits option.splits sum.splits list.splits call_choice.splits\<close>)+
qed

lemma cstep_batchSize: "cstep r evs r' \<Longrightarrow> cwf r \<Longrightarrow> r_batchSize r' = r_batchSize r"
proof (induction rule: cstep.induct)
  case (k_caller ch dialled c r pc r' evs)
  then show ?case using caller_keeps [OF k_caller(2,1)] by simp
qed (auto simp: keeps_def StopAll_frame(4) dest!: flusher_keeps receiver_keeps fail_keeps)

theorem cstep_moves:
  assumes "cstep r evs r'" and "cwf r" and "\<And>i. roomy (r_batchSize r) (r_ns r i)" and "0 < r_batchSize r"
  shows "moves r evs r' i"
  using assms(1)
proof (cases rule: cstep.cases)
  case (k_caller ch dialled c pc r1)
  then show ?thesis using caller_moves [OF assms(2) k_caller(2) assms(3,4), of i] by (simp add: moves_def)
qed (use assms(3) in \<open>auto intro: receiver_moves fail_moves stop_moves flusher_moves simp: cwfD [OF assms(2)] movesI\<close>)

section \<open>Results on the way to the caller\<close>

text \<open>The call of a caller asked for this request.\<close>

definition asked :: "Router \<Rightarrow> nat \<Rightarrow> uint64 \<Rightarrow> bool" where
  "asked r c k \<longleftrightarrow> (\<exists>cl. callOf (r_callers r c) = Some cl \<and> reqID cl = k)"

definition corr :: "Router \<Rightarrow> bool" where
  "corr r \<longleftrightarrow> (\<forall>i k e c. lookup (ns_callbackMap (r_ns r i)) k = Some e \<longrightarrow> ce_respCh e = Some c \<longrightarrow> asked r c k) \<and>
     (\<forall>i c res rs. ns_receiver (r_ns r i) = RDeliver c res rs \<longrightarrow> asked r c (res_RequestId res)) \<and>
     (\<forall>c. \<forall>res \<in> set (r_respCh r c). asked r c (res_RequestId res)) \<and>
     (\<forall>c cl res. r_callers r c = CReturned cl (Some res) \<longrightarrow> res_RequestId res = reqID cl)"

lemma corrD:
  assumes "corr r"
  shows "lookup (ns_callbackMap (r_ns r i)) k = Some e \<Longrightarrow> ce_respCh e = Some c \<Longrightarrow> asked r c k"
    "ns_receiver (r_ns r i) = RDeliver c res rs \<Longrightarrow> asked r c (res_RequestId res)"
    "res \<in> set (r_respCh r c) \<Longrightarrow> asked r c (res_RequestId res)"
    "r_callers r c = CReturned cl (Some res) \<Longrightarrow> res_RequestId res = reqID cl"
  using assms unfolding corr_def by blast+

lemma corrI:
  assumes "\<And>i k e c. lookup (ns_callbackMap (r_ns r i)) k = Some e \<Longrightarrow> ce_respCh e = Some c \<Longrightarrow> asked r c k"
    "\<And>i c res rs. ns_receiver (r_ns r i) = RDeliver c res rs \<Longrightarrow> asked r c (res_RequestId res)"
    "\<And>c res. res \<in> set (r_respCh r c) \<Longrightarrow> asked r c (res_RequestId res)"
    "\<And>c cl res. r_callers r c = CReturned cl (Some res) \<Longrightarrow> res_RequestId res = reqID cl"
  shows "corr r"
  using assms unfolding corr_def by blast

text \<open>A step of a streamer's goroutines keeps the calls; it may move a table entry to the receiver.\<close>

lemma corr_streamer:
  assumes "corr r" and "keeps r i r'" and "cwf r"
    and "\<And>c res rs. ns_receiver (r_ns r' i) = RDeliver c res rs \<Longrightarrow> asked r c (res_RequestId res)"
    and "\<And>c res. res \<in> set (r_respCh r' c) \<Longrightarrow> asked r c (res_RequestId res)"
  shows "corr r'"
proof (rule corrI)
  note k = assms(2) [unfolded keeps_def]
  have a: "asked r' = asked r" using k by (simp add: asked_def fun_eq_iff)
  have ns: "r_ns r' j = (if j = i then r_ns r' i else r_ns r j)" for j using k by (metis fun_upd_other)
  show "asked r' c q" if "lookup (ns_callbackMap (r_ns r' j)) q = Some e" "ce_respCh e = Some c" for j q e c
  proof -
    have "lookup (ns_callbackMap (r_ns r j)) q = Some e"
      using that(1) ns [of j] k sharded.remove_ok(2) [OF cwfD(5) [OF assms(3), of i]] by (auto split: if_splits)
    then show ?thesis using corrD(1) [OF assms(1) _ that(2)] a by simp
  qed
  show "asked r' c (res_RequestId res)" if "ns_receiver (r_ns r' j) = RDeliver c res rs" for j c res rs
    using that ns [of j] assms(4) corrD(2) [OF assms(1)] a by (auto split: if_splits)
  show "asked r' c (res_RequestId res)" if "res \<in> set (r_respCh r' c)" for c res using assms(5) [OF that] a by simp
  show "res_RequestId res = reqID cl" if "r_callers r' c = CReturned cl (Some res)" for c cl res
    using that k corrD(4) [OF assms(1)] by simp
qed

lemma receiver_corr:
  assumes "corr r" and "cwf r" and "receiverLoop rv elapsed i r = Some (r', evs)"
  shows "corr r'"
proof (rule corr_streamer [OF assms(1) receiver_keeps [OF assms(3)] assms(2)])
  show "asked r c (res_RequestId res)" if "ns_receiver (r_ns r' i) = RDeliver c res rs" for c res rs
    using assms(3) that corrD(1) [OF assms(1), of i]
    by (auto simp: receiverLoop_def setReceiver_def cbLoadAndDelete_eq Let_def
        split: receiver_pc.splits client_recv.splits if_splits list.splits prod.splits option.splits)
  show "asked r c (res_RequestId res)" if "res \<in> set (r_respCh r' c)" for c res
    using assms(3) that corrD(2) [OF assms(1), of i] corrD(3) [OF assms(1)]
    by (auto simp: receiverLoop_def setReceiver_def cbLoadAndDelete_eq Let_def
        split: receiver_pc.splits client_recv.splits if_splits list.splits prod.splits option.splits)
qed

lemma lookup_shard: "sm_ok m \<Longrightarrow> sm_shards m j k = Some e \<Longrightarrow> lookup m k = Some e"
  by (auto simp: sm_ok_def lookup_def)

lemma fail_corr:
  assumes "corr r" and "cwf r" and "fail_step k i r = Some (r', evs)"
  shows "corr r'"
proof (rule corr_streamer [OF assms(1) fail_keeps [OF assms(3)] assms(2)])
  show "asked r c (res_RequestId res)" if "ns_receiver (r_ns r' i) = RDeliver c res rs" for c res rs
    using assms(3) that corrD(2) [OF assms(1), of i]
    by (auto simp: fail_defs failEntry_def Let_def split: fail_pc.splits if_splits option.splits)
  show "asked r c (res_RequestId res)" if "res \<in> set (r_respCh r' c)" for c res
    using assms(3) that corrD(1) [OF assms(1) lookup_shard [OF cwfD(5) [OF assms(2)]]] corrD(3) [OF assms(1)]
    by (auto simp: fail_defs failEntry_def Let_def failResult_def split: fail_pc.splits if_splits option.splits)
qed

lemma flusher_corr:
  assumes "corr r" and "cwf r" and "flusherLoop fc sent i r = Some (r', evs)"
  shows "corr r'"
  by (rule corr_streamer [OF assms(1) flusher_keeps [OF assms(3)] assms(2)])
    (use assms(3) corrD(2,3) [OF assms(1)] in \<open>auto simp: flusherLoop_def sendBatch_def exitFlusher_def Let_def
      split: flusher_pc.splits flush_choice.splits if_splits list.splits\<close>)

lemma stop_corr:
  assumes "corr r" and "StopAll ks pc r = Some (pc', r')"
  shows "corr (r'\<lparr>r_stopAll := pc'\<rparr>)"
proof -
  note f = StopAll_frame [OF assms(2)]
  have "asked (r'\<lparr>r_stopAll := pc'\<rparr>) = asked r" by (simp add: asked_def f fun_eq_iff)
  then show ?thesis using corrD [OF assms(1)] by (intro corrI) (simp_all add: f)
qed

lemma asked_pc:
  "callOf pc = callOf (r_callers r c) \<Longrightarrow> r_callers r' = r_callers r \<Longrightarrow>
     asked (r'\<lparr>r_callers := (r_callers r')(c := pc)\<rparr>) = asked r"
  by (auto simp: asked_def fun_eq_iff)

lemma corr_caller:
  assumes "corr r" and "callOf pc = callOf (r_callers r c)" and "r_callers r' = r_callers r"
    and "\<And>i k e d. lookup (ns_callbackMap (r_ns r' i)) k = Some e \<Longrightarrow> ce_respCh e = Some d \<Longrightarrow> asked r d k"
    and "\<And>i. ns_receiver (r_ns r' i) = ns_receiver (r_ns r i) \<or> ns_receiver (r_ns r' i) = RRecv"
    and "\<And>d. set (r_respCh r' d) \<subseteq> set (r_respCh r d)"
    and "\<And>cl res. pc = CReturned cl (Some res) \<Longrightarrow> res_RequestId res = reqID cl"
  shows "corr (r'\<lparr>r_callers := (r_callers r')(c := pc)\<rparr>)"
proof (rule corrI)
  note a = asked_pc [OF assms(2,3)]
  let ?r = "r'\<lparr>r_callers := (r_callers r')(c := pc)\<rparr>"
  show "asked ?r d q" if "lookup (ns_callbackMap (r_ns ?r j)) q = Some e" "ce_respCh e = Some d" for j q e d
    using that assms(4) a by simp
  show "asked ?r d (res_RequestId res)" if "ns_receiver (r_ns ?r j) = RDeliver d res rs" for j d res rs
    using that assms(5) [of j] corrD(2) [OF assms(1), of j d res rs] a by auto
  show "asked ?r d (res_RequestId res)" if "res \<in> set (r_respCh ?r d)" for d res
    using that assms(6) [of d] corrD(3) [OF assms(1)] a by auto
  show "res_RequestId res = reqID cl" if "r_callers ?r d = CReturned cl (Some res)" for d cl res
    using that assms(3,7) corrD(4) [OF assms(1), of d] by (auto split: if_splits)
qed

lemma synthetic_id [simp]: "res_RequestId (syntheticResult (cl_env cl) e m) = reqID cl"
  by (simp add: syntheticResult_def reqID_def)

lemma caller_corr:
  assumes "corr r" and "cwf r" and "caller_step ch dialled c (r_callers r c) r = Some (pc, r', evs)"
  shows "corr (r'\<lparr>r_callers := (r_callers r')(c := pc)\<rparr>)"
proof -
  have kp: "callOf pc = callOf (r_callers r c)" "r_callers r' = r_callers r"
    using caller_keeps [OF assms(2,3)] by simp_all
  note d = cwfD [OF assms(2)] and cd = corrD [OF assms(1)]
  have map: "asked r d k" if "lookup (ns_callbackMap (r_ns r' i)) k = Some e" "ce_respCh e = Some d" for i k e d
  proof (cases "r_callers r c")
    case (CStore cl ip n j)
    then show ?thesis using assms(3) that cd(1) [of i k e d] sharded.store_ok(2) [OF d(5) [of j]]
      by (auto simp: Let_def asked_def entryOf_def split: if_splits)
  next
    case (CLock cl ip n)
    then show ?thesis using assms(3) that cd(1) [of i k e d] sharded.empty_ok(2)
      by (auto simp: getStreamer_eq split: option.splits if_splits)
  next
    case (CDelete cl ip n j)
    then show ?thesis using assms(3) that cd(1) [of i k e d] sharded.remove_ok(2) [OF d(5) [of j]]
      by (auto simp: Let_def split: if_splits)
  next
    case (CForget cl ips)
    then show ?thesis using assms(3) that cd(1) [of i k e d] sharded.remove_ok(2) [OF d(5) [of i]]
      by (cases ips) (auto simp: forgetCallback_def Let_def split: if_splits option.splits)
  qed (use assms(3) that cd(1) [of i k e d] in \<open>auto simp: Let_def split: if_splits option.splits sum.splits list.splits call_choice.splits\<close>)
  show ?thesis
  proof (rule corr_caller [OF assms(1) kp map])
    show "ns_receiver (r_ns r' i) = ns_receiver (r_ns r i) \<or> ns_receiver (r_ns r' i) = RRecv" for i
      using assms(3) by (cases "(ch, dialled, c, r_callers r c, r)" rule: caller_step.cases)
        (auto simp: Let_def forgetCallback_def getStreamer_eq split: if_splits option.splits sum.splits list.splits call_choice.splits)
    show "set (r_respCh r' d) \<subseteq> set (r_respCh r d)" for d
      using assms(3) by (cases "(ch, dialled, c, r_callers r c, r)" rule: caller_step.cases)
        (auto simp: Let_def forgetCallback_def getStreamer_eq split: if_splits option.splits sum.splits list.splits call_choice.splits)
    show "res_RequestId res = reqID cl" if "pc = CReturned cl (Some res)" for cl res
      using assms(3) that cd(3) [of res c] by (cases "(ch, dialled, c, r_callers r c, r)" rule: caller_step.cases)
        (auto simp: Let_def forgetCallback_def getStreamer_eq asked_def split: if_splits option.splits sum.splits list.splits call_choice.splits)
  qed
qed

theorem corr_step: "cstep r evs r' \<Longrightarrow> cwf r \<Longrightarrow> corr r \<Longrightarrow> corr r'"
proof (induction rule: cstep.induct)
  case (k_call r c cl)
  then show ?case using corrD [of r]
    by (intro corrI) (auto simp: asked_def split: if_splits; fastforce)+
next
  case (k_topology r f)
  then show ?case using corrD [of r] by (intro corrI) (auto simp: asked_def)
qed (auto intro: caller_corr receiver_corr fail_corr flusher_corr stop_corr)

end
