(* ===== verification/ClientAnswers.thy ===== *)
theory ClientAnswers
  imports ClientTrace
begin

text \<open>
  The guarantees of the client over whole runs: results reach the call that asked, envelopes keep
  their order, a call is answered at most once per registration and the counters are exact. The
  last section shows runs in which the client does less than its documentation promises.
\<close>

section \<open>How often a caller is answered\<close>

definition mapHold :: "ShardedCallbackMap \<Rightarrow> nat \<Rightarrow> nat" where
  "mapHold m c = (if \<exists>k e. lookup m k = Some e \<and> ce_respCh e = Some c then 1 else 0)"

fun recvHold :: "receiver_pc \<Rightarrow> nat \<Rightarrow> nat" where
  "recvHold (RDeliver d res rs) c = (if d = c then 1 else 0)"
| "recvHold _ c = 0"

definition hold :: "Router \<Rightarrow> nat \<Rightarrow> nat \<Rightarrow> nat" where
  "hold r c i = mapHold (ns_callbackMap (r_ns r i)) c + recvHold (ns_receiver (r_ns r i)) c"

definition delivered :: "cevent list \<Rightarrow> nat \<Rightarrow> nat" where
  "delivered tr c = length (filter (\<lambda>e. case e of Delivered d res \<Rightarrow> d = c | _ \<Rightarrow> False) tr)"

definition stores :: "cevent list \<Rightarrow> nat \<Rightarrow> nat" where
  "stores tr c = length (filter (\<lambda>e. case e of Stored d i \<Rightarrow> d = c | _ \<Rightarrow> False) tr)"

lemma counts_append [simp]:
  "delivered (xs @ ys) c = delivered xs c + delivered ys c" "stores (xs @ ys) c = stores xs c + stores ys c"
  "delivered [] c = 0" "stores [] c = 0"
  by (simp_all add: delivered_def stores_def)

lemma mapHold_delete: "sm_ok m \<Longrightarrow> mapHold (cbDelete k m) c \<le> mapHold m c"
  by (auto simp: mapHold_def sharded.remove_ok(2) split: if_splits)

lemma mapHold_store:
  "sm_ok m \<Longrightarrow> mapHold (cbStore k e m) c \<le> mapHold m c + (if ce_respCh e = Some c then 1 else 0)"
  by (auto simp: mapHold_def sharded.store_ok(2) split: if_splits)

lemma mapHold_empty [simp]: "mapHold NewShardedCallbackMap c = 0"
  by (simp add: mapHold_def sharded.empty_ok(2))

lemma mapHold_take:
  assumes "sm_ok m" and "lookup m k = Some e" "ce_respCh e = Some c"
    and "\<And>k' e'. lookup m k' = Some e' \<Longrightarrow> ce_respCh e' = Some c \<Longrightarrow> k' = k"
  shows "mapHold (cbDelete k m) c = 0" "mapHold m c = 1"
proof -
  have "\<nexists>k' e'. lookup (cbDelete k m) k' = Some e' \<and> ce_respCh e' = Some c"
  proof
    assume "\<exists>k' e'. lookup (cbDelete k m) k' = Some e' \<and> ce_respCh e' = Some c"
    then obtain k' e' where "k' \<noteq> k" "lookup m k' = Some e'" "ce_respCh e' = Some c"
      by (auto simp: sharded.remove_ok(2) [OF assms(1)] split: if_splits)
    with assms(4) show False by blast
  qed
  then show "mapHold (cbDelete k m) c = 0" by (simp add: mapHold_def)
  show "mapHold m c = 1" using assms(2,3) by (auto simp: mapHold_def)
qed

text \<open>One streamer changes.\<close>

lemma hold_one:
  assumes "fin_supp (hold r c)" and "\<And>j. j \<noteq> i \<Longrightarrow> hold r' c j = hold r c j"
    and "hold r' c i + a \<le> hold r c i + b"
  shows "fin_supp (hold r' c) \<and> fsum (hold r' c) + a \<le> fsum (hold r c) + b"
proof -
  have eq: "hold r' c = (hold r c)(i := hold r' c i)" using assms(2) by auto
  have "fsum (hold r' c) + hold r c i = fsum (hold r c) + hold r' c i"
    using fsum_upd_add [OF assms(1), of i "hold r' c i"] eq by simp
  moreover have "fin_supp (hold r' c)" using fin_supp_upd [OF assms(1), of i "hold r' c i"] eq by simp
  ultimately show ?thesis using assms(3) by linarith
qed

definition answers_ok :: "cevent list \<Rightarrow> Router \<Rightarrow> nat \<Rightarrow> bool" where
  "answers_ok tr r c \<longleftrightarrow> fin_supp (hold r c) \<and> fsum (hold r c) + delivered tr c \<le> stores tr c \<and>
     length (r_respCh r c) \<le> delivered tr c"

lemma corr_key: "corr r \<Longrightarrow> lookup (ns_callbackMap (r_ns r i)) k = Some e \<Longrightarrow> ce_respCh e = Some c \<Longrightarrow>
   lookup (ns_callbackMap (r_ns r i)) k' = Some e' \<Longrightarrow> ce_respCh e' = Some c \<Longrightarrow> k' = k"
  using corrD(1) [of r i k e c] corrD(1) [of r i k' e' c] by (auto simp: asked_def)

lemma streamer_hold:
  assumes "keeps r i r'" and "fin_supp (hold r c)"
    and "hold r' c i + delivered evs c \<le> hold r c i" 
  shows "fin_supp (hold r' c) \<and> fsum (hold r' c) + delivered evs c \<le> fsum (hold r c)"
proof -
  have "r_ns r' = (r_ns r)(i := r_ns r' i)" using assms(1) by (simp add: keeps_def)
  then have "\<And>j. j \<noteq> i \<Longrightarrow> hold r' c j = hold r c j" unfolding hold_def by (metis fun_upd_other)
  from hold_one [OF assms(2) this, of i "delivered evs c" 0] assms(3) show ?thesis by simp
qed

lemma receiver_hold:
  assumes "receiverLoop rv elapsed i r = Some (r', evs)" and "cwf r" and "corr r"
  shows "hold r' c i + delivered evs c \<le> hold r c i \<and> stores evs c = 0 \<and>
    length (r_respCh r' c) \<le> length (r_respCh r c) + delivered evs c"
  using assms(1) mapHold_delete [OF cwfD(5) [OF assms(2), of i]] mapHold_take [OF cwfD(5) [OF assms(2), of i]] corr_key [OF assms(3), of i]
  by (auto simp: receiverLoop_def setReceiver_def cbLoadAndDelete_eq hold_def delivered_def stores_def Let_def
      split: receiver_pc.splits client_recv.splits if_splits list.splits prod.splits option.splits)


lemma fail_hold:
  assumes "fail_step k i r = Some (r', evs)" and "cwf r" and "corr r"
  shows "hold r' c i + delivered evs c \<le> hold r c i \<and> stores evs c = 0 \<and>
    length (r_respCh r' c) \<le> length (r_respCh r c) + delivered evs c"
proof (cases "\<exists>errCode j e. ns_fail (r_ns r i) = FFailAll errCode j \<and> sm_shards (ns_callbackMap (r_ns r i)) j k = Some e \<and> j < 256")
  case True
  then obtain errCode j e where f: "ns_fail (r_ns r i) = FFailAll errCode j" "sm_shards (ns_callbackMap (r_ns r i)) j k = Some e" "j < 256"
    by blast
  have ok: "sm_ok (ns_callbackMap (r_ns r i))" by (rule cwfD(5) [OF assms(2)])
  have l: "lookup (ns_callbackMap (r_ns r i)) k = Some e" by (rule lookup_shard [OF ok f(2)])
  have "failEntry errCode k e i r = Some (r', evs)" using assms(1) f by (auto simp: fail_defs Let_def split: if_splits)
  then show ?thesis
    using mapHold_delete [OF ok, of k c] mapHold_take [OF ok l] corr_key [OF assms(3) l]
    by (auto simp: failEntry_def hold_def delivered_def stores_def Let_def split: option.splits if_splits)
next
  case False
  then show ?thesis using assms(1)
    by (auto simp: fail_defs hold_def delivered_def stores_def Let_def split: fail_pc.splits option.splits if_splits)
qed

lemma flusher_hold:
  assumes "flusherLoop fc sent i r = Some (r', evs)"
  shows "hold r' c i + delivered evs c \<le> hold r c i \<and> stores evs c = 0 \<and>
    length (r_respCh r' c) \<le> length (r_respCh r c) + delivered evs c"
  using assms
  by (auto simp: flusherLoop_def sendBatch_def exitFlusher_def hold_def delivered_def stores_def Let_def
      split: flusher_pc.splits flush_choice.splits if_splits list.splits)

lemma hold_frame:
  "(\<And>i. ns_callbackMap (r_ns r' i) = ns_callbackMap (r_ns r i) \<and> ns_receiver (r_ns r' i) = ns_receiver (r_ns r i)) \<Longrightarrow>
     hold r' d = hold r d"
  by (simp add: hold_def fun_eq_iff)

lemma stop_hold:
  assumes "StopAll ks pc r = Some (pc', r')"
  shows "hold (r'\<lparr>r_stopAll := pc'\<rparr>) c = hold r c"
  by (rule hold_frame) (simp add: StopAll_frame [OF assms])

lemma caller_hold:
  assumes "cwf r" and "caller_step ch dialled c (r_callers r c) r = Some (pc, r', evs)" and "fin_supp (hold r d)"
  shows "fin_supp (hold r' d) \<and> fsum (hold r' d) \<le> fsum (hold r d) + stores evs d \<and> delivered evs d = 0 \<and>
    length (r_respCh r' d) \<le> length (r_respCh r d)"
proof (cases "r_callers r c")
  case (CStore cl ip n i)
  then have r': "r' = setNS i ((r_ns r i)\<lparr>ns_callbackMap := cbStore (reqID cl) (entryOf c cl) (ns_callbackMap (r_ns r i))\<rparr>) r"
    and evs: "evs = [Stored c i]" using assms(2) by (auto simp: Let_def split: if_splits)
  have "hold r' d i + 0 \<le> hold r d i + stores evs d"
    using mapHold_store [OF cwfD(5) [OF assms(1), of i], of "reqID cl" "entryOf c cl" d]
    by (auto simp: r' evs hold_def stores_def entryOf_def split: if_splits)
  from hold_one [OF assms(3) _ this] show ?thesis by (simp add: r' evs hold_def delivered_def)
next
  case (CDelete cl ip n i)
  have "hold r' d i + 0 \<le> hold r d i + stores evs d"
    using assms(2) CDelete mapHold_delete [OF cwfD(5) [OF assms(1), of i], of "reqID cl" d]
    by (auto simp: hold_def stores_def Let_def split: if_splits)
  from hold_one [OF assms(3) _ this] show ?thesis using assms(2) CDelete
    by (auto simp: hold_def delivered_def Let_def split: if_splits)
next
  case (CForget cl ips)
  show ?thesis
  proof (cases "\<exists>ip rest i. ips = ip # rest \<and> r_streamers r ip = Some i")
    case True
    then obtain ip rest i where ip: "ips = ip # rest" "r_streamers r ip = Some i" by blast
    then have r': "r' = setNS i ((r_ns r i)\<lparr>ns_callbackMap := cbDelete (reqID cl) (ns_callbackMap (r_ns r i))\<rparr>) r" "evs = []"
      using assms(2) CForget by (auto simp: forgetCallback_def Let_def split: if_splits)
    have "hold r' d i + 0 \<le> hold r d i + stores evs d"
      using mapHold_delete [OF cwfD(5) [OF assms(1), of i], of "reqID cl" d] by (simp add: r' hold_def stores_def)
    from hold_one [OF assms(3) _ this] show ?thesis by (simp add: r' hold_def delivered_def)
  next
    case False
    then have "r' = r" "evs = []" using assms(2) CForget by (cases ips; auto simp: forgetCallback_def split: option.splits)+
    then show ?thesis using assms(3) by simp
  qed
next
  case (CTimeout cl)
  have "hold r' d = hold r d"
    by (rule hold_frame) (use assms(2) CTimeout in \<open>auto split: if_splits call_choice.splits\<close>)
  moreover have "stores evs d = 0" "delivered evs d = 0" "length (r_respCh r' d) \<le> length (r_respCh r d)"
    using assms(2) CTimeout by (auto simp: delivered_def stores_def split: if_splits call_choice.splits)
  ultimately show ?thesis using assms(3) by simp
next
  case (CLock cl ip n)
  have "hold r' d = hold r d"
    using assms(2) CLock cwfD(1) [OF assms(1), of "r_nns r"]
    by (auto simp: hold_def getStreamer_eq fun_eq_iff split: option.splits if_splits)
  moreover have "stores evs d = 0" "delivered evs d = 0" "length (r_respCh r' d) \<le> length (r_respCh r d)"
    using assms(2) CLock by (auto simp: delivered_def stores_def getStreamer_eq split: option.splits if_splits)
  ultimately show ?thesis using assms(3) by simp
next
  case (CSelect cl ip n i)
  have "hold r' d = hold r d"
    by (rule hold_frame) (use assms(2) CSelect in \<open>auto simp: Let_def split: if_splits\<close>)
  moreover have "stores evs d = 0" "delivered evs d = 0" "length (r_respCh r' d) \<le> length (r_respCh r d)"
    using assms(2) CSelect by (auto simp: delivered_def stores_def Let_def split: if_splits)
  ultimately show ?thesis using assms(3) by simp
next
  case (CWait cl)
  have "hold r' d = hold r d"
    by (rule hold_frame) (use assms(2) CWait in \<open>auto split: if_splits list.splits\<close>)
  moreover have "stores evs d = 0" "delivered evs d = 0" "length (r_respCh r' d) \<le> length (r_respCh r d)"
    using assms(2) CWait by (auto simp: delivered_def stores_def split: if_splits list.splits)
  ultimately show ?thesis using assms(3) by simp
next
  case (CResolve cl)
  have "hold r' d = hold r d"
    by (rule hold_frame) (use assms(2) CResolve in \<open>auto split: sum.splits\<close>)
  moreover have "stores evs d = 0" "delivered evs d = 0" "length (r_respCh r' d) \<le> length (r_respCh r d)"
    using assms(2) CResolve by (auto simp: delivered_def stores_def split: sum.splits)
  ultimately show ?thesis using assms(3) by simp
next
  case (CEvict cl ip n)
  have "hold r' d = hold r d" by (rule hold_frame) (use assms(2) CEvict in auto)
  moreover have "stores evs d = 0" "delivered evs d = 0" "length (r_respCh r' d) \<le> length (r_respCh r d)"
    using assms(2) CEvict by (auto simp: delivered_def stores_def)
  ultimately show ?thesis using assms(3) by simp
qed (use assms(2,3) in \<open>auto simp: delivered_def stores_def split: option.splits\<close>)


text \<open>The number of times a call has entered its request in a table, by its program point.\<close>

fun tries :: "caller_pc \<Rightarrow> nat" where
  "tries CIdle = 0"
| "tries (CResolve cl) = 0"
| "tries (CGet cl ip n) = n"
| "tries (CEvict cl ip n) = n"
| "tries (CLock cl ip n) = n"
| "tries (CStore cl ip n i) = n"
| "tries (CSelect cl ip n i) = Suc n"
| "tries (CDelete cl ip n i) = Suc n"
| "tries _ = 2"

fun attempt_ok :: "caller_pc \<Rightarrow> bool" where
  "attempt_ok (CGet cl ip n) \<longleftrightarrow> n < 2"
| "attempt_ok (CEvict cl ip n) \<longleftrightarrow> n < 2"
| "attempt_ok (CLock cl ip n) \<longleftrightarrow> n < 2"
| "attempt_ok (CStore cl ip n i) \<longleftrightarrow> n < 2"
| "attempt_ok (CSelect cl ip n i) \<longleftrightarrow> n < 2"
| "attempt_ok (CDelete cl ip n i) \<longleftrightarrow> n < 2"
| "attempt_ok _ \<longleftrightarrow> True"

lemma tries_bound: "attempt_ok pc \<Longrightarrow> tries pc \<le> 2"
  by (cases pc) auto

lemma caller_tries:
  assumes "caller_step ch dialled c (r_callers r c) r = Some (pc, r', evs)" and "attempt_ok (r_callers r c)"
  shows "attempt_ok pc \<and> tries (r_callers r c) + stores evs c \<le> tries pc \<and> (d \<noteq> c \<longrightarrow> stores evs d = 0)"
  using assms
  by (cases "(ch, dialled, c, r_callers r c, r)" rule: caller_step.cases)
    (auto simp: stores_def Let_def split: if_splits option.splits sum.splits list.splits prod.splits call_choice.splits)

section \<open>Errors are classified\<close>

definition classified :: "Metrics \<Rightarrow> bool" where
  "classified m \<longleftrightarrow> fin_supp (\<lambda>k. case errBreakdown m k of None \<Rightarrow> 0 | Some v \<Rightarrow> v) \<and>
     errCount m = fsum (\<lambda>k. case errBreakdown m k of None \<Rightarrow> 0 | Some v \<Rightarrow> v)"

lemma classified_zero: "classified zeroMetrics"
  by (simp add: classified_def zeroMetrics_def)

lemma classified_count:
  assumes "classified m"
  shows "classified (countError e m)"
proof -
  let ?f = "\<lambda>k. case errBreakdown m k of None \<Rightarrow> 0 | Some v \<Rightarrow> v"
  define code where "code = (if e = [] then ''UNKNOWN'' else e)"
  have eq: "(\<lambda>k. case errBreakdown (countError e m) k of None \<Rightarrow> 0 | Some v \<Rightarrow> v) = ?f(code := ?f code + 1)"
    by (auto simp: countError_def RecordError_def code_def Let_def fun_eq_iff)
  have "fsum (?f(code := ?f code + 1)) + ?f code = fsum ?f + (?f code + 1)"
    by (rule fsum_upd_add) (use assms in \<open>simp add: classified_def\<close>)
  then have "fsum (?f(code := ?f code + 1)) = fsum ?f + 1" by (simp add: algebra_simps)
  then show ?thesis
    using assms unfolding classified_def eq by (simp add: countError_def RecordError_def Let_def)
qed

lemma classified_frame:
  "errCount m' = errCount m \<Longrightarrow> errBreakdown m' = errBreakdown m \<Longrightarrow> classified m' = classified m"
  by (simp add: classified_def)

lemma classified_latency [simp]: "classified (RecordLatency d m) = classified m"
  by (rule classified_frame) (simp_all add: RecordLatency_def)

lemma classified_result: "classified m \<Longrightarrow> classified (countResult res m)"
  by (simp add: countResult_def classified_count classified_frame [of "m\<lparr>respRecv := x\<rparr>" m for x])

lemma classified_sent [simp]: "classified (m\<lparr>reqSent := x\<rparr>) = classified m"
  by (rule classified_frame) simp_all

theorem classified_step: "cstep r evs r' \<Longrightarrow> classified (r_metrics r) \<Longrightarrow> classified (r_metrics r')"
proof (induction rule: cstep.induct)
  case (k_caller ch dialled c r pc r' evs)
  then show ?case
    by (cases "(ch, dialled, c, r_callers r c, r)" rule: caller_step.cases)
      (auto simp: classified_count getStreamer_eq forgetCallback_def Let_def
        split: if_splits option.splits sum.splits list.splits call_choice.splits)
next
  case (k_flusher i r fc sent r' evs)
  then show ?case
    by (auto simp: flusherLoop_def sendBatch_def exitFlusher_def Let_def
        split: flusher_pc.splits flush_choice.splits if_splits list.splits)
next
  case (k_receiver i r rv elapsed r' evs)
  then show ?case
    by (auto simp: receiverLoop_def setReceiver_def cbLoadAndDelete_eq classified_result Let_def
        split: receiver_pc.splits client_recv.splits if_splits list.splits option.splits)
next
  case (k_fail i r k r' evs)
  then show ?case
    by (auto simp: fail_defs failEntry_def classified_count Let_def split: fail_pc.splits if_splits option.splits)
next
  case (k_stop ks r pc r')
  then show ?case by (simp add: StopAll_frame [OF k_stop(1)] classified_def)
qed auto

section \<open>Runs\<close>

definition client_inv :: "cevent list \<Rightarrow> Router \<Rightarrow> bool" where
  "client_inv tr r \<longleftrightarrow> cwf r \<and> corr r \<and> classified (r_metrics r) \<and>
     (\<forall>i. accepted tr i = concat (sentTo tr i) @ ns_batch (r_ns r i) @ ns_envelopeCh (r_ns r i) \<and>
        (\<forall>b \<in> set (sentTo tr i). 0 < length b \<and> length b \<le> r_batchSize r) \<and> roomy (r_batchSize r) (r_ns r i)) \<and>
     (\<forall>c. answers_ok tr r c \<and> attempt_ok (r_callers r c) \<and> stores tr c \<le> tries (r_callers r c))"

lemma NewRouter_inv: "0 < n \<Longrightarrow> client_inv [] (NewRouter resolver n)"
  by (auto simp: client_inv_def NewRouter_def roomy_def answers_ok_def hold_def [abs_def] classified_zero
      sharded.empty_ok intro!: cwfI corrI)

lemma answers_step:
  assumes "cstep r evs r'" and "cwf r" and "corr r" and "answers_ok tr r c"
  shows "answers_ok (tr @ evs) r' c"
proof -
  have fin: "fin_supp (hold r c)" using assms(4) by (simp add: answers_ok_def)
  have "fin_supp (hold r' c) \<and> fsum (hold r' c) + delivered evs c \<le> fsum (hold r c) + stores evs c \<and>
      length (r_respCh r' c) \<le> length (r_respCh r c) + delivered evs c"
    using assms(1)
  proof (cases rule: cstep.cases)
    case (k_caller ch dialled d pc r1)
    have "hold r' c = hold r1 c" using k_caller(1) by (intro hold_frame) simp
    then show ?thesis using caller_hold [OF assms(2) k_caller(2) fin] k_caller(1) by simp
  next
    case (k_flusher i fc sent)
    then show ?thesis
      using streamer_hold [OF flusher_keeps [OF k_flusher(2)] fin, of evs] flusher_hold [OF k_flusher(2), of c] by simp
  next
    case (k_receiver i rv elapsed)
    then show ?thesis
      using streamer_hold [OF receiver_keeps [OF k_receiver(2)] fin, of evs] receiver_hold [OF k_receiver(2) assms(2,3), of c] by simp
  next
    case (k_fail i k)
    then show ?thesis
      using streamer_hold [OF fail_keeps [OF k_fail(2)] fin, of evs] fail_hold [OF k_fail(2) assms(2,3), of c] by simp
  next
    case (k_stop ks pc r1)
    then show ?thesis using stop_hold [OF k_stop(3), of c] StopAll_frame [OF k_stop(3)] fin by simp
  next
    case (k_call d cl)
    have "hold r' c = hold r c" using k_call by (intro hold_frame) simp
    then show ?thesis using k_call fin by simp
  next
    case (k_topology f)
    have "hold r' c = hold r c" using k_topology by (intro hold_frame) simp
    then show ?thesis using k_topology fin by simp
  qed
  then show ?thesis using assms(4) by (auto simp: answers_ok_def)
qed

lemma tries_step:
  assumes "cstep r evs r'" and "cwf r" and "\<And>c. attempt_ok (r_callers r c) \<and> stores tr c \<le> tries (r_callers r c)"
  shows "attempt_ok (r_callers r' c) \<and> stores (tr @ evs) c \<le> tries (r_callers r' c)"
  using assms(1)
proof (cases rule: cstep.cases)
  case (k_call d cl)
  then show ?thesis using assms(3) [of c] by auto
next
  case (k_caller ch dialled d pc r1)
  have "attempt_ok pc \<and> tries (r_callers r d) + stores evs d \<le> tries pc \<and> (c \<noteq> d \<longrightarrow> stores evs c = 0)"
    by (rule caller_tries [OF k_caller(2)]) (use assms(3) in blast)
  moreover have "r_callers r1 = r_callers r" using caller_keeps [OF assms(2) k_caller(2)] by simp
  ultimately show ?thesis using assms(3) [of c] assms(3) [of d] k_caller(1) by auto
next
  case (k_flusher i fc sent)
  then show ?thesis using flusher_keeps [OF k_flusher(2)] flusher_hold [OF k_flusher(2), of c] assms(3) [of c] by (simp add: keeps_def)
next
  case (k_receiver i rv elapsed)
  have "stores evs c = 0" using k_receiver(2)
    by (auto simp: receiverLoop_def stores_def cbLoadAndDelete_eq Let_def
        split: receiver_pc.splits client_recv.splits if_splits list.splits option.splits)
  then show ?thesis using receiver_keeps [OF k_receiver(2)] assms(3) [of c] by (simp add: keeps_def)
next
  case (k_fail i k)
  have "stores evs c = 0" using k_fail(2)
    by (auto simp: fail_defs failEntry_def stores_def Let_def split: fail_pc.splits if_splits option.splits)
  then show ?thesis using fail_keeps [OF k_fail(2)] assms(3) [of c] by (simp add: keeps_def)
next
  case (k_stop ks pc r1)
  then show ?thesis using assms(3) [of c] by (simp add: StopAll_frame [OF k_stop(3)])
qed (use assms(3) [of c] in simp)

theorem client_inv_step:
  assumes "client_inv tr r" and "cstep r evs r'" and "0 < r_batchSize r"
  shows "client_inv (tr @ evs) r' \<and> r_batchSize r' = r_batchSize r"
proof -
  note i = assms(1) [unfolded client_inv_def]
  have w: "cwf r" and c: "corr r" and m: "classified (r_metrics r)" and room: "\<And>i. roomy (r_batchSize r) (r_ns r i)"
    and an: "\<And>c. answers_ok tr r c" and at: "\<And>c. attempt_ok (r_callers r c) \<and> stores tr c \<le> tries (r_callers r c)"
    using i by auto
  have bs: "r_batchSize r' = r_batchSize r" by (rule cstep_batchSize [OF assms(2) w])
  have mv: "moves r evs r' j" for j by (rule cstep_moves [OF assms(2) w room assms(3)])
  have pipe: "accepted (tr @ evs) j = concat (sentTo (tr @ evs) j) @ ns_batch (r_ns r' j) @ ns_envelopeCh (r_ns r' j)" for j
    using i mv [of j] by (simp add: moves_def Let_def)
  have sizes: "\<forall>b \<in> set (sentTo (tr @ evs) j). 0 < length b \<and> length b \<le> r_batchSize r'" for j
    using i mv [of j] bs by (auto simp: moves_def Let_def)
  have room': "roomy (r_batchSize r') (r_ns r' j)" for j using mv [of j] bs by (simp add: moves_def Let_def)
  show ?thesis
    unfolding client_inv_def
    using cwf_step [OF assms(2) w] corr_step [OF assms(2) w c] classified_step [OF assms(2) m] pipe sizes room'
      answers_step [OF assms(2) w c an] tries_step [OF assms(2) w at] bs by blast
qed

theorem client_inv_run:
  assumes "crun r0 tr r" and "r0 = NewRouter resolver n" and "0 < n"
  shows "client_inv tr r \<and> r_batchSize r = n"
  using assms
proof (induction rule: crun.induct)
  case (crun_refl r)
  then show ?case using NewRouter_inv [of n resolver] by (simp add: NewRouter_def)
next
  case (crun_step r tr r' evs r'')
  then show ?case using client_inv_step [OF _ crun_step(2), of tr] by simp
qed

section \<open>Schedules\<close>

datatype cchoice = KCall nat call | KCaller call_choice bool nat | KFlusher flush_choice bool nat
  | KReceiver client_recv int64 nat | KFail uint64 nat | KStop "string list"

fun cexec1 :: "cchoice \<Rightarrow> Router \<Rightarrow> (cevent list \<times> Router) option" where
  "cexec1 (KCall c cl) r = (if r_callers r c = CIdle then Some ([], r\<lparr>r_callers := (r_callers r)(c := CResolve cl)\<rparr>) else None)"
| "cexec1 (KCaller ch dialled c) r = (case caller_step ch dialled c (r_callers r c) r of None \<Rightarrow> None
     | Some (pc, r', evs) \<Rightarrow> Some (evs, r'\<lparr>r_callers := (r_callers r')(c := pc)\<rparr>))"
| "cexec1 (KFlusher fc sent i) r = (if i < r_nns r then map_option prod.swap (flusherLoop fc sent i r) else None)"
| "cexec1 (KReceiver rv elapsed i) r = (if i < r_nns r then map_option prod.swap (receiverLoop rv elapsed i r) else None)"
| "cexec1 (KFail k i) r = (if i < r_nns r then map_option prod.swap (fail_step k i r) else None)"
| "cexec1 (KStop ks) r = (case StopAll ks (r_stopAll r) r of None \<Rightarrow> None
    | Some (pc, r') \<Rightarrow> Some ([], r'\<lparr>r_stopAll := pc\<rparr>))"

fun cexec :: "cchoice list \<Rightarrow> Router \<Rightarrow> (cevent list \<times> Router) option" where
  "cexec [] r = Some ([], r)"
| "cexec (x # xs) r = (case cexec1 x r of None \<Rightarrow> None
     | Some (es, r1) \<Rightarrow> (case cexec xs r1 of None \<Rightarrow> None | Some (tr, r2) \<Rightarrow> Some (es @ tr, r2)))"

lemma cexec1_cstep: "cexec1 x r = Some (evs, r') \<Longrightarrow> cstep r evs r'"
  by (cases "(x, r)" rule: cexec1.cases) (auto intro: cstep.intros split: if_splits option.splits)

lemma crun_cons: "crun r1 tr r2 \<Longrightarrow> cstep r evs r1 \<Longrightarrow> crun r (evs @ tr) r2"
proof (induction rule: crun.induct)
  case (crun_refl r1)
  then show ?case using crun.crun_step [OF crun.crun_refl, of r evs] by simp
next
  case (crun_step r1 tr r2 evs' r3)
  then show ?case using crun.crun_step [of r "evs @ tr" r2 evs' r3] by simp
qed

lemma cexec_crun: "cexec xs r = Some (tr, r') \<Longrightarrow> crun r tr r'"
proof (induction xs arbitrary: r tr)
  case Nil
  then show ?case by (auto intro: crun_refl)
next
  case (Cons x xs)
  then obtain es r1 tr' where "cexec1 x r = Some (es, r1)" "cexec xs r1 = Some (tr', r')" "tr = es @ tr'"
    by (auto split: option.splits prod.splits)
  with Cons.IH show ?case by (metis crun_cons cexec1_cstep)
qed

section \<open>Properties of runs\<close>

definition demoEnv :: "uint64 \<Rightarrow> RemoteEnvelope" where
  "demoEnv k = \<lparr>env_TenantId = 1, env_Uid = 7, env_TxId = ''a'', env_RequestId = k, env_OpCode = 1,
     env_Payload = [], env_DeadlineUnixMs = 0\<rparr>"

definition demoCall :: "uint64 \<Rightarrow> call" where
  "demoCall k = \<lparr>cl_env = demoEnv k, cl_sync = True, cl_startedAt = 0\<rparr>"

definition demoRes :: "uint64 \<Rightarrow> RemoteResult" where
  "demoRes k = zero_RemoteResult\<lparr>res_RequestId := k, res_Success := True\<rparr>"

definition demoRouter :: Router where
  "demoRouter = NewRouter (\<lambda>t u. Inr ''n:1'') 1"

text \<open>Two calls share a streamer; the results come back in the other order.\<close>

definition demoSchedule :: "cchoice list" where
  "demoSchedule = [KCall 0 (demoCall 7), KCall 1 (demoCall 8)] @
     replicate 5 (KCaller TakeSend True 0) @ replicate 4 (KCaller TakeSend True 1) @
     replicate 2 (KFlusher FlEnvelope True 0) @
     [KReceiver (RespResults [demoRes 8, demoRes 7]) 1 0, KReceiver RespEOF 1 0, KReceiver RespEOF 1 0,
      KReceiver RespEOF 1 0, KCaller TakeResp True 1]"

lemmas demo_simps = demoSchedule_def demoRouter_def demoCall_def demoRes_def demoEnv_def NewRouter_def
  NewNodeStreamer_def NewShardedCallbackMap_def replicate_numeral getStreamer_def createStreamer_def
  setNS_def shardFree_def cbStore_def cbLoadAndDelete_def Let_def entryOf_def reqID_def shardIdx_def flusherLoop_def
  sendBatch_def receiverLoop_def setReceiver_def

lemma demo_run_client:
  obtains tr r where "crun demoRouter tr r" "r_callers r 1 = CReturned (demoCall 8) (Some (demoRes 8))"
    "r_callers r 0 = CWait (demoCall 7)" "ns_receiver (r_ns r 0) = RDeliver 0 (demoRes 7) []" "stores tr 0 = 1"
    "sentTo tr 0 = [[demoEnv 7], [demoEnv 8]]" "r_streamers r ''n:1'' = Some 0"
proof -
  have "\<exists>tr r. cexec demoSchedule demoRouter = Some (tr, r) \<and> r_callers r 1 = CReturned (demoCall 8) (Some (demoRes 8)) \<and>
      r_callers r 0 = CWait (demoCall 7) \<and> ns_receiver (r_ns r 0) = RDeliver 0 (demoRes 7) [] \<and> stores tr 0 = 1 \<and>
      sentTo tr 0 = [[demoEnv 7], [demoEnv 8]] \<and> r_streamers r ''n:1'' = Some 0"
    by (simp add: demo_simps stores_def)
  then show ?thesis using that cexec_crun by blast
qed

text \<open>
  C5: In every run of the client, a call that returns a result returns one that carries the request
  identifier it was called with: results that arrive out of order, failures of a streamer and
  timeouts never reach another call.
\<close>

theorem results_reach_their_caller:
  assumes "crun (NewRouter resolver n) tr r" and "0 < n" and "r_callers r c = CReturned cl (Some res)"
  shows "res_RequestId res = env_RequestId (cl_env cl)"
  using client_inv_run [OF assms(1) refl assms(2)] corrD(4) [OF _ assms(3)] by (simp add: client_inv_def reqID_def)

theorem results_reach_their_caller_witness:
  "\<exists>tr r. crun demoRouter tr r \<and> r_callers r 1 = CReturned (demoCall 8) (Some (demoRes 8)) \<and>
     res_RequestId (demoRes 8) = env_RequestId (cl_env (demoCall 8))"
proof -
  obtain tr r where r: "crun demoRouter tr r" "r_callers r 1 = CReturned (demoCall 8) (Some (demoRes 8))"
    by (rule demo_run_client)
  with results_reach_their_caller [OF r(1) [unfolded demoRouter_def] _ r(2)] show ?thesis by auto
qed

text \<open>
  C16: A streamer sends the envelopes it accepted in the order it accepted them, each in one batch, in
  batches of at least one and at most \<^verbatim>\<open>batchSize\<close> envelopes; what is not yet sent is in the batch
  under construction or in the channel, which holds at most twice \<^verbatim>\<open>batchSize\<close>.
\<close>

theorem envelopes_sent_in_order:
  assumes "crun (NewRouter resolver n) tr r" and "0 < n"
  shows "accepted tr i = concat (sentTo tr i) @ ns_batch (r_ns r i) @ ns_envelopeCh (r_ns r i) \<and>
    list_all (\<lambda>b. 1 \<le> length b \<and> length b \<le> n) (sentTo tr i) \<and>
    length (ns_batch (r_ns r i)) \<le> n \<and> length (ns_envelopeCh (r_ns r i)) \<le> 2 * n"
  using client_inv_run [OF assms(1) refl assms(2)]
  by (auto simp: client_inv_def roomy_def list_all_iff Suc_le_eq)

theorem envelopes_sent_in_order_witness:
  "\<exists>tr r. crun demoRouter tr r \<and> sentTo tr 0 = [[demoEnv 7], [demoEnv 8]] \<and>
     accepted tr 0 = [demoEnv 7, demoEnv 8] @ ns_batch (r_ns r 0) @ ns_envelopeCh (r_ns r 0)"
proof -
  obtain tr r where r: "crun demoRouter tr r" "sentTo tr 0 = [[demoEnv 7], [demoEnv 8]]"
    by (rule demo_run_client)
  with envelopes_sent_in_order [OF r(1) [unfolded demoRouter_def], of 0] show ?thesis by auto
qed

lemma single_registration:
  assumes "answers_ok tr r c" and "ns_receiver (r_ns r i) = RDeliver c res rs" and "stores tr c \<le> 1"
  shows "r_respCh r c = []"
proof -
  have "1 \<le> hold r c i" using assms(2) by (simp add: hold_def)
  also have "\<dots> \<le> fsum (hold r c)" using assms(1) fsum_remove [of "hold r c" i] by (simp add: answers_ok_def)
  finally have "delivered tr c = 0" using assms(1,3) by (simp add: answers_ok_def)
  then show ?thesis using assms(1) by (simp add: answers_ok_def)
qed

text \<open>
  C17: A call registers its callback at most twice and is answered at most once per registration. When
  it registered once, the response channel is empty whenever the receiver has a result for it, so
  that the receiver is not blocked by the send.
\<close>

theorem answered_once_per_registration:
  assumes "crun (NewRouter resolver n) tr r" and "0 < n"
  shows "delivered tr c \<le> stores tr c \<and> stores tr c \<le> 2 \<and>
    (ns_receiver (r_ns r i) = RDeliver c res rs \<longrightarrow> stores tr c \<le> 1 \<longrightarrow> r_respCh r c = [])"
proof -
  have inv: "client_inv tr r" using client_inv_run [OF assms(1) refl assms(2)] by simp
  then have ok: "answers_ok tr r c" by (simp add: client_inv_def)
  then have "delivered tr c \<le> stores tr c" by (simp add: answers_ok_def)
  moreover have "stores tr c \<le> 2" using inv tries_bound by (metis client_inv_def le_trans)
  ultimately show ?thesis using single_registration [OF ok] by blast
qed

theorem answered_once_per_registration_witness:
  "\<exists>tr r. crun demoRouter tr r \<and> ns_receiver (r_ns r 0) = RDeliver 0 (demoRes 7) [] \<and> stores tr 0 = 1 \<and>
     delivered tr 0 \<le> 1 \<and> r_respCh r 0 = []"
proof -
  obtain tr r where r: "crun demoRouter tr r" "ns_receiver (r_ns r 0) = RDeliver 0 (demoRes 7) []" "stores tr 0 = 1"
    by (rule demo_run_client)
  with answered_once_per_registration [OF r(1) [unfolded demoRouter_def], of 0 0] show ?thesis by auto
qed

text \<open>
  In every run, the error counter is the sum of the counters of the error breakdown, and the
  pending counter of every streamer is the number of callbacks in its table, both modulo the width
  of the counters.
\<close>

lemma client_counters_exact:
  assumes "crun (NewRouter resolver n) tr r" and "0 < n"
  shows "errCount (r_metrics r) = fsum (\<lambda>k. case ErrorBreakdownMap (r_metrics r) k of None \<Rightarrow> 0 | Some v \<Rightarrow> v) \<and>
    cbPending (ns_callbackMap (r_ns r i)) = of_nat (card (dom (lookup (ns_callbackMap (r_ns r i)))))"
proof -
  have "cwf r" "classified (r_metrics r)" using client_inv_run [OF assms(1) refl assms(2)] by (simp_all add: client_inv_def)
  then show ?thesis using sharded.pend_ok(2) [OF cwfD(5)] by (simp add: classified_def ErrorBreakdownMap_def)
qed

section \<open>Timeouts\<close>

text \<open>A timeout removes the call from the table of every streamer it visits, and touches no other callback.\<close>

lemma timeout_forgets:
  assumes "cwf r" and "caller_step ch dialled c (CForget cl (ip # ips)) r = Some (pc, r', evs)"
  shows "pc = CForget cl ips" and "r_streamers r' = r_streamers r"
    and "lookup (ns_callbackMap (r_ns r' i)) = (if r_streamers r ip = Some i
      then (lookup (ns_callbackMap (r_ns r i)))(reqID cl := None) else lookup (ns_callbackMap (r_ns r i)))"
  using assms sharded.remove_ok(2) [OF cwfD(5) [OF assms(1), of i]]
  by (auto simp: forgetCallback_def Let_def split: if_splits option.splits)

section \<open>What the client does not guarantee\<close>

text \<open>
  Two calls that meet the same dead streamer: the second removes the entry that the first has just
  registered. The first streamer is alive, in use and not registered.
\<close>

lemma live_streamer_unregistered:
  "\<exists>tr r. crun demoRouter tr r \<and> r_callers r 0 = CStore (demoCall 7) ''n:1'' 0 1 \<and> \<not> ns_dead (r_ns r 1) \<and>
     1 \<notin> ran (r_streamers r) \<and> r_nns r = 3"
proof -
  let ?xs = "[KCall 2 (demoCall 9)] @ replicate 3 (KCaller TakeSend True 2) @
    [KReceiver RespErr 1 0, KFail 0 0, KCall 0 (demoCall 7), KCall 1 (demoCall 8)] @
    replicate 2 (KCaller TakeSend True 0) @ replicate 2 (KCaller TakeSend True 1) @
    replicate 2 (KCaller TakeSend True 0) @ replicate 2 (KCaller TakeSend True 1)"
  have "\<exists>tr r. cexec ?xs demoRouter = Some (tr, r) \<and> r_callers r 0 = CStore (demoCall 7) ''n:1'' 0 1 \<and>
      \<not> ns_dead (r_ns r 1) \<and> 1 \<notin> ran (r_streamers r) \<and> r_nns r = 3"
    by (simp add: demo_simps startFail_def fail_defs ran_def)
  then show ?thesis using cexec_crun by blast
qed

text \<open>A stop ends the flusher with accepted envelopes still in the channel; they are never sent.\<close>

lemma stop_drops_accepted:
  "\<exists>tr r. crun demoRouter tr r \<and> accepted tr 0 = [demoEnv 7] \<and> sentTo tr 0 = [] \<and> ns_flusher (r_ns r 0) = FlExit"
proof -
  let ?xs = "[KCall 0 (demoCall 7)] @ replicate 5 (KCaller TakeSend True 0) @
    [KStop [''n:1''], KStop [], KStop [], KStop [], KFlusher FlStop True 0]"
  have "\<exists>tr r. cexec ?xs demoRouter = Some (tr, r) \<and> accepted tr 0 = [demoEnv 7] \<and> sentTo tr 0 = [] \<and>
      ns_flusher (r_ns r 0) = FlExit"
    by (simp add: demo_simps rangeOf_def upt_rec exitFlusher_def)
  then show ?thesis using cexec_crun by blast
qed

lemma cexec_append:
  "cexec (xs @ ys) r = (case cexec xs r of None \<Rightarrow> None
     | Some (tr, r1) \<Rightarrow> (case cexec ys r1 of None \<Rightarrow> None | Some (tr', r2) \<Rightarrow> Some (tr @ tr', r2)))"
  by (induction xs arbitrary: r) (auto split: option.splits)

lemma setNS_twice: "setNS i a (setNS i b r) = setNS i a r"
  by (simp add: setNS_def)

text \<open>\<^verbatim>\<open>FailAll\<close> passes over empty shards.\<close>

definition emptyShards :: "uint64 \<Rightarrow> nat \<Rightarrow> nat \<Rightarrow> cchoice list" where
  "emptyShards k i m = replicate m (KFail k i)"

lemma FailAll_skips:
  assumes "i < r_nns r" and "ns_fail (r_ns r i) = FFailAll e j" and "j + m \<le> 256"
    and "\<And>x. j \<le> x \<Longrightarrow> x < j + m \<Longrightarrow> sm_shards (ns_callbackMap (r_ns r i)) x = Map.empty"
  shows "cexec (emptyShards k i m) r = Some ([], setNS i ((r_ns r i)\<lparr>ns_fail := FFailAll e (j + m)\<rparr>) r)"
  using assms
proof (induction m arbitrary: r j)
  case 0
  then have "(r_ns r i)\<lparr>ns_fail := FFailAll e j\<rparr> = r_ns r i" by (simp flip: 0(2))
  then show ?case by (simp add: emptyShards_def setNS_def)
next
  case (Suc m)
  define r1 where "r1 = setNS i ((r_ns r i)\<lparr>ns_fail := FFailAll e (Suc j)\<rparr>) r"
  have "fail_step k i r = Some (r1, [])" using Suc.prems(2,3) Suc.prems(4) [of j] by (simp add: fail_defs r1_def)
  moreover have "cexec (emptyShards k i m) r1 = Some ([], setNS i ((r_ns r1 i)\<lparr>ns_fail := FFailAll e (Suc j + m)\<rparr>) r1)"
    by (rule Suc.IH) (use Suc.prems in \<open>auto simp: r1_def\<close>)
  ultimately show ?case using Suc.prems(1) by (simp add: emptyShards_def r1_def setNS_twice)
qed

text \<open>
  A streamer fails while a call is sending to it. The call is answered with the failure, retries on
  a new streamer that sends the envelope, and then returns the failure of the first attempt.
\<close>

lemma retried_call_returns_old_failure:
  "\<exists>tr r. crun demoRouter tr r \<and> SentBatch 1 [demoEnv 255] \<in> set tr \<and>
     r_callers r 0 = CReturned (demoCall 255) (Some (failResult 255 ErrStreamInterrupted))"
proof -
  let ?xs = "([KCall 0 (demoCall 255)] @ replicate 4 (KCaller TakeSend True 0) @ [KReceiver RespErr 1 0] @ replicate 3 (KFail 0 0)) @
    emptyShards 0 0 255 @ replicate 4 (KFail 255 0) @ replicate 2 (KCaller TakeCtxDone True 0) @
    replicate 4 (KCaller TakeSend True 0) @ [KFlusher FlEnvelope True 1, KCaller TakeResp True 0]"
  have "\<exists>tr r. cexec ?xs demoRouter = Some (tr, r) \<and> SentBatch 1 [demoEnv 255] \<in> set tr \<and>
     r_callers r 0 = CReturned (demoCall 255) (Some (failResult 255 ErrStreamInterrupted))"
    by (simp add: demo_simps cexec_append FailAll_skips cbDelete_def startFail_def fail_defs failEntry_def)
  then show ?thesis using cexec_crun by blast
qed

end
