(* ===== verification/ClientStop.thy ===== *)
theory ClientStop
  imports ClientAnswers
begin

text \<open>
  Stopping the client: the iterations over the registered streamers are complete, and \<^verbatim>\<open>StopAll\<close> closes
  the stop channel of a streamer once and waits for its receiver.
\<close>

section \<open>Registration\<close>

text \<open>
  A streamer is registered under the address it was created for, so an iteration over the registered
  streamers comes to all that were registered when it started.
\<close>

definition registered :: "Router \<Rightarrow> bool" where
  "registered r \<longleftrightarrow> (\<forall>ip i. r_streamers r ip = Some i \<longrightarrow> i < r_nns r \<and> ns_TargetIP (r_ns r i) = ip)"

lemma registered_frame:
  assumes "registered r" and "\<And>ip i. r_streamers r' ip = Some i \<Longrightarrow> r_streamers r ip = Some i" and "r_nns r \<le> r_nns r'"
    and "\<And>i. i < r_nns r \<Longrightarrow> ns_TargetIP (r_ns r' i) = ns_TargetIP (r_ns r i)"
  shows "registered r'"
  using assms by (fastforce simp: registered_def)

lemma keeps_registered: "keeps r i r' \<Longrightarrow> registered r \<Longrightarrow> registered r'"
  unfolding keeps_def by (erule registered_frame) (blast, simp, metis fun_upd_apply)

lemma getStreamer_registered:
  assumes "registered r" and "getStreamer dialled ip r = (x, r')"
  shows "registered r'"
  using assms
  by (fastforce simp: registered_def getStreamer_def createStreamer_def NewNodeStreamer_def split: if_splits option.splits)

lemma opened_registered:
  assumes "registered r"
  shows "registered (opened ip r)"
  using assms by (auto simp: registered_def opened_def NewNodeStreamer_def less_Suc_eq dest: less_imp_neq)

lemma caller_registered:
  assumes "caller_step ch dialled c pc r = Some (pc', r', evs)" and "registered r"
  shows "registered (r'\<lparr>r_callers := f\<rparr>)"
proof (cases "\<exists>ip. r' = opened ip r")
  case True
  then show ?thesis using opened_registered [OF assms(2)] by (auto simp: registered_def)
next
  case False
  show ?thesis
    by (rule registered_frame [OF assms(2)])
      (use assms(1) False in \<open>cases "(ch, dialled, c, pc, r)" rule: caller_step.cases;
        auto simp: getStreamer_eq unlisted_def forgetCallback_def Let_def
          split: if_splits option.splits sum.splits list.splits call_choice.splits\<close>)+
qed

lemma registered_step: "cstep r evs r' \<Longrightarrow> registered r \<Longrightarrow> registered r'"
proof (induction rule: cstep.induct)
  case (k_stop ks r pc r')
  note f = StopAll_frame [OF k_stop(1)]
  show ?case by (rule registered_frame [OF k_stop(2)]) (simp_all add: f)
next
  case (k_call c r cl)
  then show ?case by (simp add: registered_def)
next
  case (k_topology r f)
  then show ?case by (simp add: registered_def)
qed (blast intro: keeps_registered flusher_keeps receiver_keeps fail_keeps caller_registered)+

lemma registered_run: "crun r tr r' \<Longrightarrow> registered r \<Longrightarrow> registered r'"
  by (induction rule: crun.induct) (auto intro: registered_step)

lemma range_complete:
  assumes "crun (NewRouter resolver n) tr r" and "rangeOf r ks" and "r_streamers r ip = Some i"
  shows "ip \<in> set ks"
proof -
  have "registered (NewRouter resolver n)" by (simp add: registered_def NewRouter_def)
  with registered_run [OF assms(1)] have "i < r_nns r" "ns_TargetIP (r_ns r i) = ip"
    using assms(3) by (auto simp: registered_def)
  moreover have "\<forall>i < r_nns r. r_streamers r (ns_TargetIP (r_ns r i)) = None \<or> ns_TargetIP (r_ns r i) \<in> set ks"
    using assms(2) by (simp add: rangeOf_def list_all_iff Let_def)
  ultimately show ?thesis using assms(3) by fastforce
qed

section \<open>Stopping\<close>

text \<open>Steps other than those of \<^verbatim>\<open>StopAll\<close> keep the stop channel, an ended receiver and a cancelled context.\<close>

definition settled :: "NodeStreamer \<Rightarrow> NodeStreamer \<Rightarrow> bool" where
  "settled ns ns' \<longleftrightarrow> ns_TargetIP ns' = ns_TargetIP ns \<and> ns_stopCh ns' = ns_stopCh ns \<and>
     (ns_receiver ns = RExit \<longrightarrow> ns_receiver ns' = RExit) \<and> (ns_ctxDone ns \<longrightarrow> ns_ctxDone ns')"

lemma settled_refl [simp]: "settled ns ns"
  by (simp add: settled_def)

definition settles :: "Router \<Rightarrow> Router \<Rightarrow> bool" where
  "settles r r' \<longleftrightarrow> r_stopAll r' = r_stopAll r \<and> (\<forall>j < r_nns r. settled (r_ns r j) (r_ns r' j)) \<and>
     (\<forall>j \<ge> r_nns r. \<not> ns_stopCh (r_ns r' j))"

lemma startFail_settled [simp]: "ns_stopCh (startFail e ns) = ns_stopCh ns" "ns_ctxDone (startFail e ns) = ns_ctxDone ns"
  by (simp_all add: startFail_def)

lemma keeps_settles:
  assumes "keeps r i r'" and "settled (r_ns r i) (r_ns r' i)" and "\<And>j. r_nns r \<le> j \<Longrightarrow> \<not> ns_stopCh (r_ns r j)"
  shows "settles r r'"
proof -
  have other: "r_ns r' j = r_ns r j" if "j \<noteq> i" for j
    using assms(1) that unfolding keeps_def by (metis fun_upd_other)
  have all: "settled (r_ns r j) (r_ns r' j)" for j using assms(2) other [of j] by (cases "j = i") simp_all
  then have "ns_stopCh (r_ns r' j) = ns_stopCh (r_ns r j)" for j by (simp add: settled_def)
  then show ?thesis using all assms(1,3) unfolding settles_def by (simp add: keeps_def)
qed

lemma settled_fields [simp]:
  "settled x (ns\<lparr>ns_flusher := pc\<rparr>) = settled x ns" "settled x (ns\<lparr>ns_envelopeCh := q\<rparr>) = settled x ns"
  "settled x (ns\<lparr>ns_batch := q\<rparr>) = settled x ns" "settled x (startFail e ns) = settled x ns"
  by (simp_all add: settled_def)

lemma sendBatch_settled: "sendBatch sent i ns r = (ok, r', evs) \<Longrightarrow> settled x ns \<Longrightarrow> settled x (r_ns r' i)"
  by (auto simp: sendBatch_def split: if_splits)

lemma flusher_settled: "flusherLoop fc sent i r = Some (r', evs) \<Longrightarrow> settled (r_ns r i) (r_ns r' i)"
  by (auto simp: flusherLoop_def exitFlusher_def Let_def dest!: sendBatch_settled [where x = "r_ns r i"]
      split: if_splits list.splits flusher_pc.splits flush_choice.splits prod.splits)

lemma receiver_settled: "receiverLoop rv elapsed i r = Some (r', evs) \<Longrightarrow> settled (r_ns r i) (r_ns r' i)"
  by (auto simp: settled_def receiverLoop_def setReceiver_def cbLoadAndDelete_eq Let_def
      split: receiver_pc.splits client_recv.splits list.splits option.splits if_splits)

lemma fail_settled: "fail_step k i r = Some (r', evs) \<Longrightarrow> settled (r_ns r i) (r_ns r' i)"
  by (auto simp: settled_def fail_defs failEntry_def Let_def split: fail_pc.splits if_splits option.splits)

lemmas goroutine_settles = keeps_settles [OF flusher_keeps flusher_settled] keeps_settles [OF receiver_keeps receiver_settled]
  keeps_settles [OF fail_keeps fail_settled]

lemma caller_settles:
  assumes "caller_step ch dialled c pc r = Some (pc', r', evs)" and "\<And>j. r_nns r \<le> j \<Longrightarrow> \<not> ns_stopCh (r_ns r j)"
  shows "settles r (r'\<lparr>r_callers := f\<rparr>)"
  using assms
  by (cases "(ch, dialled, c, pc, r)" rule: caller_step.cases)
    (auto simp: settles_def settled_def getStreamer_eq opened_def unlisted_def NewNodeStreamer_def forgetCallback_def Let_def
      split: if_splits option.splits sum.splits list.splits call_choice.splits)

text \<open>The addresses that \<^verbatim>\<open>StopAll\<close> has still to visit, and what it promises of the streamers it has stopped.\<close>

fun toVisit :: "stopall_pc \<Rightarrow> string list" where
  "toVisit (SaRange ips) = ips"
| "toVisit (SaStop i ips) = ips"
| "toVisit (SaClose i ips) = ips"
| "toVisit (SaWait i cancel ips) = ips"
| "toVisit _ = []"

fun closing :: "stopall_pc \<Rightarrow> nat option" where
  "closing (SaStop i ips) = Some i"
| "closing (SaClose i ips) = Some i"
| "closing _ = None"

definition stop_inv :: "Router \<Rightarrow> bool" where
  "stop_inv r \<longleftrightarrow> registered r \<and> distinct (toVisit (r_stopAll r)) \<and>
     (\<forall>j. ns_stopCh (r_ns r j) \<longrightarrow> j < r_nns r \<and> ns_TargetIP (r_ns r j) \<notin> set (toVisit (r_stopAll r)) \<and> r_stopAll r \<noteq> SaIdle \<and>
        closing (r_stopAll r) \<noteq> Some j \<and>
        (ns_receiver (r_ns r j) = RExit \<and> ns_ctxDone (r_ns r j) \<or> (\<exists>ips. r_stopAll r = SaWait j True ips))) \<and>
     (\<forall>j. stopOf (r_stopAll r) = Some j \<longrightarrow> j < r_nns r \<and> ns_TargetIP (r_ns r j) \<notin> set (toVisit (r_stopAll r)))"

lemma stop_invD:
  assumes "stop_inv r"
  shows "registered r" "distinct (toVisit (r_stopAll r))" "r_nns r \<le> j \<Longrightarrow> \<not> ns_stopCh (r_ns r j)"
    "ns_stopCh (r_ns r j) \<Longrightarrow> closing (r_stopAll r) \<noteq> Some j"
    "ns_stopCh (r_ns r j) \<Longrightarrow> r_stopAll r = SaDone \<Longrightarrow> ns_receiver (r_ns r j) = RExit \<and> ns_ctxDone (r_ns r j)"
  using assms by (auto simp: stop_inv_def dest: leD)

lemma settles_stop_inv:
  assumes "stop_inv r" and "settles r r'" and "registered r'" and "r_nns r \<le> r_nns r'"
  shows "stop_inv r'"
proof -
  have pc: "r_stopAll r' = r_stopAll r" using assms(2) by (simp add: settles_def)
  have old: "j < r_nns r" if "ns_stopCh (r_ns r' j)" for j using that assms(2) by (meson leI settles_def)
  have same: "settled (r_ns r j) (r_ns r' j)" if "j < r_nns r" for j using that assms(2) by (simp add: settles_def)
  show ?thesis
    unfolding stop_inv_def pc
  proof (intro conjI allI impI)
    fix j assume "ns_stopCh (r_ns r' j)"
    with old same have "settled (r_ns r j) (r_ns r' j)" "ns_stopCh (r_ns r j)" "j < r_nns r" by (auto simp: settled_def)
    then show "j < r_nns r'" "ns_TargetIP (r_ns r' j) \<notin> set (toVisit (r_stopAll r))" "r_stopAll r \<noteq> SaIdle"
      "closing (r_stopAll r) \<noteq> Some j"
      "ns_receiver (r_ns r' j) = RExit \<and> ns_ctxDone (r_ns r' j) \<or> (\<exists>ips. r_stopAll r = SaWait j True ips)"
      using assms(1,4) by (auto simp: stop_inv_def settled_def)
  next
    fix j assume "stopOf (r_stopAll r) = Some j"
    then have "j < r_nns r" "ns_TargetIP (r_ns r j) \<notin> set (toVisit (r_stopAll r))" using assms(1) by (auto simp: stop_inv_def)
    then show "j < r_nns r'" "ns_TargetIP (r_ns r' j) \<notin> set (toVisit (r_stopAll r))"
      using assms(4) same by (auto simp: settled_def)
  qed (use assms(1,3) in \<open>auto simp: stop_inv_def\<close>)
qed

lemma stop_stop_inv:
  assumes "stop_inv r" and "StopAll ks (r_stopAll r) r = Some (pc, r')"
  shows "stop_inv (r'\<lparr>r_stopAll := pc\<rparr>)"
proof -
  have g: "registered (r'\<lparr>r_stopAll := pc\<rparr>)"
    by (rule registered_frame [OF stop_invD(1) [OF assms(1)]]) (simp_all add: StopAll_frame [OF assms(2)])
  show ?thesis
    using assms g
    by (cases "(ks, r_stopAll r, r)" rule: StopAll.cases)
      (auto simp: stop_inv_def rangeOf_def registered_def split: if_splits option.splits list.splits)
qed

lemma settles_nns:
  "flusherLoop fc sent i r = Some (r', evs) \<Longrightarrow> r_nns r' = r_nns r"
  "receiverLoop rv elapsed i r = Some (r', evs) \<Longrightarrow> r_nns r' = r_nns r"
  "fail_step k i r = Some (r', evs) \<Longrightarrow> r_nns r' = r_nns r"
  using flusher_keeps receiver_keeps fail_keeps by (auto simp: keeps_def)

lemma caller_nns: "caller_step ch dialled c pc r = Some (pc', r', evs) \<Longrightarrow> r_nns r \<le> r_nns r'"
  by (cases "(ch, dialled, c, pc, r)" rule: caller_step.cases)
    (auto simp: getStreamer_eq unlisted_def forgetCallback_def Let_def
      split: if_splits option.splits sum.splits list.splits call_choice.splits)

lemma stop_inv_step: "cstep r evs r' \<Longrightarrow> stop_inv r \<Longrightarrow> stop_inv r'"
proof -
  assume step: "cstep r evs r'" and inv: "stop_inv r"
  note g = registered_step [OF step stop_invD(1) [OF inv]] and new = stop_invD(3) [OF inv]
  from step show ?thesis
  proof cases
    case (k_stop ks pc r1)
    then show ?thesis using stop_stop_inv [OF inv] by simp
  next
    case (k_flusher i fc sent)
    then show ?thesis using settles_stop_inv [OF inv goroutine_settles(1) [OF _ _ new] g] settles_nns(1) by fastforce
  next
    case (k_receiver i rv elapsed)
    then show ?thesis using settles_stop_inv [OF inv goroutine_settles(2) [OF _ _ new] g] settles_nns(2) by fastforce
  next
    case (k_fail i k)
    then show ?thesis using settles_stop_inv [OF inv goroutine_settles(3) [OF _ _ new] g] settles_nns(3) by fastforce
  next
    case (k_caller ch dialled c pc r1)
    have "settles r r'" unfolding k_caller(1) by (rule caller_settles [OF k_caller(2) new])
    then show ?thesis using settles_stop_inv [OF inv _ g] caller_nns [OF k_caller(2)] k_caller(1) by simp
  next
    case (k_call c cl)
    then show ?thesis by (intro settles_stop_inv [OF inv _ g]) (simp_all add: settles_def new)
  next
    case (k_topology f)
    then show ?thesis by (intro settles_stop_inv [OF inv _ g]) (simp_all add: settles_def new)
  qed
qed

lemma stop_inv_run: "crun r tr r' \<Longrightarrow> stop_inv r \<Longrightarrow> stop_inv r'"
  by (induction rule: crun.induct) (auto intro: stop_inv_step)

lemma NewRouter_stop_inv: "stop_inv (NewRouter resolver n)"
  by (simp add: stop_inv_def registered_def NewRouter_def NewNodeStreamer_def)

text \<open>
  C18: In every run of the client, with any number of calls, failing streamers and evictions, \<^verbatim>\<open>StopAll\<close>
  never closes a stop channel that is closed, which would panic, and when it has returned, every streamer
  that it stopped has ended its receiver and has its context cancelled.
\<close>

theorem stop_closes_once:
  assumes "crun (NewRouter resolver n) tr r"
  shows "(\<forall>i ips. r_stopAll r = SaClose i ips \<longrightarrow> \<not> ns_stopCh (r_ns r i)) \<and>
    (\<forall>i. r_stopAll r = SaDone \<longrightarrow> ns_stopCh (r_ns r i) \<longrightarrow> ns_receiver (r_ns r i) = RExit \<and> ns_ctxDone (r_ns r i))"
  using stop_invD(4,5) [OF stop_inv_run [OF assms NewRouter_stop_inv]] by fastforce

text \<open>A call is answered, then the streamer is stopped, ends, and \<^verbatim>\<open>StopAll\<close> returns.\<close>

theorem stop_closes_once_witness:
  "\<exists>tr r. crun demoRouter tr r \<and> r_stopAll r = SaDone \<and> ns_stopCh (r_ns r 0) \<and> ns_receiver (r_ns r 0) = RExit \<and> ns_ctxDone (r_ns r 0)"
proof -
  let ?xs = "([KCall 0 (demoCall 7)] @ replicate 5 (KCaller TakeSend True 0) @
    [KFlusher FlEnvelope True 0, KReceiver (RespResults [demoRes 7]) 1 0] @ replicate 3 (KReceiver RespEOF 1 0) @
    [KStop [''n:1''], KStop [], KStop [], KStop [], KFlusher FlStop True 0, KReceiver RespEOF 1 0] @ replicate 3 (KFail 0 0)) @
    emptyShards 0 0 256 @ replicate 2 (KFail 0 0) @ [KReceiver RespEOF 1 0, KStop [], KStop []]"
  have "\<exists>tr r. cexec ?xs demoRouter = Some (tr, r) \<and> r_stopAll r = SaDone \<and> ns_stopCh (r_ns r 0)"
    by (simp add: demo_simps cexec_append FailAll_skips cbDelete_def startFail_def fail_defs rangeOf_def upt_rec exitFlusher_def)
  then obtain tr r where r: "crun demoRouter tr r" "r_stopAll r = SaDone" "ns_stopCh (r_ns r 0)" using cexec_crun by blast
  with stop_closes_once [OF r(1) [unfolded demoRouter_def]] show ?thesis by blast
qed

end
