(* ===== verification/Numerals.thy ===== *)
theory Numerals
  imports Prelude
begin

text \<open>
  Decimal parsing of the standard library, \<^verbatim>\<open>strconv.ParseInt(s, 10, 64)\<close>, and its round trip with
  the formatting functions of the prelude.
\<close>

definition digit_val :: "char \<Rightarrow> nat option" where
  "digit_val c = (let v = of_char c :: nat in if 48 \<le> v \<and> v \<le> 57 then Some (v - 48) else None)"

fun parseDigits :: "nat \<Rightarrow> string \<Rightarrow> nat option" where
  "parseDigits acc [] = Some acc"
| "parseDigits acc (c # cs) = (case digit_val c of None \<Rightarrow> None | Some d \<Rightarrow> parseDigits (10 * acc + d) cs)"

text \<open>\<^term>\<open>None\<close> is a syntax or a range error.\<close>

definition ParseUint :: "string \<Rightarrow> nat option" where
  "ParseUint s = (if s = [] then None else case parseDigits 0 s of None \<Rightarrow> None
     | Some n \<Rightarrow> if n < 2 ^ 64 then Some n else None)"

definition ParseInt :: "string \<Rightarrow> int64 option" where
  "ParseInt s = (let neg = (s \<noteq> [] \<and> hd s = CHR ''-'');
       digits = (if s \<noteq> [] \<and> (hd s = CHR ''-'' \<or> hd s = CHR ''+'') then tl s else s)
     in case ParseUint digits of None \<Rightarrow> None
        | Some n \<Rightarrow> if \<not> neg \<and> 2 ^ 63 \<le> n then None
                    else if neg \<and> 2 ^ 63 < n then None
                    else Some (if neg then - of_nat n else of_nat n))"

lemma digit_val_char [simp]: "d < 10 \<Longrightarrow> digit_val (digit_char d) = Some d"
  by (simp add: digit_val_def digit_char_def)

lemma parseDigits_append:
  "parseDigits acc (s @ [c]) = (case parseDigits acc s of None \<Rightarrow> None | Some n \<Rightarrow> parseDigits n [c])"
  by (induction s arbitrary: acc) (auto split: option.split)

lemma parseDigits_FormatUint: "parseDigits 0 (FormatUint n) = Some n"
proof (induction n rule: FormatUint.induct)
  case (1 n)
  then show ?case by (subst FormatUint.simps) (auto simp: parseDigits_append)
qed

lemma FormatUint_nonempty [simp]: "FormatUint n \<noteq> []"
  by (subst FormatUint.simps) simp

lemma FormatUint_inj [simp]: "FormatUint m = FormatUint n \<longleftrightarrow> m = n"
  using parseDigits_FormatUint by (metis option.inject)

lemma FormatUint_hd: "\<exists>d < 10. hd (FormatUint n) = digit_char d"
proof (induction n rule: FormatUint.induct)
  case (1 n)
  then show ?case
  proof (cases "n < 10")
    case True
    then show ?thesis by (subst FormatUint.simps) auto
  next
    case False
    with 1 show ?thesis by (subst FormatUint.simps) auto
  qed
qed

lemma digit_char_not_sign: "d < 10 \<Longrightarrow> digit_char d \<noteq> CHR ''-'' \<and> digit_char d \<noteq> CHR ''+''"
  using digit_val_char [of d] by (auto simp: digit_val_def)

lemma FormatUint_no_sign: "hd (FormatUint n) \<noteq> CHR ''-''" "hd (FormatUint n) \<noteq> CHR ''+''"
  using FormatUint_hd [of n] digit_char_not_sign by metis+

lemma ParseUint_FormatUint: "n < 2 ^ 64 \<Longrightarrow> ParseUint (FormatUint n) = Some n"
  by (simp add: ParseUint_def parseDigits_FormatUint)

theorem ParseInt_FormatInt: "ParseInt (FormatInt (sint v)) = Some v"
proof (cases "sint v < 0")
  case True
  then have "nat (- sint v) \<le> 2 ^ 63" using sint64_bounds(1) [of v] by (simp add: nat_le_iff)
  moreover from this have "ParseUint (FormatUint (nat (- sint v))) = Some (nat (- sint v))" by (intro ParseUint_FormatUint) simp
  moreover have "- of_nat (nat (- sint v)) = v"
    using True by (simp add: of_nat_nat flip: of_int_minus)
  ultimately show ?thesis using True by (simp add: ParseInt_def FormatInt_def)
next
  case False
  then have "nat (sint v) < 2 ^ 63" using sint64_bounds(2) [of v] by (simp add: nat_less_iff)
  moreover from this have "ParseUint (FormatUint (nat (sint v))) = Some (nat (sint v))" by (intro ParseUint_FormatUint) simp
  ultimately show ?thesis using False by (simp add: ParseInt_def FormatInt_def FormatUint_no_sign of_nat_nat)
qed

end
