(* ===== verification/Flags.thy ===== *)
theory Flags
  imports Numerals
begin

text \<open>
  The parts of the standard library that read a command line: \<^verbatim>\<open>strconv.ParseInt(s, 0, 64)\<close>,
  \<^verbatim>\<open>time.ParseDuration\<close>, \<^verbatim>\<open>strings.Split\<close> and the package \<^verbatim>\<open>flag\<close>. Strings are byte strings. An error is
  \<^term>\<open>None\<close> where the callers only report that there is one.
\<close>

section \<open>Numbers in any base\<close>

definition lower :: "char \<Rightarrow> nat" where
  "lower c = or (of_char c) 32"

definition digitAny :: "char \<Rightarrow> nat option" where
  "digitAny c = (case digit_val c of Some d \<Rightarrow> Some d
     | None \<Rightarrow> if 97 \<le> lower c \<and> lower c \<le> 122 then Some (lower c - 97 + 10) else None)"

fun parseBase :: "nat \<Rightarrow> nat \<Rightarrow> string \<Rightarrow> nat option" where
  "parseBase base n [] = Some n"
| "parseBase base n (c # cs) = (if c = CHR ''_'' then parseBase base n cs
     else case digitAny c of None \<Rightarrow> None
       | Some d \<Rightarrow> if base \<le> d then None else parseBase base (n * base + d) cs)"

definition basePrefix :: "string \<Rightarrow> nat \<times> string" where
  "basePrefix s = (if hd s \<noteq> CHR ''0'' then (10, s)
     else if 3 \<le> length s \<and> lower (s ! 1) = 98 then (2, drop 2 s)
     else if 3 \<le> length s \<and> lower (s ! 1) = 111 then (8, drop 2 s)
     else if 3 \<le> length s \<and> lower (s ! 1) = 120 then (16, drop 2 s)
     else (8, drop 1 s))"

text \<open>What the last character was: nothing yet, a digit, an underscore, anything else.\<close>

datatype seen = SeenStart | SeenDigit | SeenUnderscore | SeenOther

fun underscores :: "bool \<Rightarrow> seen \<Rightarrow> string \<Rightarrow> bool" where
  "underscores hex i [] \<longleftrightarrow> i \<noteq> SeenUnderscore"
| "underscores hex i (c # cs) =
     (if digit_val c \<noteq> None \<or> hex \<and> 97 \<le> lower c \<and> lower c \<le> 102 then underscores hex SeenDigit cs
      else if c = CHR ''_'' then (if i \<noteq> SeenDigit then False else underscores hex SeenUnderscore cs)
      else if i = SeenUnderscore then False
      else underscores hex SeenOther cs)"

definition underscoreOK :: "string \<Rightarrow> bool" where
  "underscoreOK s = (if 2 \<le> length s \<and> hd s = CHR ''0'' \<and> lower (s ! 1) \<in> {98, 111, 120}
     then underscores (lower (s ! 1) = 120) SeenDigit (drop 2 s)
     else underscores False SeenStart s)"

definition ParseUint0 :: "string \<Rightarrow> nat option" where
  "ParseUint0 s = (if s = [] then None else case basePrefix s of (base, digits) \<Rightarrow>
     (case parseBase base 0 digits of None \<Rightarrow> None
      | Some n \<Rightarrow> if 2 ^ 64 \<le> n then None
          else if CHR ''_'' \<in> set digits \<and> \<not> underscoreOK s then None
          else Some n))"

definition ParseInt0 :: "string \<Rightarrow> int64 option" where
  "ParseInt0 s = (let neg = (s \<noteq> [] \<and> hd s = CHR ''-'');
       digits = (if s \<noteq> [] \<and> (hd s = CHR ''-'' \<or> hd s = CHR ''+'') then tl s else s)
     in case ParseUint0 digits of None \<Rightarrow> None
        | Some n \<Rightarrow> if \<not> neg \<and> 2 ^ 63 \<le> n then None
                    else if neg \<and> 2 ^ 63 < n then None
                    else Some (if neg then - of_nat n else of_nat n))"

section \<open>Durations\<close>

text \<open>
  The one floating point computation of \<^verbatim>\<open>ParseDuration\<close>. A positive number is a fraction of naturals;
  \<^verbatim>\<open>float64\<close> rounds it to 53 binary digits, to the nearest and to even. The exponents stay far inside
  the range of the format.
\<close>

fun bits :: "nat \<Rightarrow> nat" where
  "bits n = (if n = 0 then 0 else Suc (bits (n div 2)))"

declare bits.simps [simp del]

definition roundDiv :: "nat \<Rightarrow> nat \<Rightarrow> nat" where
  "roundDiv p q = (let m = p div q; r = 2 * (p mod q) in if q < r \<or> r = q \<and> odd m then Suc m else m)"

definition scaled :: "nat \<times> nat \<Rightarrow> int \<Rightarrow> nat \<times> nat" where
  "scaled x e = (if 0 \<le> e then (fst x, snd x * 2 ^ nat e) else (fst x * 2 ^ nat (- e), snd x))"

definition float64 :: "nat \<times> nat \<Rightarrow> nat \<times> nat" where
  "float64 x = (if fst x = 0 then (0, 1) else
     let e0 = int (bits (fst x)) - int (bits (snd x)) - 53;
         e = (case scaled x e0 of (p, q) \<Rightarrow> if 2 ^ 53 * q \<le> p then e0 + 1 else e0);
         m = (case scaled x e of (p, q) \<Rightarrow> roundDiv p q)
     in scaled (m, 1) (- e))"

definition fractionNanos :: "nat \<Rightarrow> nat \<Rightarrow> nat \<Rightarrow> nat" where
  "fractionNanos f unit scale = (case (float64 (f, 1), float64 (unit, scale)) of ((a, b), (c, d)) \<Rightarrow>
     (case float64 (a * c, b * d) of (x, y) \<Rightarrow> x div y))"

fun leadingInt :: "nat \<Rightarrow> string \<Rightarrow> (nat \<times> string) option" where
  "leadingInt x [] = Some (x, [])"
| "leadingInt x (c # cs) = (case digit_val c of None \<Rightarrow> Some (x, c # cs)
     | Some d \<Rightarrow> if 2 ^ 63 div 10 < x then None
         else if 2 ^ 63 < x * 10 + d then None
         else leadingInt (x * 10 + d) cs)"

text \<open>\<^verbatim>\<open>leadingFraction\<close> with its scale, a power of ten that is exact as a floating point number.\<close>

fun leadingFraction :: "bool \<Rightarrow> nat \<Rightarrow> nat \<Rightarrow> string \<Rightarrow> nat \<times> nat \<times> string" where
  "leadingFraction overflow x scale [] = (x, scale, [])"
| "leadingFraction overflow x scale (c # cs) = (case digit_val c of None \<Rightarrow> (x, scale, c # cs)
     | Some d \<Rightarrow> if overflow then leadingFraction True x scale cs
         else if (2 ^ 63 - 1) div 10 < x then leadingFraction True x scale cs
         else if 2 ^ 63 < x * 10 + d then leadingFraction True x scale cs
         else leadingFraction False (x * 10 + d) (scale * 10) cs)"

definition unitMap :: "string \<Rightarrow> nat option" where
  "unitMap = map_of [(''ns'', 1), (''us'', 1000), ([CHR 0xC2, CHR 0xB5, CHR ''s''], 1000), ([CHR 0xCE, CHR 0xBC, CHR ''s''], 1000),
     (''ms'', 1000000), (''s'', 1000000000), (''m'', 60000000000), (''h'', 3600000000000)]"

definition unitChar :: "char \<Rightarrow> bool" where
  "unitChar c \<longleftrightarrow> \<not> (c = CHR ''.'' \<or> digit_val c \<noteq> None)"

text \<open>One number with its unit, from the start of a string: the nanoseconds and the rest.\<close>

definition durationPart :: "string \<Rightarrow> (nat \<times> string) option" where
  "durationPart s = (if s = [] \<or> unitChar (hd s) then None
     else case leadingInt 0 s of None \<Rightarrow> None
     | Some (v, s1) \<Rightarrow>
        let pre = (length s1 \<noteq> length s);
            (f, scale, s2) = (if s1 \<noteq> [] \<and> hd s1 = CHR ''.'' then leadingFraction False 0 1 (tl s1) else (0, 1, s1));
            post = (s1 \<noteq> [] \<and> hd s1 = CHR ''.'' \<and> length s2 \<noteq> length (tl s1));
            u = takeWhile unitChar s2
        in if \<not> pre \<and> \<not> post then None
           else if u = [] then None
           else case unitMap u of None \<Rightarrow> None
             | Some unit \<Rightarrow> if 2 ^ 63 div unit < v then None
                 else let v' = v * unit + (if 0 < f then fractionNanos f unit scale else 0) in
                   if 0 < f \<and> 2 ^ 63 < v' then None else Some (v', dropWhile unitChar s2))"

lemma leadingInt_length: "leadingInt x s = Some (n, r) \<Longrightarrow> length r \<le> length s"
  by (induction x s rule: leadingInt.induct) (auto split: option.splits if_splits)

lemma leadingFraction_length: "leadingFraction b x sc s = (f, sc', r) \<Longrightarrow> length r \<le> length s"
  by (induction b x sc s rule: leadingFraction.induct) (auto split: option.splits if_splits)

lemma dropWhile_shorter: "takeWhile P s \<noteq> [] \<Longrightarrow> length (dropWhile P s) < length s"
  by (cases s) (auto simp: le_imp_less_Suc length_dropWhile_le split: if_splits)

lemma durationPart_shorter:
  assumes "durationPart s = Some (v, r)"
  shows "length r < length s"
proof -
  obtain v0 s1 where s1: "leadingInt 0 s = Some (v0, s1)" using assms by (auto simp: durationPart_def split: option.splits if_splits)
  define s2 where "s2 = (if s1 \<noteq> [] \<and> hd s1 = CHR ''.'' then snd (snd (leadingFraction False 0 1 (tl s1))) else s1)"
  have "length s2 \<le> length s1"
    using leadingFraction_length [of False 0 1 "tl s1"] unfolding s2_def by (cases "leadingFraction False 0 1 (tl s1)") fastforce
  moreover have "r = dropWhile unitChar s2" "takeWhile unitChar s2 \<noteq> []"
    using assms s1 by (auto simp: durationPart_def s2_def Let_def split: if_splits option.splits prod.splits)
  ultimately show ?thesis using dropWhile_shorter [of unitChar s2] leadingInt_length [OF s1] by simp
qed

function durationParts :: "nat \<Rightarrow> string \<Rightarrow> nat option" where
  "durationParts d s = (if s = [] then Some d else case durationPart s of None \<Rightarrow> None
     | Some (v, r) \<Rightarrow> (let d' = (d + v) mod 2 ^ 64 in if 2 ^ 63 < d' then None else durationParts d' r))"
  by pat_completeness auto
termination
  by (relation "measure (\<lambda>(d, s). length s)") (auto dest: durationPart_shorter)

declare durationParts.simps [simp del]

definition ParseDuration :: "string \<Rightarrow> int64 option" where
  "ParseDuration s = (let neg = (s \<noteq> [] \<and> hd s = CHR ''-'');
       s1 = (if s \<noteq> [] \<and> (hd s = CHR ''-'' \<or> hd s = CHR ''+'') then tl s else s)
     in if s1 = ''0'' then Some 0
        else if s1 = [] then None
        else case durationParts 0 s1 of None \<Rightarrow> None
          | Some d \<Rightarrow> if neg then Some (- of_nat d) else if 2 ^ 63 - 1 < d then None else Some (of_nat d))"

section \<open>Flag sets\<close>

text \<open>\<^verbatim>\<open>strings.Split\<close> with a separator of one byte.\<close>

fun Split :: "char \<Rightarrow> string \<Rightarrow> string list" where
  "Split sep [] = [[]]"
| "Split sep (c # cs) = (if c = sep then [] # Split sep cs
     else case Split sep cs of [] \<Rightarrow> [[c]] | x # xs \<Rightarrow> (c # x) # xs)"

text \<open>
  A flag is bound to a field of a configuration: it has a name and stores a text into the field. The
  registration of a flag stores its default and adds it to the set; \<^term>\<open>upd\<close> is the update of the
  field.
\<close>

type_synonym 'c flag = "string \<times> (string \<Rightarrow> 'c \<Rightarrow> 'c option)"
type_synonym 'c flagSet = "'c \<times> 'c flag list"

definition flagVar :: "(string \<Rightarrow> 'v option) \<Rightarrow> (('v \<Rightarrow> 'v) \<Rightarrow> 'c \<Rightarrow> 'c) \<Rightarrow> string \<Rightarrow> 'v \<Rightarrow> 'c flagSet \<Rightarrow> 'c flagSet" where
  "flagVar parse upd name v fs = (upd (\<lambda>_. v) (fst fs),
     snd fs @ [(name, \<lambda>s c. map_option (\<lambda>v. upd (\<lambda>_. v) c) (parse s))])"

definition StringVar :: "((string \<Rightarrow> string) \<Rightarrow> 'c \<Rightarrow> 'c) \<Rightarrow> string \<Rightarrow> string \<Rightarrow> 'c flagSet \<Rightarrow> 'c flagSet" where
  "StringVar = flagVar Some"

definition IntVar :: "((int64 \<Rightarrow> int64) \<Rightarrow> 'c \<Rightarrow> 'c) \<Rightarrow> string \<Rightarrow> int64 \<Rightarrow> 'c flagSet \<Rightarrow> 'c flagSet" where
  "IntVar = flagVar ParseInt0"

definition Uint64Var :: "((uint64 \<Rightarrow> uint64) \<Rightarrow> 'c \<Rightarrow> 'c) \<Rightarrow> string \<Rightarrow> uint64 \<Rightarrow> 'c flagSet \<Rightarrow> 'c flagSet" where
  "Uint64Var = flagVar (\<lambda>s. map_option of_nat (ParseUint0 s))"

definition DurationVar :: "((int64 \<Rightarrow> int64) \<Rightarrow> 'c \<Rightarrow> 'c) \<Rightarrow> string \<Rightarrow> int64 \<Rightarrow> 'c flagSet \<Rightarrow> 'c flagSet" where
  "DurationVar = flagVar ParseDuration"

datatype flagError = BadFlagSyntax string | FlagNotDefined string | FlagNeedsArgument string | InvalidValue string string | ErrHelp

text \<open>The name of a flag and its value after an equals sign, which cannot be the first character.\<close>

definition cutValue :: "string \<Rightarrow> string \<times> string option" where
  "cutValue name = (let n = hd name # takeWhile (\<lambda>c. c \<noteq> CHR ''='') (tl name) in
     (n, if length n < length name then Some (drop (Suc (length n)) name) else None))"

definition setFlag :: "'c flag list \<Rightarrow> string \<Rightarrow> string \<Rightarrow> 'c \<Rightarrow> flagError + 'c" where
  "setFlag flags name s c = (case map_of flags name of
     None \<Rightarrow> Inl (FlagNotDefined name)
   | Some st \<Rightarrow> (case st s c of None \<Rightarrow> Inl (InvalidValue s name) | Some c' \<Rightarrow> Inr c'))"

text \<open>\<^verbatim>\<open>FlagSet.Parse\<close>: the configuration and the arguments that are left.\<close>

fun Parse :: "'c flag list \<Rightarrow> string list \<Rightarrow> 'c \<Rightarrow> flagError + 'c \<times> string list" where
  "Parse flags [] c = Inr (c, [])"
| "Parse flags (s # args) c =
     (if length s < 2 \<or> hd s \<noteq> CHR ''-'' then Inr (c, s # args)
      else if s = ''--'' then Inr (c, args)
      else let name = (if s ! 1 = CHR ''-'' then drop 2 s else drop 1 s) in
        if name = [] \<or> hd name = CHR ''-'' \<or> hd name = CHR ''='' then Inl (BadFlagSyntax s)
        else (case cutValue name of (n, value) \<Rightarrow>
          if map_of flags n = None then Inl (if n = ''help'' \<or> n = ''h'' then ErrHelp else FlagNotDefined n)
          else (case value of
              Some v \<Rightarrow> (case setFlag flags n v c of Inl e \<Rightarrow> Inl e | Inr c' \<Rightarrow> Parse flags args c')
            | None \<Rightarrow> (case args of [] \<Rightarrow> Inl (FlagNeedsArgument n)
                | v # rest \<Rightarrow> (case setFlag flags n v c of Inl e \<Rightarrow> Inl e | Inr c' \<Rightarrow> Parse flags rest c')))))"

section \<open>Printed numbers are read back\<close>

lemma digit_val_bounds: "digit_val c = Some d \<Longrightarrow> d < 10 \<and> c \<noteq> CHR ''_'' \<and> c \<noteq> CHR ''.''"
  by (auto simp: digit_val_def Let_def split: if_splits)

lemma parseBase_digits: "parseDigits n s = Some m \<Longrightarrow> parseBase 10 n s = Some m \<and> CHR ''_'' \<notin> set s"
  by (induction n s rule: parseDigits.induct)
    (auto simp: digitAny_def mult.commute dest: digit_val_bounds split: option.splits)

lemma FormatUint_hd_pos: "0 < n \<Longrightarrow> hd (FormatUint n) \<noteq> CHR ''0''"
proof (induction n rule: FormatUint.induct)
  case (1 n)
  show ?case
  proof (cases "n < 10")
    case True
    with 1(2) show ?thesis using digit_val_char [of n] by (subst FormatUint.simps) (auto simp: digit_val_def)
  next
    case False
    with 1(1) show ?thesis by (subst FormatUint.simps) auto
  qed
qed

lemma ParseUint0_FormatUint:
  assumes "n < 2 ^ 64"
  shows "ParseUint0 (FormatUint n) = Some n"
proof (cases "n = 0")
  case True
  have "FormatUint 0 = ''0''" by (simp add: FormatUint.simps digit_char_def char_of_def bit_0)
  then show ?thesis using True by (simp add: ParseUint0_def basePrefix_def)
next
  case False
  then have "basePrefix (FormatUint n) = (10, FormatUint n)" using FormatUint_hd_pos by (simp add: basePrefix_def)
  then show ?thesis using assms parseBase_digits [OF parseDigits_FormatUint] by (simp add: ParseUint0_def)
qed

text \<open>Both readers of signed numbers treat the sign alike.\<close>

lemma ParseInt0_FormatInt: "ParseInt0 (FormatInt (sint v)) = Some v"
proof -
  have eq: "ParseUint0 (FormatUint n) = ParseUint (FormatUint n)" if "n < 2 ^ 64" for n
    using that ParseUint0_FormatUint ParseUint_FormatUint by simp
  have "nat (- sint v) < 2 ^ 64" "nat (sint v) < 2 ^ 64" using sint64_bounds [of v] by (simp_all add: nat_less_iff)
  then have "ParseInt0 (FormatInt (sint v)) = ParseInt (FormatInt (sint v))"
    using eq by (auto simp: ParseInt0_def ParseInt_def FormatInt_def FormatUint_no_sign)
  then show ?thesis by (simp add: ParseInt_FormatInt)
qed

lemma parseDigits_mono: "parseDigits x s = Some n \<Longrightarrow> x \<le> n"
  by (induction x s rule: parseDigits.induct) (auto split: option.splits)

lemma leadingInt_digits:
  assumes "parseDigits x s = Some n" and "n \<le> 2 ^ 63" and "u \<noteq> [] \<Longrightarrow> digit_val (hd u) = None"
  shows "leadingInt x (s @ u) = Some (n, u)"
  using assms
proof (induction x s rule: parseDigits.induct)
  case (1 acc)
  then show ?case by (cases u) auto
next
  case (2 acc c cs)
  then obtain d where d: "digit_val c = Some d" "parseDigits (10 * acc + d) cs = Some n" by (auto split: option.splits)
  then have "10 * acc + d \<le> n" using parseDigits_mono by blast
  then show ?case using 2 d by (auto simp: mult.commute)
qed

definition FormatNanos :: "int64 \<Rightarrow> string" where
  "FormatNanos d = FormatInt (sint d) @ ''ns''"

lemma durationParts_nanos:
  assumes "n \<le> 2 ^ 63"
  shows "durationParts 0 (FormatUint n @ ''ns'') = Some n"
proof -
  have l: "leadingInt 0 (FormatUint n @ ''ns'') = Some (n, ''ns'')"
    by (rule leadingInt_digits [OF parseDigits_FormatUint assms]) (simp add: digit_val_def)
  obtain d where "d < 10" "hd (FormatUint n) = digit_char d" using FormatUint_hd by blast
  then have "\<not> unitChar (hd (FormatUint n @ ''ns''))" by (simp add: unitChar_def)
  moreover have "unitChar (CHR ''n'')" "unitChar (CHR ''s'')" by (simp_all add: unitChar_def digit_val_def)
  ultimately have "durationPart (FormatUint n @ ''ns'') = Some (n, [])"
    using assms by (simp add: durationPart_def l unitMap_def)
  moreover have "n < 2 ^ 64" using assms by simp
  ultimately show ?thesis using assms by (simp add: durationParts.simps)
qed

lemma ParseDuration_FormatNanos: "ParseDuration (FormatNanos d) = Some d"
proof -
  have "FormatUint n @ ''ns'' \<noteq> ''0''" for n using FormatUint_nonempty [of n] by (cases "FormatUint n") auto
  moreover have "nat (- sint d) \<le> 2 ^ 63" "nat (sint d) \<le> 2 ^ 63 - 1" using sint64_bounds [of d] by (simp_all add: nat_le_iff)
  ultimately show ?thesis
    using durationParts_nanos [of "nat (- sint d)"] durationParts_nanos [of "nat (sint d)"]
    by (auto simp: ParseDuration_def FormatNanos_def FormatInt_def FormatUint_no_sign of_nat_nat simp flip: of_int_minus)
qed

section \<open>Parsing flags\<close>

definition flagName :: "string \<Rightarrow> bool" where
  "flagName name \<longleftrightarrow> name \<noteq> [] \<and> hd name \<noteq> CHR ''-'' \<and> CHR ''='' \<notin> set name"

lemma cutValue_name:
  assumes "flagName name"
  shows "cutValue (name @ ''='' @ v) = (name, Some v)" "cutValue name = (name, None)"
proof -
  obtain c cs where n: "name = c # cs" "CHR ''='' \<notin> set cs" using assms by (cases name) (auto simp: flagName_def)
  have t1: "takeWhile (\<lambda>c. c \<noteq> CHR ''='') (cs @ CHR ''='' # v) = cs" using n(2) by (induction cs) auto
  have t2: "takeWhile (\<lambda>c. c \<noteq> CHR ''='') cs = cs" using n(2) by (induction cs) auto
  show "cutValue (name @ ''='' @ v) = (name, Some v)" by (simp add: cutValue_def n(1) t1)
  show "cutValue name = (name, None)" unfolding cutValue_def n(1) list.sel t2 by simp
qed

text \<open>A flag written as \<^verbatim>\<open>-name=value\<close>, as \<^verbatim>\<open>--name=value\<close>, and with the value in the next argument.\<close>

definition printFlag :: "string \<Rightarrow> string \<Rightarrow> string" where
  "printFlag name v = CHR ''-'' # name @ ''='' @ v"

lemma Parse_flag:
  fixes c :: 'c and flags :: "'c flag list"
  assumes "flagName name" and "map_of flags name \<noteq> None"
  defines "k \<equiv> \<lambda>v args. case setFlag flags name v c of Inl e \<Rightarrow> Inl e | Inr c' \<Rightarrow> Parse flags args c'"
  shows "Parse flags (printFlag name v # args) c = k v args" "Parse flags ((CHR ''-'' # printFlag name v) # args) c = k v args"
    "Parse flags ((CHR ''-'' # name) # v # args) c = k v args"
proof -
  obtain x xs where n: "name = x # xs" "x \<noteq> CHR ''-''" "x \<noteq> CHR ''=''" using assms(1) by (cases name) (auto simp: flagName_def)
  obtain st where st: "map_of flags (x # xs) = Some st" using assms(2) n(1) by auto
  note cut = cutValue_name [OF assms(1)]
  show "Parse flags (printFlag name v # args) c = k v args" "Parse flags ((CHR ''-'' # printFlag name v) # args) c = k v args"
    using cut(1) [of v] n st by (simp_all add: printFlag_def k_def)
  show "Parse flags ((CHR ''-'' # name) # v # args) c = k v args"
    using cut(2) n st by (simp add: k_def)
qed

end
