(* ===== verification/Stress.thy ===== *)
theory Stress
  imports Complex_Main "HOL-Library.Signed_Division" Client Flags
begin

text \<open>
  \<^verbatim>\<open>cmd/client/stress.go\<close> and the request identifiers of \<^verbatim>\<open>cmd/client/main.go\<close>: the load generator,
  its configuration, draining, the metrics reporter and the engine that runs one load at a time in
  the background. Go's \<^verbatim>\<open>int\<close> has 64 bits; a \<^verbatim>\<open>time.Duration\<close> is a number of nanoseconds. Floating
  point results are given as real numbers, before rounding.
\<close>

section \<open>Request identifiers\<close>

text \<open>\<^term>\<open>n\<close> is the outcome of \<^verbatim>\<open>rand.Intn(65536)\<close>.\<close>

definition initRequestIDs :: "nat \<Rightarrow> uint64" where
  "initRequestIDs n = push_bit 48 (of_nat n)"

definition nextRequestID :: "uint64 \<Rightarrow> uint64 \<times> uint64" where
  "nextRequestID g = (g + 1, g + 1)"

fun requestIDs :: "nat \<Rightarrow> uint64 \<Rightarrow> uint64 list" where
  "requestIDs 0 g = []"
| "requestIDs (Suc k) g = (case nextRequestID g of (i, g') \<Rightarrow> i # requestIDs k g')"

section \<open>Configuration\<close>

record clientConfig =
  cc_etcdEndpoints :: string
  cc_nodePrefix :: string
  cc_batchSize :: int64
  cc_flushDelay :: int64

record stressConfig = clientConfig +
  tpsTarget :: int64
  concurrency :: int64
  duration :: int64
  drainWindow :: int64
  uidMin :: int64
  uidMax :: int64

definition Second :: int64 where "Second = 1000000000"

definition normalize :: "stressConfig \<Rightarrow> string + stressConfig" where
  "normalize cfg = (let
       cfg1 = (if sint (drainWindow cfg) \<le> 0 then cfg\<lparr>drainWindow := 60 * Second\<rparr> else cfg);
       cfg2 = (if uidMin cfg1 = 0 \<and> uidMax cfg1 = 0 then cfg1\<lparr>uidMin := 1, uidMax := 100\<rparr> else cfg1)
     in if sint (uidMin cfg2) \<le> 0 then Inl ''uid-min must be > 0''
        else if sint (uidMax cfg2) < sint (uidMin cfg2) then Inl ''uid-max must be >= uid-min''
        else Inr cfg2)"

text \<open>The shared flags and the flags of the subcommand \<^verbatim>\<open>stress\<close>, bound to the fields of the configuration.\<close>

definition defaultFlushDelay :: int64 where "defaultFlushDelay = 5 * 1000000"

definition registerSharedFlags :: "'a clientConfig_scheme flagSet \<Rightarrow> 'a clientConfig_scheme flagSet" where
  "registerSharedFlags fs =
     DurationVar cc_flushDelay_update ''flush-delay'' defaultFlushDelay (
     IntVar cc_batchSize_update ''batch'' 2000 (
     StringVar cc_nodePrefix_update ''node-prefix'' ''/actor_cluster/nodes'' (
     StringVar cc_etcdEndpoints_update ''etcd'' ''127.0.0.1:2379'' fs)))"

definition zeroStressConfig :: stressConfig where
  "zeroStressConfig = \<lparr>cc_etcdEndpoints = [], cc_nodePrefix = [], cc_batchSize = 0, cc_flushDelay = 0, tpsTarget = 0,
     concurrency = 0, duration = 0, drainWindow = 0, uidMin = 0, uidMax = 0\<rparr>"

definition stressFlags :: "stressConfig flagSet" where
  "stressFlags =
     IntVar uidMax_update ''uid-max'' 100 (
     IntVar uidMin_update ''uid-min'' 1 (
     DurationVar drainWindow_update ''drain-window'' (60 * Second) (
     DurationVar duration_update ''duration'' (30 * Second) (
     IntVar concurrency_update ''concurrency'' 5000 (
     IntVar tpsTarget_update ''tps'' 50000 (
     registerSharedFlags (zeroStressConfig, [])))))))"

section \<open>The load generator\<close>

text \<open>Signed division of Go, which truncates.\<close>

definition quot64 :: "int64 \<Rightarrow> int64 \<Rightarrow> int64" where
  "quot64 a b = word_of_int (sint a sdiv sint b)"

definition pacing :: "stressConfig \<Rightarrow> int64" where
  "pacing cfg = (let p = quot64 (Second * concurrency cfg) (tpsTarget cfg) in if sint p \<le> 0 then 1 else p)"

text \<open>\<^verbatim>\<open>rand.Int63n\<close> panics unless its argument is positive; \<^term>\<open>draw\<close> is the random number.\<close>

definition Int63n :: "nat \<Rightarrow> int64 \<Rightarrow> int64 option" where
  "Int63n draw n = (if sint n \<le> 0 then None else Some (of_nat (draw mod unat n)))"

definition stressEnvelope :: "int64 \<Rightarrow> uint64 \<Rightarrow> RemoteEnvelope" where
  "stressEnvelope uid rid = \<lparr>env_TenantId = 1, env_Uid = uid, env_TxId = FormatUint (unat rid),
     env_RequestId = rid, env_OpCode = 1, env_Payload = BigEndian_PutUint64 1, env_DeadlineUnixMs = 0\<rparr>"

text \<open>One tick of a generator; \<^term>\<open>None\<close> is the panic.\<close>

definition generatorTick :: "stressConfig \<Rightarrow> nat \<Rightarrow> uint64 \<Rightarrow> (RemoteEnvelope \<times> uint64) option" where
  "generatorTick cfg draw g = (case nextRequestID g of (rid, g') \<Rightarrow>
     (case Int63n draw (uidMax cfg - uidMin cfg + 1) of None \<Rightarrow> None
      | Some d \<Rightarrow> Some (stressEnvelope (uidMin cfg + d) rid, g')))"

text \<open>
  The envelopes of all generators in the order of their ticks, until the context ends. Each tick
  brings its random number.
\<close>

fun generate :: "stressConfig \<Rightarrow> nat list \<Rightarrow> uint64 \<Rightarrow> (RemoteEnvelope list \<times> uint64) option" where
  "generate cfg [] g = Some ([], g)"
| "generate cfg (draw # draws) g = (case generatorTick cfg draw g of None \<Rightarrow> None
     | Some (env, g') \<Rightarrow> (case generate cfg draws g' of None \<Rightarrow> None
         | Some (envs, g'') \<Rightarrow> Some (env # envs, g'')))"

definition runStressGenerators :: "stressConfig \<Rightarrow> nat list \<Rightarrow> uint64 \<Rightarrow> (RemoteEnvelope list \<times> uint64) option" where
  "runStressGenerators cfg draws g =
     (if sint (concurrency cfg) \<le> 0 \<or> sint (tpsTarget cfg) \<le> 0 then Some ([], g) else generate cfg draws g)"

section \<open>Draining\<close>

text \<open>
  Each round of the loop loads the three counters and looks at the clock; \<^term>\<open>None\<close> when the
  observations end before the loop does.
\<close>

fun drainInFlight :: "(uint64 \<times> uint64 \<times> uint64 \<times> bool) list \<Rightarrow> (bool \<times> uint64) option" where
  "drainInFlight [] = None"
| "drainInFlight ((sent, success, errs, late) # obs) = (let handled = success + errs in
     if handled \<ge> sent then Some (True, 0)
     else if late then Some (False, sent - handled)
     else drainInFlight obs)"

section \<open>The metrics reporter\<close>

record tick =
  t_sentTPS :: uint64
  t_successTPS :: uint64
  t_errorTPS :: uint64
  t_inFlight :: uint64
  t_callbackPending :: uint64

record last_seen =
  lastSent :: uint64
  lastSuccess :: uint64
  lastErrors :: uint64

definition reporterTick :: "Metrics \<Rightarrow> uint64 \<Rightarrow> last_seen \<Rightarrow> tick \<times> last_seen" where
  "reporterTick m callbackPending l = (let handled = respRecv m + errCount m in
     (\<lparr>t_sentTPS = reqSent m - lastSent l, t_successTPS = respRecv m - lastSuccess l,
       t_errorTPS = errCount m - lastErrors l,
       t_inFlight = (if reqSent m > handled then reqSent m - handled else 0),
       t_callbackPending = callbackPending\<rparr>,
      \<lparr>lastSent = reqSent m, lastSuccess = respRecv m, lastErrors = errCount m\<rparr>))"

definition reporterStart :: last_seen where
  "reporterStart = \<lparr>lastSent = 0, lastSuccess = 0, lastErrors = 0\<rparr>"

section \<open>Differences of metrics\<close>

record metricsBaseline =
  mb_sent :: uint64
  mb_success :: uint64
  mb_errors :: uint64
  mb_latencyNanos :: uint64
  mb_latencySamples :: uint64
  mb_errorBreakdown :: "string \<rightharpoonup> uint64"

definition zeroBaseline :: metricsBaseline where
  "zeroBaseline = \<lparr>mb_sent = 0, mb_success = 0, mb_errors = 0, mb_latencyNanos = 0, mb_latencySamples = 0,
     mb_errorBreakdown = (\<lambda>_. None)\<rparr>"

definition subtractWithFloor :: "uint64 \<Rightarrow> uint64 \<Rightarrow> uint64" where
  "subtractWithFloor cur base = (if cur < base then 0 else cur - base)"

definition diffAvgLatency :: "uint64 \<Rightarrow> uint64 \<Rightarrow> metricsBaseline \<Rightarrow> real" where
  "diffAvgLatency currNanos currSamples baseline = (let
       nanos = subtractWithFloor currNanos (mb_latencyNanos baseline);
       samples = subtractWithFloor currSamples (mb_latencySamples baseline)
     in if samples = 0 then 0 else real_of_int (sint (nanos div samples)) / 1000000)"

definition diffErrorBreakdown :: "(string \<rightharpoonup> uint64) \<Rightarrow> (string \<rightharpoonup> uint64) \<Rightarrow> string \<rightharpoonup> uint64" where
  "diffErrorBreakdown cur base k = (case cur k of None \<Rightarrow> None
     | Some v \<Rightarrow> (let b = (case base k of None \<Rightarrow> 0 | Some x \<Rightarrow> x) in if v \<le> b then None else Some (v - b)))"

definition throughputPerSecond :: "uint64 \<Rightarrow> int64 \<Rightarrow> real" where
  "throughputPerSecond n d = (if sint d \<le> 0 then 0
     else real (unat n) / (real_of_int (sint d) / 1000000000))"

section \<open>The engine\<close>

text \<open>
  The background goroutine of a run: the generators, draining, the last store of \<^verbatim>\<open>currentTPS\<close> and the
  deferred calls, in the order in which they run.
\<close>

datatype run_pc = RunGenerate | RunDrain | RunZero | RunStopMetrics | RunClearFlag | RunClose | RunOver

record run =
  run_cfg :: stressConfig
  run_pc :: run_pc
  run_cancelled :: bool
  run_stop :: bool
  run_done :: bool
  run_reporter :: "last_seen option"

datatype estop_pc = StopIdle | StopTaken "nat option" "nat option" | StopWait "nat option" | StopReturned "nat option"

record StressEngine =
  se_cancel :: "nat option"
  se_done :: "nat option"
  se_running :: bool
  se_currentTPS :: uint64
  se_baseline :: metricsBaseline
  se_runs :: "run list"
  se_stops :: "nat \<Rightarrow> estop_pc"

definition NewStressEngine :: StressEngine where
  "NewStressEngine = \<lparr>se_cancel = None, se_done = None, se_running = False, se_currentTPS = 0,
     se_baseline = zeroBaseline, se_runs = [], se_stops = (\<lambda>_. StopIdle)\<rparr>"

definition errAlreadyRunning :: string where
  "errAlreadyRunning = ''stress test is already running''"

definition newRun :: "stressConfig \<Rightarrow> run" where
  "newRun cfg = \<lparr>run_cfg = cfg, run_pc = RunGenerate, run_cancelled = False, run_stop = False, run_done = False,
     run_reporter = Some reporterStart\<rparr>"

text \<open>\<^verbatim>\<open>Start\<close> holds the mutex throughout; it returns an error or starts a run.\<close>

definition StressEngine_Start :: "stressConfig \<Rightarrow> StressEngine \<Rightarrow> string option \<times> StressEngine" where
  "StressEngine_Start cfg e = (if se_running e then (Some errAlreadyRunning, e)
     else (case normalize cfg of Inl err \<Rightarrow> (Some err, e)
       | Inr cfg' \<Rightarrow> (let i = length (se_runs e) in
           (None, e\<lparr>se_cancel := Some i, se_done := Some i, se_currentTPS := 0, se_running := True,
              se_baseline := zeroBaseline, se_runs := se_runs e @ [newRun cfg']\<rparr>))))"

text \<open>
  One step of the goroutine of run \<^term>\<open>i\<close>; \<^term>\<open>expired\<close> tells whether its duration has passed, \<^term>\<open>obs\<close>
  is what draining observes.
\<close>

definition setRun :: "nat \<Rightarrow> run \<Rightarrow> StressEngine \<Rightarrow> StressEngine" where
  "setRun i x e = e\<lparr>se_runs := (se_runs e)[i := x]\<rparr>"

definition run_step :: "bool \<Rightarrow> (uint64 \<times> uint64 \<times> uint64 \<times> bool) list \<Rightarrow> nat \<Rightarrow> StressEngine \<Rightarrow> StressEngine option" where
  "run_step expired obs i e = (let x = se_runs e ! i in case run_pc x of
     RunGenerate \<Rightarrow> if run_cancelled x \<or> expired \<or> sint (concurrency (run_cfg x)) \<le> 0 \<or> sint (tpsTarget (run_cfg x)) \<le> 0
       then Some (setRun i (x\<lparr>run_pc := RunDrain\<rparr>) e) else None
   | RunDrain \<Rightarrow> (case drainInFlight obs of None \<Rightarrow> None | Some _ \<Rightarrow> Some (setRun i (x\<lparr>run_pc := RunZero\<rparr>) e))
   | RunZero \<Rightarrow> Some ((setRun i (x\<lparr>run_pc := RunStopMetrics\<rparr>) e)\<lparr>se_currentTPS := 0\<rparr>)
   | RunStopMetrics \<Rightarrow> Some (setRun i (x\<lparr>run_pc := RunClearFlag, run_stop := True\<rparr>) e)
   | RunClearFlag \<Rightarrow> Some ((setRun i (x\<lparr>run_pc := RunClose\<rparr>) e)\<lparr>se_running := False\<rparr>)
   | RunClose \<Rightarrow> Some (setRun i (x\<lparr>run_pc := RunOver, run_done := True\<rparr>) e)
   | RunOver \<Rightarrow> None)"

text \<open>The reporter of a run, which ends on its own once told to.\<close>

definition reporter_step :: "bool \<Rightarrow> Metrics \<Rightarrow> uint64 \<Rightarrow> nat \<Rightarrow> StressEngine \<Rightarrow> StressEngine option" where
  "reporter_step quit m pend i e = (let x = se_runs e ! i in case run_reporter x of None \<Rightarrow> None
     | Some l \<Rightarrow>
         if quit then (if run_cancelled x \<or> run_stop x then Some (setRun i (x\<lparr>run_reporter := None\<rparr>) e) else None)
         else (case reporterTick m pend l of (t, l') \<Rightarrow>
           Some ((setRun i (x\<lparr>run_reporter := Some l'\<rparr>) e)\<lparr>se_currentTPS := t_sentTPS t\<rparr>)))"

text \<open>\<^verbatim>\<open>Stop\<close> of caller \<^term>\<open>t\<close>: take both fields under the mutex, cancel, wait.\<close>

definition StressEngine_Stop :: "nat \<Rightarrow> StressEngine \<Rightarrow> StressEngine option" where
  "StressEngine_Stop t e = (case se_stops e t of
     StopIdle \<Rightarrow> Some (e\<lparr>se_cancel := None, se_done := None, se_stops := (se_stops e)(t := StopTaken (se_cancel e) (se_done e))\<rparr>)
   | StopTaken cancel done_ch \<Rightarrow> Some ((case cancel of None \<Rightarrow> e | Some i \<Rightarrow> setRun i ((se_runs e ! i)\<lparr>run_cancelled := True\<rparr>) e)
       \<lparr>se_stops := (se_stops e)(t := StopWait done_ch)\<rparr>)
   | StopWait done_ch \<Rightarrow> if (case done_ch of None \<Rightarrow> True | Some i \<Rightarrow> run_done (se_runs e ! i))
       then Some (e\<lparr>se_stops := (se_stops e)(t := StopReturned done_ch)\<rparr>) else None
   | StopReturned done_ch \<Rightarrow> None)"

record stressStatus =
  IsRunning :: bool
  TotalSent :: uint64
  TotalSuccess :: uint64
  TotalErrors :: uint64
  CurrentTPS :: uint64
  AvgLatencyMS :: real
  ErrorBreakdown :: "string \<rightharpoonup> uint64"

definition Status :: "Metrics \<Rightarrow> StressEngine \<Rightarrow> stressStatus" where
  "Status m e = (let b = se_baseline e in \<lparr>IsRunning = se_running e,
     TotalSent = subtractWithFloor (reqSent m) (mb_sent b), TotalSuccess = subtractWithFloor (respRecv m) (mb_success b),
     TotalErrors = subtractWithFloor (errCount m) (mb_errors b), CurrentTPS = se_currentTPS e,
     AvgLatencyMS = diffAvgLatency (latencyNanos m) (latencySamples m) b,
     ErrorBreakdown = diffErrorBreakdown (ErrorBreakdownMap m) (mb_errorBreakdown b)\<rparr>)"

definition ResetMetrics :: "Metrics \<Rightarrow> StressEngine \<Rightarrow> StressEngine" where
  "ResetMetrics m e = e\<lparr>se_baseline := \<lparr>mb_sent = reqSent m, mb_success = respRecv m, mb_errors = errCount m,
     mb_latencyNanos = latencyNanos m, mb_latencySamples = latencySamples m, mb_errorBreakdown = ErrorBreakdownMap m\<rparr>,
     se_currentTPS := 0\<rparr>"

inductive estep :: "StressEngine \<Rightarrow> StressEngine \<Rightarrow> bool" where
  e_start: "estep e (snd (StressEngine_Start cfg e))"
| e_run: "i < length (se_runs e) \<Longrightarrow> run_step expired obs i e = Some e' \<Longrightarrow> estep e e'"
| e_reporter: "i < length (se_runs e) \<Longrightarrow> reporter_step quit m pend i e = Some e' \<Longrightarrow> estep e e'"
| e_stop: "StressEngine_Stop t e = Some e' \<Longrightarrow> estep e e'"
| e_reset: "estep e (ResetMetrics m e)"

inductive erun :: "StressEngine \<Rightarrow> StressEngine \<Rightarrow> bool" where
  erun_refl: "erun e e"
| erun_step: "erun e e' \<Longrightarrow> estep e' e'' \<Longrightarrow> erun e e''"

end
