(* ===== verification/StressRuns.thy ===== *)
theory StressRuns
  imports Stress
begin

text \<open>
  Properties of the stress engine: unique request identifiers, bounds of the generated load, draining,
  reset and status, and that at most one run is active.
\<close>

section \<open>Request identifiers\<close>

lemma requestIDs_nth: "i < k \<Longrightarrow> requestIDs k g ! i = g + of_nat (Suc i)"
  by (induction k arbitrary: g i) (auto simp: nextRequestID_def nth_Cons split: nat.split)

lemma length_requestIDs [simp]: "length (requestIDs k g) = k"
  by (induction k arbitrary: g) (simp_all add: nextRequestID_def)

lemma unat_requestID:
  assumes "m < 65536" and "j < 2 ^ 48"
  shows "unat (initRequestIDs m + of_nat j) = m * 2 ^ 48 + j"
proof -
  have "initRequestIDs m + of_nat j = (of_nat (m * 2 ^ 48 + j) :: uint64)"
    by (simp add: initRequestIDs_def push_bit_eq_mult mult.commute)
  moreover have "m * 2 ^ 48 + j < 2 ^ 64" using assms by simp
  ultimately show ?thesis by (simp only: unat_of_nat64)
qed

lemma mult_add_cancel:
  fixes i j m m' n :: nat
  assumes "i < n" "j < n"
  shows "m * n + i = m' * n + j \<longleftrightarrow> m = m' \<and> i = j"
proof
  assume eq: "m * n + i = m' * n + j"
  have "(m * n + i) div n = m" "(m' * n + j) div n = m'" using assms by simp_all
  with eq show "m = m' \<and> i = j" by auto
qed simp

text \<open>
  Request identifiers, and the transaction identifiers that the client derives from them, are unique
  as long as no two processes draw the same machine number and each makes fewer than
  \<^term>\<open>2 ^ 48 :: nat\<close> requests.
\<close>

lemma request_ids_unique:
  assumes "m < 65536" "m' < 65536" and "k < 2 ^ 48" "k' < 2 ^ 48" and "i < k" "j < k'"
  shows "(requestIDs k (initRequestIDs m) ! i = requestIDs k' (initRequestIDs m') ! j \<longleftrightarrow> m = m' \<and> i = j) \<and>
    (FormatUint (unat (requestIDs k (initRequestIDs m) ! i)) = FormatUint (unat (requestIDs k' (initRequestIDs m') ! j))
      \<longleftrightarrow> m = m' \<and> i = j)"
proof -
  have u: "unat (requestIDs k (initRequestIDs m) ! i) = m * 2 ^ 48 + Suc i"
    "unat (requestIDs k' (initRequestIDs m') ! j) = m' * 2 ^ 48 + Suc j"
    unfolding requestIDs_nth [OF assms(5)] requestIDs_nth [OF assms(6)]
    using assms by (intro unat_requestID; simp)+
  have eq: "m * 2 ^ 48 + Suc i = m' * 2 ^ 48 + Suc j \<longleftrightarrow> m = m' \<and> i = j"
    using assms mult_add_cancel [of "Suc i" "2 ^ 48" "Suc j" m m'] by simp
  have "x = y \<longleftrightarrow> unat x = unat y" for x y :: uint64 by (metis unsigned_word_eqI)
  then show ?thesis unfolding FormatUint_inj u eq by (metis u eq)
qed

section \<open>The generated load\<close>

lemma normalize_bounds:
  assumes "normalize cfg = Inr cfg'"
  shows "0 < sint (uidMin cfg')" "sint (uidMin cfg') \<le> sint (uidMax cfg')" "0 < sint (drainWindow cfg')"
    "concurrency cfg' = concurrency cfg" "tpsTarget cfg' = tpsTarget cfg"
  using assms by (auto simp: normalize_def Let_def Second_def split: if_splits)

lemma sint_span:
  fixes a b :: int64
  assumes "0 < sint a" "sint a \<le> sint b"
  shows "sint (b - a + 1) = sint b - sint a + 1"
proof -
  have "sint (b - a) = sint b - sint a"
    using assms sint64_bounds [of a] sint64_bounds [of b] by (simp add: sint_word_ariths signed_take_bit_int_eq_self)
  then show ?thesis using assms sint64_bounds [of b] sint_inc_exact [of "b - a"] by simp
qed

text \<open>A tick draws a user of the range and never panics.\<close>

lemma generatorTick_ok:
  assumes "0 < sint (uidMin cfg)" "sint (uidMin cfg) \<le> sint (uidMax cfg)"
  shows "\<exists>uid. generatorTick cfg draw g = Some (stressEnvelope uid (g + 1), g + 1) \<and>
    sint (uidMin cfg) \<le> sint uid \<and> sint uid \<le> sint (uidMax cfg)"
proof -
  let ?n = "uidMax cfg - uidMin cfg + 1" let ?d = "of_nat (draw mod unat ?n) :: int64"
  have n: "sint ?n = sint (uidMax cfg) - sint (uidMin cfg) + 1" by (rule sint_span [OF assms])
  then have un: "int (unat ?n) = sint (uidMax cfg) - sint (uidMin cfg) + 1" using assms unat_sint_pos [of ?n] by linarith
  then have d: "draw mod unat ?n < unat ?n" using assms by (intro mod_less_divisor) linarith
  then have lt: "int (draw mod unat ?n) \<le> sint (uidMax cfg) - sint (uidMin cfg)" using un by linarith
  have "draw mod unat ?n < 2 ^ 63" using lt sint64_bounds [of "uidMax cfg"] assms by (simp add: zless_nat_conj)
  then have sd: "sint ?d = int (draw mod unat ?n)" by (rule sint_of_nat64)
  have "sint (uidMin cfg + ?d) = sint (uidMin cfg) + sint ?d"
    using lt assms sd sint64_bounds [of "uidMax cfg"] by (intro sint_add_exact) auto
  then show ?thesis using sd lt n assms by (auto simp: generatorTick_def nextRequestID_def Int63n_def)
qed

lemma generate_ok:
  assumes "0 < sint (uidMin cfg)" "sint (uidMin cfg) \<le> sint (uidMax cfg)"
  shows "\<exists>uids. length uids = length draws \<and> (\<forall>u \<in> set uids. sint (uidMin cfg) \<le> sint u \<and> sint u \<le> sint (uidMax cfg)) \<and>
    generate cfg draws g = Some (map2 stressEnvelope uids (requestIDs (length draws) g), g + of_nat (length draws))"
proof (induction draws arbitrary: g)
  case (Cons draw draws)
  obtain uid where u: "generatorTick cfg draw g = Some (stressEnvelope uid (g + 1), g + 1)"
    "sint (uidMin cfg) \<le> sint uid" "sint uid \<le> sint (uidMax cfg)"
    using generatorTick_ok [OF assms] by blast
  obtain uids where "length uids = length draws" "\<forall>u \<in> set uids. sint (uidMin cfg) \<le> sint u \<and> sint u \<le> sint (uidMax cfg)"
    "generate cfg draws (g + 1) = Some (map2 stressEnvelope uids (requestIDs (length draws) (g + 1)), g + 1 + of_nat (length draws))"
    using Cons.IH [of "g + 1"] by blast
  with u show ?case by (intro exI [of _ "uid # uids"]) (simp add: nextRequestID_def)
qed simp

lemma pacing_pos: "0 < sint (pacing cfg)"
  by (simp add: pacing_def Let_def)

text \<open>
  An accepted configuration generates load without a panic: every tick yields one envelope, the
  users lie in the configured range, the request identifiers are those of the generator in order,
  and the pause between ticks is positive.
\<close>

theorem stress_load_in_range:
  assumes "normalize cfg = Inr cfg'" and "0 < sint (concurrency cfg)" "0 < sint (tpsTarget cfg)"
  shows "\<exists>uids. length uids = length draws \<and>
    list_all (\<lambda>u. 0 < sint u \<and> sint (uidMin cfg') \<le> sint u \<and> sint u \<le> sint (uidMax cfg')) uids \<and>
    runStressGenerators cfg' draws g =
      Some (map2 stressEnvelope uids (requestIDs (length draws) g), g + of_nat (length draws)) \<and>
    0 < sint (pacing cfg') \<and> 0 < sint (drainWindow cfg')"
proof -
  note b = normalize_bounds [OF assms(1)]
  obtain uids where u: "length uids = length draws" "\<forall>u \<in> set uids. sint (uidMin cfg') \<le> sint u \<and> sint u \<le> sint (uidMax cfg')"
    "generate cfg' draws g = Some (map2 stressEnvelope uids (requestIDs (length draws) g), g + of_nat (length draws))"
    using generate_ok [OF b(1,2)] by blast
  have "list_all (\<lambda>u. 0 < sint u \<and> sint (uidMin cfg') \<le> sint u \<and> sint u \<le> sint (uidMax cfg')) uids"
    unfolding list_all_iff using u(2) b(1) by (meson less_le_trans)
  then show ?thesis using u(1,3) b assms pacing_pos by (intro exI [of _ uids]) (simp add: runStressGenerators_def)
qed

definition demoConfig :: stressConfig where
  "demoConfig = \<lparr>cc_etcdEndpoints = [], cc_nodePrefix = [], cc_batchSize = 0, cc_flushDelay = 0, tpsTarget = 10,
     concurrency = 2, duration = Second, drainWindow = 0, uidMin = 0, uidMax = 0\<rparr>"

theorem stress_load_in_range_witness:
  "\<exists>uids. length uids = 2 \<and>
     runStressGenerators (demoConfig\<lparr>drainWindow := 60 * Second, uidMin := 1, uidMax := 100\<rparr>) [3, 205] 0 =
       Some (map2 stressEnvelope uids (requestIDs 2 0), 2)"
  using stress_load_in_range [of demoConfig "demoConfig\<lparr>drainWindow := 60 * Second, uidMin := 1, uidMax := 100\<rparr>" "[3, 205]" 0]
  by (auto simp: normalize_def demoConfig_def Let_def numeral_2_eq_2)

section \<open>Draining\<close>

text \<open>The loop returns by the deadline, and says that it drained exactly when it saw no request in flight before.\<close>

lemma drain_returns:
  "\<exists>sent success errs. (sent, success, errs, True) \<in> set obs \<Longrightarrow> drainInFlight obs \<noteq> None"
  by (induction obs rule: drainInFlight.induct) (auto simp: Let_def)

lemma drain_complete:
  "drainInFlight obs = Some (True, n) \<Longrightarrow>
     n = 0 \<and> (\<exists>sent success errs late. (sent, success, errs, late) \<in> set obs \<and> sent \<le> success + errs)"
  by (induction obs rule: drainInFlight.induct) (auto simp: Let_def split: if_splits)

lemma drain_incomplete:
  "drainInFlight obs = Some (False, n) \<Longrightarrow>
     \<exists>sent success errs. (sent, success, errs, True) \<in> set obs \<and> success + errs < sent \<and> n = sent - (success + errs)"
  by (induction obs rule: drainInFlight.induct) (auto simp: Let_def not_le split: if_splits)

section \<open>Differences\<close>

text \<open>The reports of one reporter add up to the counters.\<close>

fun reports :: "(Metrics \<times> uint64) list \<Rightarrow> last_seen \<Rightarrow> tick list" where
  "reports [] l = []"
| "reports ((m, p) # ms) l = (case reporterTick m p l of (t, l') \<Rightarrow> t # reports ms l')"

lemma reports_telescope:
  "ms \<noteq> [] \<Longrightarrow> sum_list (map t_sentTPS (reports ms l)) = reqSent (fst (last ms)) - lastSent l"
  by (induction ms l rule: reports.induct) (auto simp: reporterTick_def Let_def)

text \<open>
  After a reset, the status shows what the counters have gained since: nothing at once, and
  exactly the increase of every total and of every error class as long as the counters have not
  wrapped around.
\<close>

lemma status_since_reset:
  assumes "reqSent m \<le> reqSent m'" "respRecv m \<le> respRecv m'" "errCount m \<le> errCount m'"
  shows "let s = Status m' (ResetMetrics m e) in
    TotalSent s = reqSent m' - reqSent m \<and> TotalSuccess s = respRecv m' - respRecv m \<and>
    TotalErrors s = errCount m' - errCount m \<and> CurrentTPS s = 0 \<and> IsRunning s = se_running e \<and>
    (\<forall>k v. ErrorBreakdown s k = Some v \<longleftrightarrow>
      (let old = (case errBreakdown m k of None \<Rightarrow> 0 | Some x \<Rightarrow> x) in old < old + v \<and> errBreakdown m' k = Some (old + v))) \<and>
    (m' = m \<longrightarrow> AvgLatencyMS s = 0 \<and> ErrorBreakdown s = Map.empty)"
  using assms
  by (auto simp: Status_def ResetMetrics_def subtractWithFloor_def diffAvgLatency_def diffErrorBreakdown_def ErrorBreakdownMap_def
      Let_def not_less not_le fun_eq_iff split: option.splits if_splits)

section \<open>The engine\<close>

fun active :: "run_pc \<Rightarrow> bool" where
  "active RunClose = False"
| "active RunOver = False"
| "active _ = True"

fun stopRefs :: "estop_pc \<Rightarrow> nat set" where
  "stopRefs StopIdle = {}"
| "stopRefs (StopTaken a b) = set_option a \<union> set_option b"
| "stopRefs (StopWait b) = set_option b"
| "stopRefs (StopReturned b) = set_option b"

definition eng_ok :: "StressEngine \<Rightarrow> bool" where
  "eng_ok e \<longleftrightarrow> (\<forall>i < length (se_runs e). active (run_pc (se_runs e ! i)) \<longleftrightarrow> se_running e \<and> Suc i = length (se_runs e)) \<and>
     (se_running e \<longrightarrow> se_runs e \<noteq> []) \<and>
     (\<forall>i < length (se_runs e). run_done (se_runs e ! i) \<longrightarrow> run_pc (se_runs e ! i) = RunOver) \<and>
     (\<forall>i \<in> set_option (se_cancel e) \<union> set_option (se_done e). i < length (se_runs e)) \<and>
     (\<forall>t. \<forall>i \<in> stopRefs (se_stops e t). i < length (se_runs e)) \<and>
     (\<forall>t i. se_stops e t = StopReturned (Some i) \<longrightarrow> run_pc (se_runs e ! i) = RunOver)"

lemma eng_okD:
  assumes "eng_ok e"
  shows "i < length (se_runs e) \<Longrightarrow> active (run_pc (se_runs e ! i)) \<longleftrightarrow> se_running e \<and> Suc i = length (se_runs e)"
    "se_running e \<Longrightarrow> se_runs e \<noteq> []"
    "i < length (se_runs e) \<Longrightarrow> run_done (se_runs e ! i) \<Longrightarrow> run_pc (se_runs e ! i) = RunOver"
    "se_cancel e = Some i \<Longrightarrow> i < length (se_runs e)" "se_done e = Some i \<Longrightarrow> i < length (se_runs e)"
    "i \<in> stopRefs (se_stops e t) \<Longrightarrow> i < length (se_runs e)"
    "se_stops e t = StopReturned (Some i) \<Longrightarrow> run_pc (se_runs e ! i) = RunOver"
  using assms by (auto simp: eng_ok_def)

lemma eng_okI:
  assumes "\<And>i. i < length (se_runs e) \<Longrightarrow> active (run_pc (se_runs e ! i)) \<longleftrightarrow> se_running e \<and> Suc i = length (se_runs e)"
    "se_running e \<Longrightarrow> se_runs e \<noteq> []"
    "\<And>i. i < length (se_runs e) \<Longrightarrow> run_done (se_runs e ! i) \<Longrightarrow> run_pc (se_runs e ! i) = RunOver"
    "\<And>i. se_cancel e = Some i \<Longrightarrow> i < length (se_runs e)" "\<And>i. se_done e = Some i \<Longrightarrow> i < length (se_runs e)"
    "\<And>t i. i \<in> stopRefs (se_stops e t) \<Longrightarrow> i < length (se_runs e)"
    "\<And>t i. se_stops e t = StopReturned (Some i) \<Longrightarrow> run_pc (se_runs e ! i) = RunOver"
  shows "eng_ok e"
  using assms by (simp add: eng_ok_def) blast

lemma Start_ok:
  assumes "eng_ok e"
  shows "eng_ok (snd (StressEngine_Start cfg e))"
proof (cases "se_running e \<or> isl (normalize cfg)")
  case True
  then show ?thesis using assms by (auto simp: StressEngine_Start_def split: sum.splits)
next
  case False
  then obtain cfg' where n: "normalize cfg = Inr cfg'" by (cases "normalize cfg") auto
  define e' where "e' = snd (StressEngine_Start cfg e)"
  have e': "se_runs e' = se_runs e @ [newRun cfg']" "se_running e'" "se_cancel e' = Some (length (se_runs e))"
    "se_done e' = Some (length (se_runs e))" "se_stops e' = se_stops e"
    using False by (simp_all add: e'_def StressEngine_Start_def n Let_def)
  note d = eng_okD [OF assms]
  have refs: "i < length (se_runs e)" if "se_stops e t = StopReturned (Some i)" for t i using d(6) [of i t] that by simp
  have "eng_ok e'"
  proof (rule eng_okI)
    fix i assume "i < length (se_runs e')"
    then show "active (run_pc (se_runs e' ! i)) \<longleftrightarrow> se_running e' \<and> Suc i = length (se_runs e')"
      using d(1) [of i] False by (auto simp: e' nth_append newRun_def less_Suc_eq)
    show "run_done (se_runs e' ! i) \<Longrightarrow> run_pc (se_runs e' ! i) = RunOver"
      using d(3) [of i] \<open>i < length (se_runs e')\<close> by (auto simp: e' nth_append newRun_def less_Suc_eq)
  next
    fix t i assume "se_stops e' t = StopReturned (Some i)"
    then show "run_pc (se_runs e' ! i) = RunOver" using refs [of t i] d(7) [of t i] by (simp add: e' nth_append)
  qed (use d(6) in \<open>auto simp: e' less_Suc_eq\<close>)
  then show ?thesis by (simp add: e'_def)
qed

text \<open>A change of one run that keeps what the engine knows about it.\<close>

lemma setRun_ok:
  assumes "eng_ok e" and "i < length (se_runs e)"
    and "active (run_pc x) \<longleftrightarrow> active (run_pc (se_runs e ! i))" and "run_done x \<Longrightarrow> run_pc x = RunOver"
    and "run_pc (se_runs e ! i) = RunOver \<Longrightarrow> run_pc x = RunOver"
  shows "eng_ok (setRun i x e)"
  using eng_okD [OF assms(1)] assms(2-)
  by (intro eng_okI) (auto simp: setRun_def nth_list_update split: if_splits)

lemma eng_ok_tps [simp]: "eng_ok (e\<lparr>se_currentTPS := x\<rparr>) = eng_ok e" "eng_ok (e\<lparr>se_baseline := b\<rparr>) = eng_ok e"
  by (simp_all add: eng_ok_def)

text \<open>Clearing the flag belongs to the only active run.\<close>

lemma clear_flag_ok:
  assumes "eng_ok e" and "i < length (se_runs e)" and "run_pc (se_runs e ! i) = RunClearFlag"
  shows "eng_ok ((setRun i ((se_runs e ! i)\<lparr>run_pc := RunClose\<rparr>) e)\<lparr>se_running := False\<rparr>)"
proof -
  note d = eng_okD [OF assms(1)]
  have last: "Suc i = length (se_runs e)" using d(1) [OF assms(2)] assms(3) by simp
  show ?thesis
  proof (rule eng_okI, goal_cases)
    case (1 j)
    then show ?case using d(1) [of j] last assms(2) by (auto simp: setRun_def nth_list_update)
  next
    case (3 j)
    then show ?case using d(3) [of j] assms by (auto simp: setRun_def nth_list_update split: if_splits)
  next
    case (7 t j)
    then show ?case using d(7) [of t j] assms(3) by (cases "i = j") (auto simp: setRun_def)
  qed (use d(4,5,6) in \<open>auto simp: setRun_def\<close>)
qed

lemma run_step_ok:
  assumes "eng_ok e" and "i < length (se_runs e)" and "run_step expired obs i e = Some e'"
  shows "eng_ok e'"
proof (cases "run_pc (se_runs e ! i)")
  case RunClearFlag
  then show ?thesis using clear_flag_ok [OF assms(1,2)] assms(3) by (auto simp: run_step_def Let_def)
qed (use assms eng_okD(3) [OF assms(1,2)] in
    \<open>auto simp: run_step_def Let_def split: if_splits option.splits intro!: setRun_ok\<close>)

lemma reporter_ok:
  assumes "eng_ok e" and "i < length (se_runs e)" and "reporter_step quit m pend i e = Some e'"
  shows "eng_ok e'"
  using assms eng_okD(3) [OF assms(1,2)]
  by (auto simp: reporter_step_def Let_def split: if_splits option.splits prod.splits intro!: setRun_ok)

lemma eng_ok_stops:
  assumes "eng_ok e" and "\<And>i. i \<in> stopRefs pc \<Longrightarrow> i < length (se_runs e)"
    and "\<And>i. pc = StopReturned (Some i) \<Longrightarrow> run_pc (se_runs e ! i) = RunOver"
  shows "eng_ok (e\<lparr>se_stops := (se_stops e)(t := pc)\<rparr>)"
  using eng_okD [OF assms(1)] assms(2,3) by (intro eng_okI) (auto split: if_splits)

lemma eng_ok_take: "eng_ok e \<Longrightarrow> eng_ok (e\<lparr>se_cancel := None, se_done := None\<rparr>)"
  using eng_okD [of e] by (intro eng_okI) auto

lemma Stop_ok:
  assumes "eng_ok e" and "StressEngine_Stop t e = Some e'"
  shows "eng_ok e'"
proof (cases "se_stops e t")
  case StopIdle
  have "eng_ok ((e\<lparr>se_cancel := None, se_done := None\<rparr>)\<lparr>se_stops := (se_stops (e\<lparr>se_cancel := None, se_done := None\<rparr>))
      (t := StopTaken (se_cancel e) (se_done e))\<rparr>)"
    by (rule eng_ok_stops [OF eng_ok_take [OF assms(1)]]) (use eng_okD(4,5) [OF assms(1)] in auto)
  then show ?thesis using assms(2) StopIdle by (auto simp: StressEngine_Stop_def)
next
  case (StopTaken cancel done_ch)
  define e1 where "e1 = (case cancel of None \<Rightarrow> e | Some i \<Rightarrow> setRun i ((se_runs e ! i)\<lparr>run_cancelled := True\<rparr>) e)"
  have sel: "se_stops e1 = se_stops e" "length (se_runs e1) = length (se_runs e)"
    by (simp_all add: e1_def setRun_def split: option.split)
  have "eng_ok e1"
    using assms(1) StopTaken eng_okD(3) [OF assms(1)] eng_okD(6) [OF assms(1), of _ t] by (auto simp: e1_def split: option.split intro!: setRun_ok)
  then have "eng_ok (e1\<lparr>se_stops := (se_stops e1)(t := StopWait done_ch)\<rparr>)"
    by (rule eng_ok_stops) (use eng_okD(6) [OF assms(1), of _ t] StopTaken sel in auto)
  then show ?thesis using assms(2) StopTaken sel by (simp add: StressEngine_Stop_def e1_def)
next
  case (StopWait done_ch)
  have "eng_ok (e\<lparr>se_stops := (se_stops e)(t := StopReturned done_ch)\<rparr>)"
    if "case done_ch of None \<Rightarrow> True | Some i \<Rightarrow> run_done (se_runs e ! i)"
    by (rule eng_ok_stops [OF assms(1)])
      (use that eng_okD(6) [OF assms(1), of _ t] eng_okD(3) [OF assms(1)] StopWait in auto)
  then show ?thesis using assms(2) StopWait by (auto simp: StressEngine_Stop_def split: if_splits)
qed (use assms in \<open>simp add: StressEngine_Stop_def\<close>)

theorem eng_ok_run: "erun e e' \<Longrightarrow> eng_ok e \<Longrightarrow> eng_ok e'"
proof (induction rule: erun.induct)
  case (erun_step e e' e'')
  from erun_step(2) erun_step(3) [OF erun_step(4)] show ?case
    by (cases rule: estep.cases) (auto intro: Start_ok run_step_ok reporter_ok Stop_ok simp: ResetMetrics_def)
qed

lemma New_ok: "eng_ok NewStressEngine"
  by (simp add: eng_ok_def NewStressEngine_def)

text \<open>
  C31: At most one stress run is active, and exactly while the engine says that it is running;
  starting another is then refused. When \<^verbatim>\<open>Stop\<close> has returned from waiting for a run, that run is
  over.
\<close>

theorem one_stress_run:
  assumes "erun NewStressEngine e"
  shows "(i < length (se_runs e) \<and> j < length (se_runs e) \<and> active (run_pc (se_runs e ! i)) \<and>
      active (run_pc (se_runs e ! j)) \<longrightarrow> i = j) \<and>
    (se_running e \<longleftrightarrow> (\<exists>x \<in> set (se_runs e). active (run_pc x))) \<and>
    ((\<exists>x \<in> set (se_runs e). active (run_pc x)) \<longrightarrow> StressEngine_Start cfg e = (Some errAlreadyRunning, e)) \<and>
    (se_stops e t = StopReturned (Some i) \<longrightarrow> run_pc (se_runs e ! i) = RunOver)"
proof -
  note d = eng_okD [OF eng_ok_run [OF assms New_ok]]
  have run: "se_running e \<longleftrightarrow> (\<exists>x \<in> set (se_runs e). active (run_pc x))"
  proof
    assume r: "se_running e"
    then have "length (se_runs e) - 1 < length (se_runs e)" using d(2) by simp
    then show "\<exists>x \<in> set (se_runs e). active (run_pc x)" using d(1) r by (metis Suc_pred' gr_implies_not0 neq0_conv nth_mem)
  next
    assume "\<exists>x \<in> set (se_runs e). active (run_pc x)"
    then show "se_running e" using d(1) by (metis in_set_conv_nth)
  qed
  moreover have "i < length (se_runs e) \<and> j < length (se_runs e) \<and> active (run_pc (se_runs e ! i)) \<and>
      active (run_pc (se_runs e ! j)) \<longrightarrow> i = j" using d(1) [of i] d(1) [of j] by auto
  ultimately show ?thesis using d(7) [of t i] by (auto simp: StressEngine_Start_def)
qed

text \<open>A run that is stopped while it generates.\<close>

definition demoEngine :: StressEngine where
  "demoEngine = snd (StressEngine_Start demoConfig NewStressEngine)"

lemma demoEngine_runs:
  "erun NewStressEngine demoEngine" "se_runs demoEngine = [newRun (demoConfig\<lparr>drainWindow := 60 * Second, uidMin := 1, uidMax := 100\<rparr>)]"
proof -
  show "erun NewStressEngine demoEngine" unfolding demoEngine_def using erun_step [OF erun_refl e_start] .
qed (simp add: demoEngine_def StressEngine_Start_def normalize_def NewStressEngine_def demoConfig_def Let_def)

theorem one_stress_run_witness: "StressEngine_Start demoConfig demoEngine = (Some errAlreadyRunning, demoEngine)"
  using one_stress_run [OF demoEngine_runs(1), of 0 0 demoConfig] demoEngine_runs(2) by (simp add: newRun_def)

section \<open>What the engine does not do\<close>

text \<open>Starting a run discards an earlier reset: the totals are those since the process started.\<close>

lemma start_discards_reset:
  assumes "StressEngine_Start cfg (ResetMetrics m e) = (None, e')"
  shows "TotalSent (Status m' e') = reqSent m'" "TotalSuccess (Status m' e') = respRecv m'"
    "TotalErrors (Status m' e') = errCount m'"
  using assms by (auto simp: StressEngine_Start_def Status_def zeroBaseline_def subtractWithFloor_def Let_def split: if_splits sum.splits)

text \<open>The first report of a run counts every envelope since the process started, not those of one second.\<close>

lemma first_report_is_total: "t_sentTPS (fst (reporterTick m pend reporterStart)) = reqSent m"
  by (simp add: reporterTick_def reporterStart_def Let_def)

text \<open>
  A failed lookup counts as a handled request although nothing was sent: with one request on the
  wire and one failed lookup, draining reports success at once.
\<close>

lemma drain_ignores_unsent: "drainInFlight [(reqSent m, respRecv m, errCount m, False)] = Some (True, 0)"
  if "m = countError ErrDiscovery (zeroMetrics\<lparr>reqSent := 1\<rparr>)" for m
  using that by (simp add: countError_def RecordError_def zeroMetrics_def Let_def)

end
