(* ===== verification/Http.thy ===== *)
theory Http
  imports Numerals
begin

text \<open>The part of \<^verbatim>\<open>net/http\<close> that the gateway and the node use: a response with its status, type and body.\<close>

datatype 'v body = Text string | Value 'v

record 'v response =
  rs_status :: nat
  rs_contentType :: string
  rs_body :: "'v body"

text \<open>\<^verbatim>\<open>http.Error\<close> ends the text with a line break.\<close>

definition httpError :: "string \<Rightarrow> nat \<Rightarrow> 'v response" where
  "httpError msg code = \<lparr>rs_status = code, rs_contentType = ''text/plain; charset=utf-8'', rs_body = Text (msg @ ''\<newline>'')\<rparr>"

definition methodNotAllowed :: "'v response" where
  "methodNotAllowed = httpError ''method not allowed'' 405"

end
