(* ===== verification/Gateway.thy ===== *)
theory Gateway
  imports StressRuns Http Reconciliation
begin

text \<open>
  \<^verbatim>\<open>cmd/client/serve.go\<close>: the HTTP gateway. A request body is given by what decoding it yields,
  \<^term>\<open>None\<close> for an error; a JSON response by its fields. What happens between the two engine calls
  of a handler is an argument, as is the outcome of \<^verbatim>\<open>ExecuteAndWait\<close>. The embedded page is not
  modelled.
\<close>

section \<open>Requests and responses\<close>

record executeRequest =
  er_UID :: int64
  er_Amount :: int64

record stressRequest =
  sr_TPSTarget :: int64
  sr_Concurrency :: int64
  sr_DurationSec :: int64
  sr_DrainWindowSec :: int64
  sr_UIDMin :: int64
  sr_UIDMax :: int64

datatype json = JBool bool | JString string | JInt int | JStatus stressStatus

datatype content = Json "(string \<times> json) list" | JsonStatus stressStatus | Page

type_synonym reply = "content response"

definition writeJSON :: "nat \<Rightarrow> content \<Rightarrow> reply" where
  "writeJSON status v = \<lparr>rs_status = status, rs_contentType = ''application/json'', rs_body = Value v\<rparr>"

definition writeHTML :: reply where
  "writeHTML = \<lparr>rs_status = 200, rs_contentType = ''text/html; charset=utf-8'', rs_body = Value Page\<rparr>"

section \<open>Routing\<close>

datatype endpoint = Index | StressStart | StressStop | StressStatus | StressReset | Execute | Balance | Health | Redirect string

text \<open>
  The patterns of \<^verbatim>\<open>http.ServeMux\<close>, for a path without empty or dot elements: one ends in a slash and
  matches by prefix, and a request that lacks only that slash is redirected; the root matches the rest.
\<close>

definition serveMux :: "string \<Rightarrow> endpoint" where
  "serveMux path =
     (if path = ''/api/stress/start'' then StressStart
      else if path = ''/api/stress/stop'' then StressStop
      else if path = ''/api/stress/status'' then StressStatus
      else if path = ''/api/stress/reset'' then StressReset
      else if path = ''/api/wallet/execute'' then Execute
      else if HasPrefix path ''/api/wallet/balance/'' then Balance
      else if path = ''/api/wallet/balance'' then Redirect ''/api/wallet/balance/''
      else if path = ''/healthz'' then Health
      else Index)"

section \<open>Handlers\<close>

definition handleIndex :: "string \<Rightarrow> reply" where
  "handleIndex method = (if method \<noteq> ''GET'' then methodNotAllowed else writeHTML)"

definition handleHealth :: "string \<Rightarrow> reply" where
  "handleHealth method = (if method \<noteq> ''GET'' then methodNotAllowed else writeJSON 200 (Json [(''status'', JString ''ok'')]))"

text \<open>The configuration that a stress request stands for; the embedded client configuration stays zero.\<close>

definition stressConfigOf :: "stressRequest \<Rightarrow> stressConfig" where
  "stressConfigOf req = \<lparr>cc_etcdEndpoints = [], cc_nodePrefix = [], cc_batchSize = 0, cc_flushDelay = 0,
     tpsTarget = sr_TPSTarget req, concurrency = sr_Concurrency req, duration = sr_DurationSec req * Second,
     drainWindow = sr_DrainWindowSec req * Second, uidMin = sr_UIDMin req, uidMax = sr_UIDMax req\<rparr>"

text \<open>\<^term>\<open>later\<close> is what has become of the engine when \<^verbatim>\<open>Status\<close> is called.\<close>

definition handleStressStart ::
    "string \<Rightarrow> stressRequest option \<Rightarrow> Metrics \<Rightarrow> (StressEngine \<Rightarrow> StressEngine) \<Rightarrow> StressEngine \<Rightarrow> reply \<times> StressEngine" where
  "handleStressStart method decoded m later e =
     (if method \<noteq> ''POST'' then (methodNotAllowed, e)
      else case decoded of None \<Rightarrow> (httpError ''invalid json body'' 400, e)
      | Some req \<Rightarrow>
          if sint (sr_TPSTarget req) \<le> 0 \<or> sint (sr_Concurrency req) \<le> 0 \<or> sint (sr_DurationSec req) \<le> 0
          then (httpError ''tps_target, concurrency, duration_sec must be > 0'' 400, e)
          else (case StressEngine_Start (stressConfigOf req) e of
              (Some err, e') \<Rightarrow> (if err = errAlreadyRunning then httpError err 409 else httpError err 500, e')
            | (None, e') \<Rightarrow> (writeJSON 200 (Json [(''started'', JBool True), (''status'', JStatus (Status m (later e')))]), later e')))"

text \<open>\<^term>\<open>stopped\<close> is the engine when \<^verbatim>\<open>Stop\<close> has returned.\<close>

definition handleStressStop :: "string \<Rightarrow> Metrics \<Rightarrow> StressEngine \<Rightarrow> reply" where
  "handleStressStop method m stopped = (if method \<noteq> ''POST'' then methodNotAllowed
     else writeJSON 200 (Json [(''stopped'', JBool True), (''status'', JStatus (Status m stopped))]))"

definition handleStressStatus :: "string \<Rightarrow> Metrics \<Rightarrow> StressEngine \<Rightarrow> reply" where
  "handleStressStatus method m e = (if method \<noteq> ''GET'' then methodNotAllowed
     else writeJSON 200 (JsonStatus (Status m e)))"

definition handleStressReset :: "string \<Rightarrow> Metrics \<Rightarrow> Metrics \<Rightarrow> StressEngine \<Rightarrow> reply \<times> StressEngine" where
  "handleStressReset method m m' e = (if method \<noteq> ''POST'' then (methodNotAllowed, e)
     else (let e' = ResetMetrics m e in
       (writeJSON 200 (Json [(''reset'', JBool True), (''status'', JStatus (Status m' e'))]), e')))"

definition mapErrorToHTTPStatus :: "string \<Rightarrow> nat" where
  "mapErrorToHTTPStatus errCode =
     (if errCode = ErrDeadlineExceeded then 504
      else if errCode \<in> {ErrInsufficientFunds, ErrInvalidPayload} then 400
      else if errCode \<in> {ErrWrongNode, ErrDiscovery, ErrConnection, ErrTransportClosed, ErrStreamInterrupted, ErrNodeOverloaded}
      then 503
      else 500)"

definition executeEnvelope :: "executeRequest \<Rightarrow> uint64 \<Rightarrow> RemoteEnvelope" where
  "executeEnvelope req rid = \<lparr>env_TenantId = 1, env_Uid = er_UID req, env_TxId = FormatUint (unat rid),
     env_RequestId = rid, env_OpCode = 1, env_Payload = BigEndian_PutUint64 (er_Amount req), env_DeadlineUnixMs = 0\<rparr>"

definition executeResponse :: "executeRequest \<Rightarrow> uint64 \<Rightarrow> RemoteResult \<Rightarrow> reply" where
  "executeResponse req rid res =
     writeJSON (if res_Success res then 200 else mapErrorToHTTPStatus (res_ErrorCode res))
       (Json ([(''success'', JBool (res_Success res)), (''request_id'', JString (FormatUint (unat rid))),
         (''uid'', JInt (sint (er_UID req))), (''amount'', JInt (sint (er_Amount req))),
         (''error_code'', JString (res_ErrorCode res)), (''error_msg'', JString (res_ErrorMsg res))] @
        (if 8 \<le> length (res_Payload res) then [(''balance'', JInt (sint (BigEndian_Uint64 (res_Payload res) :: int64)))] else [])))"

text \<open>\<^verbatim>\<open>wait\<close> is the outcome of \<^verbatim>\<open>ExecuteAndWait\<close>; the last result is the envelope given to it.\<close>

definition handleExecute ::
    "string \<Rightarrow> executeRequest option \<Rightarrow> (RemoteEnvelope \<Rightarrow> RemoteResult) \<Rightarrow> uint64
      \<Rightarrow> reply \<times> uint64 \<times> RemoteEnvelope option" where
  "handleExecute method decoded wait g =
     (if method \<noteq> ''POST'' then (methodNotAllowed, g, None)
      else case decoded of None \<Rightarrow> (httpError ''invalid json body'' 400, g, None)
      | Some req \<Rightarrow>
          if sint (er_UID req) \<le> 0 then (httpError ''uid must be > 0'' 400, g, None)
          else (case nextRequestID g of (rid, g') \<Rightarrow>
            (let env = executeEnvelope req rid in (executeResponse req rid (wait env), g', Some env))))"

fun scanVersionDeltas :: "val list list \<Rightarrow> int64 \<times> int64 \<Rightarrow> int64 \<times> int64" where
  "scanVersionDeltas ([VInt64 version, VInt64 delta] # rows) (balance, finalVersion) =
     scanVersionDeltas rows (balance + delta, version)"
| "scanVersionDeltas _ acc = acc"

definition computeBalance :: "'st Store \<Rightarrow> 'st \<Rightarrow> int32 \<Rightarrow> int64 \<Rightarrow> string + int64 \<times> int64" where
  "computeBalance S st tenantID uid =
     (case StoreQuery S st snapCQL [VInt32 tenantID, VInt64 uid] (\<lambda>rows. (scanSnapshot rows (0, 0), None)) of
        (_, Some err) \<Rightarrow> Inl (''load snapshot failed: '' @ err)
      | ((snapshotBalance, lastVersion), None) \<Rightarrow>
          (case StoreQuery S st versionDeltaCQL [VInt32 tenantID, VInt64 uid, VInt64 lastVersion]
                  (\<lambda>rows. (scanVersionDeltas rows (snapshotBalance, lastVersion), None)) of
             (_, Some err) \<Rightarrow> Inl (''load events failed: '' @ err)
           | ((balance, finalVersion), None) \<Rightarrow> Inr (balance, finalVersion)))"

definition handleBalance :: "'st Store \<Rightarrow> 'st \<Rightarrow> string \<Rightarrow> string \<Rightarrow> reply" where
  "handleBalance S st method path =
     (if method \<noteq> ''GET'' then methodNotAllowed
      else case ParseInt (TrimPrefix path ''/api/wallet/balance/'') of
        None \<Rightarrow> httpError ''invalid uid'' 400
      | Some uid \<Rightarrow>
          if sint uid \<le> 0 then httpError ''invalid uid'' 400
          else (case computeBalance S st 1 uid of
              Inl err \<Rightarrow> httpError err 500
            | Inr (balance, lastVersion) \<Rightarrow>
                writeJSON 200 (Json [(''uid'', JInt (sint uid)), (''exact_balance'', JInt (sint balance)),
                  (''last_version'', JInt (sint lastVersion))])))"

section \<open>The balance endpoint\<close>

lemma scanVersionDeltas_rows:
  "scanVersionDeltas (version_delta_rows es) (bal, v) = (bal + deltas es, if es = [] then v else ev_version (last es))"
  by (induction es arbitrary: bal v) (auto simp: version_delta_rows_def algebra_simps)

definition balance_reads :: "'st Store \<Rightarrow> 'st \<Rightarrow> wkey \<Rightarrow> bool" where
  "balance_reads S st k \<longleftrightarrow> reads_ok S st k \<and>
     (\<forall>v. snd (sto_Query S st versionDeltaCQL [VInt32 (fst k), VInt64 (snd k), VInt64 v]) = None)"

lemma chain_last: "chain v es \<Longrightarrow> es \<noteq> [] \<Longrightarrow> ev_version (last es) = v + of_nat (length es)"
  by (induction v es rule: chain.induct) (auto simp: algebra_simps)

context wallet_store
begin

lemma computeBalance_eq:
  assumes "invar st" and "balance_reads S st (t, u)"
  defines "s \<equiv> snap_of (sn st (t, u))"
  defines "es \<equiv> events_after (snd s) (ev st (t, u))"
  shows "computeBalance S st t u = Inr (fst s + deltas es, if es = [] then snd s else ev_version (last es))"
proof -
  obtain r1 where q1: "sto_Query S st snapCQL [VInt32 t, VInt64 u] = (r1, None)"
    using assms(2) unfolding balance_reads_def reads_ok_def by (metis fst_conv prod.collapse snd_conv)
  obtain r2 where q2: "sto_Query S st versionDeltaCQL [VInt32 t, VInt64 u, VInt64 (snd s)] = (r2, None)"
    using assms(2) unfolding balance_reads_def by (metis fst_conv prod.collapse snd_conv)
  have "scanSnapshot r1 (0, 0) = s" using q_snap [OF assms(1), of "(t, u)"] q1 by (simp add: s_def snap_of_def)
  moreover have "r2 = version_delta_rows es" using q_version_delta [OF assms(1), of "(t, u)" "snd s" r2] q2 by (simp add: es_def)
  ultimately show ?thesis
    using q1 q2 by (cases s) (simp add: computeBalance_def StoreQuery_ok scanVersionDeltas_rows)
qed

lemma computeBalance_rehydrate:
  assumes "invar st" and "balance_reads S st (t, u)" and "rehydrate S st (newBusinessActor t u now) = (b, None)"
  shows "computeBalance S st t u = Inr (ba_balance b, ba_version b)"
proof -
  let ?n = "newBusinessActor t u now" and ?s = "snap_of (sn st (t, u))"
  let ?es = "events_after (snd ?s) (ev st (t, u))"
  have k: "(t, u) = (ba_tenantID ?n, ba_uid ?n)" by (simp add: newBusinessActor_def)
  have rd: "reads_ok S st (t, u)" using assms(2) by (simp add: balance_reads_def)
  note r = rehydrate_reads [OF assms(1) rd k]
  have c: "chain (snd ?s) ?es" using r(2) assms(3) by fastforce
  have "b = rehydrated ?n ?s ?es" using r(1) [OF c] assms(3) by simp
  then show ?thesis
    using computeBalance_eq [OF assms(1,2)] chain_last [OF c] by (auto simp: rehydrated_def)
qed

end

text \<open>
  C20: The balance endpoint shows the wallet as the actor sees it: for every positive user number,
  written in decimal in the path, it answers with status 200, that number, and the balance and
  version which an actor has that is rehydrated from the same tables.
\<close>

theorem balance_endpoint_exact:
  assumes "wallet_store S ev sn invar" and "invar st" and "balance_reads S st (1, uid)" and "0 < sint uid"
    and "rehydrate S st (newBusinessActor 1 uid now) = (b, None)"
  shows "handleBalance S st ''GET'' (''/api/wallet/balance/'' @ FormatInt (sint uid)) =
    writeJSON 200 (Json [(''uid'', JInt (sint uid)), (''exact_balance'', JInt (sint (ba_balance b))),
      (''last_version'', JInt (sint (ba_version b)))])"
  using wallet_store.computeBalance_rehydrate [OF assms(1,2,3,5)] assms(4)
  by (simp add: handleBalance_def ParseInt_FormatInt del: append.simps)

theorem balance_endpoint_exact_witness:
  "handleBalance (cassandra_Store mem_session) demo_st ''GET'' ''/api/wallet/balance/7'' =
     writeJSON 200 (Json [(''uid'', JInt 7), (''exact_balance'', JInt 0), (''last_version'', JInt 0)])"
proof -
  have p: "''/api/wallet/balance/'' @ FormatInt (sint (7 :: int64)) = ''/api/wallet/balance/7''"
    by (simp add: FormatInt_def FormatUint.simps digit_char_def char_of_def bit_0)
  have r: "balance_reads (cassandra_Store mem_session) demo_st (1, 7)"
    unfolding balance_reads_def using demo_reads by (simp add: cassandra_Store_def mem_session_def)
  show ?thesis
    using balance_endpoint_exact [OF mem.store.wallet_store_axioms _ r _ demo_rehydrate [of 5]] p
    by (simp add: demo_defs mem_inv_def strictly_sorted_def newBusinessActor_def)
qed

section \<open>The execute endpoint\<close>

lemma mapErrorToHTTPStatus_range: "mapErrorToHTTPStatus c \<in> {400, 500, 503, 504}"
  by (simp add: mapErrorToHTTPStatus_def)

lemma mapErrorToHTTPStatus_not_ok [simp]: "mapErrorToHTTPStatus c \<noteq> 200"
  by (simp add: mapErrorToHTTPStatus_def)

lemma executeResponse_status: "rs_status (executeResponse req rid res) = (if res_Success res then 200 else mapErrorToHTTPStatus (res_ErrorCode res))"
  by (simp add: executeResponse_def writeJSON_def)

lemma execute_accepted:
  "0 < sint (er_UID req) \<Longrightarrow> handleExecute ''POST'' (Some req) wait g =
     (executeResponse req (g + 1) (wait (executeEnvelope req (g + 1))), g + 1, Some (executeEnvelope req (g + 1)))"
  by (simp add: handleExecute_def nextRequestID_def Let_def)

lemma execute_refused:
  assumes "\<nexists>req. method = ''POST'' \<and> decoded = Some req \<and> 0 < sint (er_UID req)"
  shows "\<exists>msg code. handleExecute method decoded wait g = (httpError msg code, g, None) \<and> code \<in> {400, 405}"
  using assms by (auto simp: handleExecute_def methodNotAllowed_def split: option.splits)

text \<open>
  The execute endpoint on every branch. It answers 200 exactly for a decodable \<^verbatim>\<open>POST\<close> with a
  positive user number whose result is a success; refused requests take no request identifier and
  send nothing; an accepted one sends one envelope that carries the next identifier, a transaction
  identifier that determines it, and the amount; a failed result is never answered with 200.
\<close>

lemma execute_status:
  assumes "handleExecute method decoded wait g = (rsp, g', sent)"
  shows "(rs_status rsp = 200 \<longleftrightarrow>
      (\<exists>req. method = ''POST'' \<and> decoded = Some req \<and> 0 < sint (er_UID req) \<and>
        res_Success (wait (executeEnvelope req (g + 1))))) \<and>
    (sent = None \<longrightarrow> g' = g \<and> rs_status rsp \<in> {400, 405}) \<and>
    (\<forall>env. sent = Some env \<longrightarrow> (\<exists>req. decoded = Some req \<and> g' = g + 1 \<and> env_RequestId env = g + 1 \<and>
      ParseUint (env_TxId env) = Some (unat (g + 1)) \<and> env_Uid env = er_UID req \<and>
      BigEndian_Uint64 (env_Payload env) = er_Amount req \<and>
      (\<not> res_Success (wait env) \<longrightarrow> rs_status rsp \<in> {400, 500, 503, 504})))"
proof (cases "\<exists>req. method = ''POST'' \<and> decoded = Some req \<and> 0 < sint (er_UID req)")
  case True
  then obtain req where req: "method = ''POST''" "decoded = Some req" "0 < sint (er_UID req)" by blast
  have r: "rsp = executeResponse req (g + 1) (wait (executeEnvelope req (g + 1)))" "g' = g + 1" "sent = Some (executeEnvelope req (g + 1))"
    using assms execute_accepted [OF req(3), of wait g] by (auto simp: req)
  have "unat (g + 1) < 2 ^ 64" using unsigned_less [of "g + 1"] by simp
  note p = ParseUint_FormatUint [OF this]
  show ?thesis using req p mapErrorToHTTPStatus_range unfolding r by (auto simp: executeResponse_status executeEnvelope_def)
next
  case False
  from execute_refused [OF this, of wait g] assms show ?thesis using False by (auto simp: httpError_def)
qed

end
