(* ===== verification/Commands.thy ===== *)
theory Commands
  imports Gateway ClientStop "HOL-Library.Sublist"
begin

text \<open>
  The client process: \<^verbatim>\<open>cmd/client/main.go\<close>, \<^verbatim>\<open>runStressCommand\<close> of \<^verbatim>\<open>stress.go\<close> and \<^verbatim>\<open>runServeCommand\<close> of
  \<^verbatim>\<open>serve.go\<close>. A command is given by the actions it takes, deferred calls included, and by its result.
  What the world answers is an argument. The part of \<^verbatim>\<open>runServeCommand\<close> that serves requests is a
  system of interleaved steps.
\<close>

section \<open>Subcommands\<close>

datatype command = UsageAndExit | Usage | StressCommand "string list" | ServeCommand "string list" | UnknownSubcommand string

definition client_main :: "string list \<Rightarrow> command" where
  "client_main args = (case args of [] \<Rightarrow> UsageAndExit
     | cmd # rest \<Rightarrow> if cmd = ''stress'' then StressCommand rest
         else if cmd = ''serve'' then ServeCommand rest
         else if cmd \<in> {''-h'', ''--help'', ''help''} then Usage
         else UnknownSubcommand cmd)"

text \<open>The lines of the usage message; \<^term>\<open>prog\<close> is the name of the program.\<close>

definition printUsage :: "string \<Rightarrow> string list" where
  "printUsage prog = [''Usage: '' @ prog @ '' <stress|serve> [flags]'', [], ''Commands:'',
     ''  stress   Run the original CLI load generator'', ''  serve    Start the test web gateway server'']"

section \<open>Actions and the router\<close>

record stressReport =
  rp_cfg :: stressConfig
  rp_generationDuration :: int64
  rp_drainDuration :: int64
  rp_totalCompletionDuration :: int64
  rp_offeredTPS :: real
  rp_completedTPS :: real
  rp_callbackPending :: uint64
  rp_totalSent :: uint64
  rp_totalSuccess :: uint64
  rp_totalErrors :: uint64
  rp_drained :: bool
  rp_abandoned :: uint64
  rp_errorBreakdown :: "string \<rightharpoonup> uint64"

datatype act =
    SignalsCaught | SignalsReleased
  | EtcdOpened "string list" | WatchStarted string | EtcdClosed | StreamersStopped
  | CassandraOpened "string list" string | CassandraClosed
  | StartLogged stressConfig | ReporterStarted | ReporterStopped | RunCancelled
  | Generated "RemoteEnvelope list" | Drained bool uint64 | Reported stressReport

datatype cmdError = FlagFailure flagError | Failure string

text \<open>\<^term>\<open>Waiting\<close>: the command has not returned on what it has observed. \<^term>\<open>Crashed\<close>: a goroutine panicked.\<close>

datatype cmdResult = Succeeded | Failed cmdError | Waiting | Crashed

record world =
  wd_etcd :: "string list \<Rightarrow> string option"
  wd_watch :: "string \<Rightarrow> string option"
  wd_cassandra :: "string list \<Rightarrow> string \<Rightarrow> string option"
  wd_resolver :: "int32 \<Rightarrow> int64 \<Rightarrow> string + string"
  wd_dial :: "string \<Rightarrow> bool"
  wd_ids :: uint64
  wd_draws :: "nat list"
  wd_drain :: "(uint64 \<times> uint64 \<times> uint64 \<times> bool) list"
  wd_generationDuration :: int64
  wd_drainDuration :: int64
  wd_metrics :: Metrics
  wd_callbackPending :: uint64

text \<open>The router or an error, with what was opened. The deferred cleanup stops the streamers and closes etcd.\<close>

definition newRouterFromConfig :: "world \<Rightarrow> 'a clientConfig_scheme \<Rightarrow> (string + Router) \<times> act list" where
  "newRouterFromConfig w cfg = (let endpoints = Split (CHR '','') (cc_etcdEndpoints cfg) in
     case wd_etcd w endpoints of
       Some err \<Rightarrow> (Inl (''etcd connection failed: '' @ err), [])
     | None \<Rightarrow> (case wd_watch w (cc_nodePrefix cfg) of
         Some err \<Rightarrow> (Inl (''resolver watch failed: '' @ err), [EtcdOpened endpoints, EtcdClosed])
       | None \<Rightarrow> (Inr (NewRouter (wd_resolver w) (nat (sint (cc_batchSize cfg)))),
                  [EtcdOpened endpoints, WatchStarted (cc_nodePrefix cfg)])))"

definition cleanup :: "act list" where
  "cleanup = [StreamersStopped, EtcdClosed]"

section \<open>The load generator as a command\<close>

definition finalReport :: "world \<Rightarrow> stressConfig \<Rightarrow> bool \<Rightarrow> uint64 \<Rightarrow> stressReport" where
  "finalReport w cfg drained abandoned = (let m = wd_metrics w;
       totalCompletionDuration = wd_generationDuration w + wd_drainDuration w in
     \<lparr>rp_cfg = cfg, rp_generationDuration = wd_generationDuration w, rp_drainDuration = wd_drainDuration w,
      rp_totalCompletionDuration = totalCompletionDuration,
      rp_offeredTPS = throughputPerSecond (reqSent m) (wd_generationDuration w),
      rp_completedTPS = throughputPerSecond (respRecv m) totalCompletionDuration,
      rp_callbackPending = wd_callbackPending w, rp_totalSent = reqSent m, rp_totalSuccess = respRecv m,
      rp_totalErrors = errCount m, rp_drained = drained, rp_abandoned = abandoned,
      rp_errorBreakdown = ErrorBreakdownMap m\<rparr>)"

text \<open>
  Starting a streamer panics when the capacity of its channel, twice the batch size, is negative, and
  its flusher when the delay of its ticker is not positive. The first envelope that is sent to a node
  starts one. Exhausted memory is not modelled.
\<close>

definition streamerStarts :: "'a clientConfig_scheme \<Rightarrow> bool" where
  "streamerStarts cfg \<longleftrightarrow> 0 \<le> sint (cc_batchSize cfg) \<and> 0 \<le> sint (cc_batchSize cfg * 2) \<and> 0 < sint (cc_flushDelay cfg)"

definition needsStreamer :: "world \<Rightarrow> RemoteEnvelope list \<Rightarrow> bool" where
  "needsStreamer w envs = list_ex (\<lambda>env. case wd_resolver w (env_TenantId env) (env_Uid env) of
     Inl _ \<Rightarrow> False | Inr ip \<Rightarrow> wd_dial w ip) envs"

definition runStressCommand :: "world \<Rightarrow> string list \<Rightarrow> cmdResult \<times> act list" where
  "runStressCommand w args = (case Parse (snd stressFlags) args (fst stressFlags) of
     Inl err \<Rightarrow> (Failed (FlagFailure err), [])
   | Inr (parsed, _) \<Rightarrow> (case normalize parsed of
       Inl err \<Rightarrow> (Failed (Failure err), [])
     | Inr cfg \<Rightarrow> (case newRouterFromConfig w cfg of
         (Inl err, acts) \<Rightarrow> (Failed (Failure err), SignalsCaught # acts @ [SignalsReleased])
       | (Inr router, acts) \<Rightarrow> (let started = SignalsCaught # acts @ [StartLogged cfg, ReporterStarted] in
           case runStressGenerators cfg (wd_draws w) (wd_ids w) of
             None \<Rightarrow> (Crashed, started)
           | Some (envs, _) \<Rightarrow> if needsStreamer w envs \<and> \<not> streamerStarts cfg then (Crashed, started)
             else (case drainInFlight (wd_drain w) of
               None \<Rightarrow> (Waiting, started @ [Generated envs])
             | Some (drained, abandoned) \<Rightarrow>
                 (Succeeded, started @ [Generated envs, Drained drained abandoned, Reported (finalReport w cfg drained abandoned),
                    RunCancelled, ReporterStopped] @ cleanup @ [SignalsReleased]))))))"

section \<open>The gateway as a command\<close>

record serveConfig = clientConfig +
  sc_httpAddr :: string
  sc_cassandraHosts :: string
  sc_keyspace :: string

definition serveFlags :: "serveConfig flagSet" where
  "serveFlags =
     StringVar sc_keyspace_update ''keyspace'' ''wallet'' (
     StringVar sc_cassandraHosts_update ''cassandra'' ''127.0.0.1:9042'' (
     StringVar sc_httpAddr_update ''http'' '':8080'' (
     registerSharedFlags (\<lparr>cc_etcdEndpoints = [], cc_nodePrefix = [], cc_batchSize = 0, cc_flushDelay = 0,
       sc_httpAddr = [], sc_cassandraHosts = [], sc_keyspace = []\<rparr>, []))))"

text \<open>The start of the command, until it listens; an error has run the deferred calls.\<close>

definition startServe :: "world \<Rightarrow> string list \<Rightarrow> (cmdError + serveConfig \<times> Router) \<times> act list" where
  "startServe w args = (case Parse (snd serveFlags) args (fst serveFlags) of
     Inl err \<Rightarrow> (Inl (FlagFailure err), [])
   | Inr (cfg, _) \<Rightarrow> (case newRouterFromConfig w cfg of
       (Inl err, acts) \<Rightarrow> (Inl (Failure err), SignalsCaught # acts @ [SignalsReleased])
     | (Inr router, acts) \<Rightarrow> (let hosts = Split (CHR '','') (sc_cassandraHosts cfg) in
         case wd_cassandra w hosts (sc_keyspace cfg) of
           Some err \<Rightarrow> (Inl (Failure (''cassandra connection failed: '' @ err)), SignalsCaught # acts @ cleanup @ [SignalsReleased])
         | None \<Rightarrow> (Inr (cfg, router), SignalsCaught # acts @ [CassandraOpened hosts (sc_keyspace cfg)]))))"

text \<open>
  The serving process: the main goroutine, the goroutine that waits for the signal, the requests under
  way and the stress engine. \<^verbatim>\<open>ListenAndServe\<close> returns as soon as \<^verbatim>\<open>Shutdown\<close> begins, as documented.
\<close>

datatype serve_pc = SvListening | SvCloseStore "string option" | SvStopAll "string option" | SvCloseEtcd "string option"
  | SvReturned "string option"

datatype signal_pc = SgWait | SgStopping | SgShutdown | SgDraining | SgOver

record gatewayServer =
  gs_engine :: StressEngine
  gs_main :: serve_pc
  gs_signal :: signal_pc
  gs_ctxDone :: bool
  gs_listening :: bool
  gs_active :: "nat list"
  gs_storeOpen :: bool

datatype gevent = RequestAccepted nat | RequestReplied nat | StoreQueried nat bool | ListeningEnded
  | StoreClosed | StopAllRun | EtcdClientClosed | ShutdownTimedOut

datatype serve_choice = GSignal | GAccept nat | GStart nat stressConfig | GStop nat | GReset nat Metrics | GQuery nat | GReply nat
  | GRun bool "(uint64 \<times> uint64 \<times> uint64 \<times> bool) list" nat | GReporter bool Metrics uint64 nat
  | GSignalGo | GTimeout | GServeFails string | GMain

definition newGatewayServer :: gatewayServer where
  "newGatewayServer = \<lparr>gs_engine = NewStressEngine, gs_main = SvListening, gs_signal = SgWait, gs_ctxDone = False,
     gs_listening = True, gs_active = [], gs_storeOpen = True\<rparr>"

definition main_step :: "gatewayServer \<Rightarrow> (gatewayServer \<times> gevent list) option" where
  "main_step g = (case gs_main g of
     SvListening \<Rightarrow> if gs_listening g then None else Some (g\<lparr>gs_main := SvCloseStore None\<rparr>, [])
   | SvCloseStore e \<Rightarrow> Some (g\<lparr>gs_main := SvStopAll e, gs_storeOpen := False\<rparr>, [StoreClosed])
   | SvStopAll e \<Rightarrow> Some (g\<lparr>gs_main := SvCloseEtcd e\<rparr>, [StopAllRun])
   | SvCloseEtcd e \<Rightarrow> Some (g\<lparr>gs_main := SvReturned e\<rparr>, [EtcdClientClosed])
   | SvReturned e \<Rightarrow> None)"

text \<open>The goroutine that waits for the signal; it is the caller 0 of the engine's \<^verbatim>\<open>Stop\<close>.\<close>

definition signal_step :: "gatewayServer \<Rightarrow> (gatewayServer \<times> gevent list) option" where
  "signal_step g = (case gs_signal g of
     SgWait \<Rightarrow> if gs_ctxDone g then Some (g\<lparr>gs_signal := SgStopping\<rparr>, []) else None
   | SgStopping \<Rightarrow> (case StressEngine_Stop 0 (gs_engine g) of None \<Rightarrow> None
       | Some e \<Rightarrow> Some (g\<lparr>gs_engine := e, gs_signal := (case se_stops e 0 of StopReturned _ \<Rightarrow> SgShutdown | _ \<Rightarrow> SgStopping)\<rparr>, []))
   | SgShutdown \<Rightarrow> Some (g\<lparr>gs_signal := SgDraining, gs_listening := False\<rparr>, [ListeningEnded])
   | SgDraining \<Rightarrow> if gs_active g = [] then Some (g\<lparr>gs_signal := SgOver\<rparr>, []) else None
   | SgOver \<Rightarrow> None)"

text \<open>The process ends when \<^verbatim>\<open>main\<close> returns.\<close>

definition exited :: "gatewayServer \<Rightarrow> bool" where
  "exited g = (case gs_main g of SvReturned _ \<Rightarrow> True | _ \<Rightarrow> False)"

definition serve_step :: "serve_choice \<Rightarrow> gatewayServer \<Rightarrow> (gatewayServer \<times> gevent list) option" where
  "serve_step ch g = (if exited g then None else (case ch of
     GSignal \<Rightarrow> Some (g\<lparr>gs_ctxDone := True\<rparr>, [])
   | GAccept i \<Rightarrow> if gs_listening g \<and> i \<notin> set (gs_active g) then Some (g\<lparr>gs_active := i # gs_active g\<rparr>, [RequestAccepted i]) else None
   | GStart i cfg \<Rightarrow> if i \<in> set (gs_active g) then Some (g\<lparr>gs_engine := snd (StressEngine_Start cfg (gs_engine g))\<rparr>, []) else None
   | GStop i \<Rightarrow> if i \<in> set (gs_active g)
       then map_option (\<lambda>e. (g\<lparr>gs_engine := e\<rparr>, [])) (StressEngine_Stop (Suc i) (gs_engine g)) else None
   | GReset i m \<Rightarrow> if i \<in> set (gs_active g) then Some (g\<lparr>gs_engine := ResetMetrics m (gs_engine g)\<rparr>, []) else None
   | GQuery i \<Rightarrow> if i \<in> set (gs_active g) then Some (g, [StoreQueried i (gs_storeOpen g)]) else None
   | GReply i \<Rightarrow> if i \<in> set (gs_active g) then Some (g\<lparr>gs_active := removeAll i (gs_active g)\<rparr>, [RequestReplied i]) else None
   | GRun expired obs k \<Rightarrow> if k < length (se_runs (gs_engine g))
       then map_option (\<lambda>e. (g\<lparr>gs_engine := e\<rparr>, [])) (run_step expired obs k (gs_engine g)) else None
   | GReporter quit m pend k \<Rightarrow> if k < length (se_runs (gs_engine g))
       then map_option (\<lambda>e. (g\<lparr>gs_engine := e\<rparr>, [])) (reporter_step quit m pend k (gs_engine g)) else None
   | GSignalGo \<Rightarrow> signal_step g
   | GTimeout \<Rightarrow> if gs_signal g = SgDraining then Some (g\<lparr>gs_signal := SgOver\<rparr>, [ShutdownTimedOut]) else None
   | GServeFails err \<Rightarrow> if gs_main g = SvListening \<and> gs_listening g
       then Some (g\<lparr>gs_main := SvCloseStore (Some err), gs_listening := False\<rparr>, [ListeningEnded]) else None
   | GMain \<Rightarrow> main_step g))"

fun serve_exec :: "serve_choice list \<Rightarrow> gatewayServer \<Rightarrow> (gatewayServer \<times> gevent list) option" where
  "serve_exec [] g = Some (g, [])"
| "serve_exec (x # xs) g = (case serve_step x g of None \<Rightarrow> None
     | Some (g1, es) \<Rightarrow> (case serve_exec xs g1 of None \<Rightarrow> None | Some (g2, es') \<Rightarrow> Some (g2, es @ es')))"

section \<open>Flags\<close>

lemmas flag_var_defs = flagVar_def StringVar_def IntVar_def Uint64Var_def DurationVar_def

lemmas stress_flag_defs = stressFlags_def registerSharedFlags_def zeroStressConfig_def flag_var_defs

definition printStressFlags :: "stressConfig \<Rightarrow> string list" where
  "printStressFlags cfg = [printFlag ''etcd'' (cc_etcdEndpoints cfg), printFlag ''node-prefix'' (cc_nodePrefix cfg),
     printFlag ''batch'' (FormatInt (sint (cc_batchSize cfg))), printFlag ''flush-delay'' (FormatNanos (cc_flushDelay cfg)),
     printFlag ''tps'' (FormatInt (sint (tpsTarget cfg))), printFlag ''concurrency'' (FormatInt (sint (concurrency cfg))),
     printFlag ''duration'' (FormatNanos (duration cfg)), printFlag ''drain-window'' (FormatNanos (drainWindow cfg)),
     printFlag ''uid-min'' (FormatInt (sint (uidMin cfg))), printFlag ''uid-max'' (FormatInt (sint (uidMax cfg)))]"

lemma printed_flags_parse: "Parse (snd stressFlags) (printStressFlags cfg @ rest) c = Parse (snd stressFlags) rest cfg"
  by (cases c, cases cfg) (simp add: printStressFlags_def stress_flag_defs Parse_flag(1) flagName_def setFlag_def ParseInt0_FormatInt
      ParseDuration_FormatNanos del: Parse.simps(2))

text \<open>
  C32: Every configuration of the load generator can be given on the command line: its fields, written
  as flags with decimal numbers and durations in nanoseconds, are parsed back to the same
  configuration, over the whole range of the fields and whatever the fields held before.
\<close>

theorem stress_flags_roundtrip:
  "Parse (snd stressFlags) (printStressFlags cfg) c = Inr (cfg, [])"
  using printed_flags_parse [of cfg "[]"] by simp

lemma flag_names_distinct: "distinct (map fst (snd stressFlags))" "distinct (map fst (snd serveFlags))"
  by (simp_all add: stress_flag_defs serveFlags_def)

text \<open>The defaults are accepted.\<close>

lemma default_flags:
  "Parse (snd stressFlags) [] (fst stressFlags) = Inr (fst stressFlags, [])" "normalize (fst stressFlags) = Inr (fst stressFlags)"
  by (simp_all add: stress_flag_defs normalize_def Second_def)

section \<open>Resources\<close>

datatype resource = Signals | EtcdClient | Cassandra | Reporter

text \<open>The stack of what is held after the actions; \<^term>\<open>None\<close> when something is closed out of order.\<close>

fun held :: "act list \<Rightarrow> resource list \<Rightarrow> resource list option" where
  "held [] st = Some st"
| "held (a # as) st = (case a of
     SignalsCaught \<Rightarrow> held as (Signals # st) | EtcdOpened _ \<Rightarrow> held as (EtcdClient # st)
   | CassandraOpened _ _ \<Rightarrow> held as (Cassandra # st) | ReporterStarted \<Rightarrow> held as (Reporter # st)
   | SignalsReleased \<Rightarrow> (case st of Signals # st' \<Rightarrow> held as st' | _ \<Rightarrow> None)
   | EtcdClosed \<Rightarrow> (case st of EtcdClient # st' \<Rightarrow> held as st' | _ \<Rightarrow> None)
   | CassandraClosed \<Rightarrow> (case st of Cassandra # st' \<Rightarrow> held as st' | _ \<Rightarrow> None)
   | ReporterStopped \<Rightarrow> (case st of Reporter # st' \<Rightarrow> held as st' | _ \<Rightarrow> None)
   | _ \<Rightarrow> held as st)"

text \<open>
  Whatever the arguments and the world answer, both commands release what they have acquired, in
  reverse order: on every return of the load generator and on every failed start of the gateway
  nothing is held, and a gateway that starts holds the store, the etcd client and the signal handler.
\<close>

lemma commands_release:
  "(case runStressCommand w args of (Succeeded, acts) \<Rightarrow> held acts [] = Some [] | (Failed e, acts) \<Rightarrow> held acts [] = Some []
     | _ \<Rightarrow> True) \<and>
   (case startServe w args of (Inl e, acts) \<Rightarrow> held acts [] = Some []
     | (Inr x, acts) \<Rightarrow> held acts [] = Some [Cassandra, EtcdClient, Signals])"
  by (auto simp: runStressCommand_def startServe_def newRouterFromConfig_def cleanup_def Let_def
      split: sum.splits prod.splits option.splits)

section \<open>The stress command\<close>

lemma normalize_client:
  assumes "normalize cfg = Inr cfg'"
  shows "cc_etcdEndpoints cfg' = cc_etcdEndpoints cfg" "cc_nodePrefix cfg' = cc_nodePrefix cfg"
    "streamerStarts cfg' = streamerStarts cfg"
  using assms by (auto simp: normalize_def streamerStarts_def Let_def split: if_splits)

text \<open>
  C30: The stress command from its flags to its report. With the flags of an accepted configuration
  that can start streamers, and a reachable cluster, it opens the listed etcd endpoints, watches the prefix, generates one envelope
  per tick for users in the configured range with successive request identifiers, waits for the
  responses, reports the outcome of draining, and then undoes its start in reverse order.
\<close>

theorem stress_command_runs:
  assumes "normalize cfg = Inr cfg'" and "0 < sint (concurrency cfg)" and "0 < sint (tpsTarget cfg)"
    and "streamerStarts cfg" and "wd_etcd w (Split (CHR '','') (cc_etcdEndpoints cfg)) = None" and "wd_watch w (cc_nodePrefix cfg) = None"
    and "drainInFlight (wd_drain w) = Some (drained, abandoned)"
  shows "\<exists>uids. length uids = length (wd_draws w) \<and>
    list_all (\<lambda>u. sint (uidMin cfg') \<le> sint u \<and> sint u \<le> sint (uidMax cfg')) uids \<and>
    runStressCommand w (printStressFlags cfg) = (Succeeded,
      [SignalsCaught, EtcdOpened (Split (CHR '','') (cc_etcdEndpoints cfg)), WatchStarted (cc_nodePrefix cfg),
       StartLogged cfg', ReporterStarted,
       Generated (map2 stressEnvelope uids (requestIDs (length (wd_draws w)) (wd_ids w))),
       Drained drained abandoned, Reported (finalReport w cfg' drained abandoned),
       RunCancelled, ReporterStopped, StreamersStopped, EtcdClosed, SignalsReleased])"
proof -
  note b = normalize_bounds [OF assms(1)]
  have parse: "Parse (snd stressFlags) (printStressFlags cfg) (fst stressFlags) = Inr (cfg, [])"
    using printed_flags_parse [of cfg "[]"] by simp
  obtain uids where u: "length uids = length (wd_draws w)" "\<forall>u \<in> set uids. sint (uidMin cfg') \<le> sint u \<and> sint u \<le> sint (uidMax cfg')"
    "generate cfg' (wd_draws w) (wd_ids w) = Some (map2 stressEnvelope uids (requestIDs (length (wd_draws w)) (wd_ids w)),
       wd_ids w + of_nat (length (wd_draws w)))"
    using generate_ok [OF b(1,2)] by blast
  then have "runStressGenerators cfg' (wd_draws w) (wd_ids w) =
      Some (map2 stressEnvelope uids (requestIDs (length (wd_draws w)) (wd_ids w)), wd_ids w + of_nat (length (wd_draws w)))"
    using assms(2,3) b(4,5) by (simp add: runStressGenerators_def)
  then show ?thesis
    using assms u(1,2) parse normalize_client [OF assms(1)]
    by (intro exI [of _ uids]) (simp add: runStressCommand_def newRouterFromConfig_def cleanup_def list_all_iff)
qed

definition demoWorld :: world where
  "demoWorld = \<lparr>wd_etcd = (\<lambda>_. None), wd_watch = (\<lambda>_. None), wd_cassandra = (\<lambda>_ _. None), wd_resolver = (\<lambda>_ _. Inr ''n:1''),
     wd_dial = (\<lambda>_. True),
     wd_ids = 0, wd_draws = [4, 9], wd_drain = [(2, 1, 0, False), (2, 2, 0, False)], wd_generationDuration = Second, wd_drainDuration = 0,
     wd_metrics = zeroMetrics\<lparr>reqSent := 2, respRecv := 2\<rparr>, wd_callbackPending = 0\<rparr>"

definition demoFlags :: stressConfig where
  "demoFlags = demoConfig\<lparr>cc_batchSize := 10, cc_flushDelay := 5\<rparr>"

theorem stress_command_runs_witness:
  "fst (runStressCommand demoWorld (printStressFlags demoFlags)) = Succeeded"
proof -
  have n: "normalize demoFlags = Inr (demoFlags\<lparr>drainWindow := 60 * Second, uidMin := 1, uidMax := 100\<rparr>)"
    by (simp add: normalize_def demoFlags_def demoConfig_def Second_def)
  have d: "drainInFlight (wd_drain demoWorld) = Some (True, 0)" by (simp add: demoWorld_def)
  show ?thesis using stress_command_runs [OF n _ _ _ _ _ d] by (auto simp: demoFlags_def demoConfig_def demoWorld_def streamerStarts_def)
qed

text \<open>The checks of the configuration accept a flush delay of zero, with which the first envelope crashes the process.\<close>

lemma flush_delay_crashes:
  "runStressCommand demoWorld [''-flush-delay=0'', ''-tps'', ''1''] = (Crashed,
     [SignalsCaught, EtcdOpened [''127.0.0.1:2379''], WatchStarted ''/actor_cluster/nodes'',
      StartLogged ((fst stressFlags)\<lparr>cc_flushDelay := 0, tpsTarget := 1\<rparr>), ReporterStarted])"
  by (simp add: runStressCommand_def stress_flag_defs cutValue_def setFlag_def ParseDuration_def ParseInt0_def ParseUint0_def
      basePrefix_def digitAny_def digit_val_def normalize_def Second_def newRouterFromConfig_def demoWorld_def defaultFlushDelay_def
      runStressGenerators_def generatorTick_def nextRequestID_def Int63n_def needsStreamer_def stressEnvelope_def streamerStarts_def)

section \<open>Shutdown of the gateway\<close>




definition countOf :: "gevent \<Rightarrow> gevent list \<Rightarrow> nat" where
  "countOf x tr = length (filter (\<lambda>y. y = x) tr)"

lemma countOf_simps [simp]:
  "countOf x [] = 0" "countOf x (y # tr) = (if y = x then Suc (countOf x tr) else countOf x tr)"
  "countOf x (tr @ tr') = countOf x tr + countOf x tr'"
  by (simp_all add: countOf_def)


lemmas serve_defs = serve_step_def main_step_def signal_step_def





















section \<open>What the shutdown does not guarantee\<close>

text \<open>
  The main goroutine does not wait for \<^verbatim>\<open>Shutdown\<close>: it closes the store while a request is under way.
\<close>

lemma store_closed_under_request:
  "\<exists>g tr. serve_exec [GAccept 7, GSignal, GSignalGo, GSignalGo, GSignalGo, GSignalGo, GSignalGo, GMain, GMain, GQuery 7] newGatewayServer =
     Some (g, tr) \<and> StoreQueried 7 False \<in> set tr"
  by (simp add: serve_defs newGatewayServer_def NewStressEngine_def StressEngine_Stop_def exited_def)

text \<open>A request between \<^verbatim>\<open>Stop\<close> and \<^verbatim>\<open>Shutdown\<close> starts a load that is never stopped.\<close>

lemma load_survives_shutdown:
  "\<exists>g tr. serve_exec [GAccept 7, GSignal, GSignalGo, GSignalGo, GSignalGo, GSignalGo, GStart 7 demoConfig, GReply 7, GSignalGo, GSignalGo,
       GMain, GMain, GMain, GMain] newGatewayServer = Some (g, tr) \<and> gs_main g = SvReturned None \<and> se_running (gs_engine g)"
  by (simp add: serve_defs newGatewayServer_def NewStressEngine_def StressEngine_Stop_def exited_def StressEngine_Start_def
      normalize_def demoConfig_def Second_def)

end
