(* ===== verification/Page.thy ===== *)
theory Page
  imports Gateway
begin

text \<open>
  The script of the page that the gateway serves (the end of \<^verbatim>\<open>cmd/client/serve.go\<close>): the forms, the
  requests they send, and what the replies do to the page. A handler runs until it awaits a reply; the
  rest of it is a continuation that runs when the reply is there, between other events. A status is shown
  by its fields, without the formatting of the latency.
\<close>

section \<open>Numbers of the browser\<close>

text \<open>
  What a text stands for after \<^verbatim>\<open>Number\<close> and \<^verbatim>\<open>JSON.stringify\<close> or \<^verbatim>\<open>String\<close>: no number, an integer as it is
  printed, or another number with its text. The conversion is an argument of the handlers; the
  standard promises that it is exact for integers up to \<open>2\<^sup>5\<^sup>3\<close>.
\<close>

datatype jsNumber = JsNaN | JsInt int | JsOther string


fun jsString :: "jsNumber \<Rightarrow> string" where
  "jsString JsNaN = ''NaN''"
| "jsString (JsInt i) = FormatInt i"
| "jsString (JsOther s) = s"

text \<open>
  How the decoder of the gateway reads such a number into an \<^verbatim>\<open>int64\<close>: \<^verbatim>\<open>NaN\<close> is sent as \<^verbatim>\<open>null\<close>, which
  leaves the field zero.
\<close>

fun goInt64 :: "jsNumber \<Rightarrow> int64 option" where
  "goInt64 JsNaN = Some 0"
| "goInt64 (JsInt i) = (if - (2 ^ 63) \<le> i \<and> i < 2 ^ 63 then Some (of_int i) else None)"
| "goInt64 (JsOther s) = None"

section \<open>The page\<close>

record pageRequest =
  rq_method :: string
  rq_path :: string
  rq_body :: "(string \<times> jsNumber) list"

datatype continuation = AfterExecute jsNumber | AfterBalance | AfterStart | AfterStop | AfterReset | AfterStatus

text \<open>\<^verbatim>\<open>pg_pending\<close> lists the requests that the page has sent, each with the rest of its handler.\<close>

record page =
  pg_executeUID :: string
  pg_executeAmount :: string
  pg_balanceUID :: string
  pg_stress :: "(string \<times> string) list"
  pg_status :: "stressStatus option"
  pg_state :: string
  pg_stateClass :: string
  pg_log :: "(string \<times> content) list"
  pg_pending :: "(pageRequest \<times> continuation) list"

definition appendLog :: "string \<Rightarrow> content \<Rightarrow> page \<Rightarrow> page" where
  "appendLog title payload p = p\<lparr>pg_log := (title, payload) # pg_log p\<rparr>"

definition syncBalanceUID :: "bool \<Rightarrow> page \<Rightarrow> page" where
  "syncBalanceUID force p = (if force \<or> pg_balanceUID p = [] \<or> pg_balanceUID p = ''1''
     then p\<lparr>pg_balanceUID := pg_executeUID p\<rparr> else p)"

definition fetch :: "string \<Rightarrow> string \<Rightarrow> (string \<times> jsNumber) list \<Rightarrow> continuation \<Rightarrow> page \<Rightarrow> page" where
  "fetch method path body k p = p\<lparr>pg_pending := pg_pending p @ [(\<lparr>rq_method = method, rq_path = path, rq_body = body\<rparr>, k)]\<rparr>"

definition refreshStatus :: "page \<Rightarrow> page" where
  "refreshStatus = fetch ''GET'' ''/api/stress/status'' [] AfterStatus"



definition submitStress :: "(string \<Rightarrow> jsNumber) \<Rightarrow> page \<Rightarrow> page" where
  "submitStress num p = fetch ''POST'' ''/api/stress/start'' (map (\<lambda>(name, v). (name, num v)) (pg_stress p)) AfterStart p"

definition clickStop :: "page \<Rightarrow> page" where
  "clickStop = fetch ''POST'' ''/api/stress/stop'' [] AfterStop"

definition clickReset :: "page \<Rightarrow> page" where
  "clickReset = fetch ''POST'' ''/api/stress/reset'' [] AfterReset"

definition inputExecuteUID :: "string \<Rightarrow> page \<Rightarrow> page" where
  "inputExecuteUID v p = syncBalanceUID False (p\<lparr>pg_executeUID := v\<rparr>)"


text \<open>
  \<^verbatim>\<open>res.json()\<close>: the error texts of the gateway and the page itself are not JSON, so the promise is rejected
  and the rest of the handler does not run.
\<close>

definition resJson :: "reply \<Rightarrow> content option" where
  "resJson rsp = (case rs_body rsp of Text _ \<Rightarrow> None | Value Page \<Rightarrow> None | Value v \<Rightarrow> Some v)"

definition showStatus :: "content \<Rightarrow> page \<Rightarrow> page" where
  "showStatus data p = (case data of
     JsonStatus st \<Rightarrow> p\<lparr>pg_status := Some st, pg_state := (if IsRunning st then ''running'' else ''idle''),
       pg_stateClass := (if IsRunning st then ''status running'' else ''status'')\<rparr>
   | _ \<Rightarrow> p)"

definition resume :: "continuation \<Rightarrow> reply \<Rightarrow> page \<Rightarrow> page" where
  "resume k rsp p = (case resJson rsp of None \<Rightarrow> p
     | Some data \<Rightarrow> (case k of
         AfterExecute uid \<Rightarrow> refreshStatus ((appendLog ''execute'' data p)\<lparr>pg_balanceUID := jsString uid\<rparr>)
       | AfterBalance \<Rightarrow> appendLog ''balance.query'' data p
       | AfterStart \<Rightarrow> refreshStatus (appendLog ''stress.start'' data p)
       | AfterStop \<Rightarrow> refreshStatus (appendLog ''stress.stop'' data p)
       | AfterReset \<Rightarrow> refreshStatus (appendLog ''metrics.reset'' data p)
       | AfterStatus \<Rightarrow> showStatus data p))"

section \<open>The gateway's side\<close>

text \<open>The decoding of the bodies that the page sends; a missing field stays zero.\<close>

definition fieldOf :: "(string \<times> jsNumber) list \<Rightarrow> string \<Rightarrow> int64 option" where
  "fieldOf body name = (case map_of body name of None \<Rightarrow> Some 0 | Some v \<Rightarrow> goInt64 v)"


definition decodeStress :: "(string \<times> jsNumber) list \<Rightarrow> stressRequest option" where
  "decodeStress body = (case (fieldOf body ''tps_target'', fieldOf body ''concurrency'', fieldOf body ''duration_sec'',
       fieldOf body ''drain_window_sec'', fieldOf body ''uid_min'', fieldOf body ''uid_max'') of
     (Some a, Some b, Some c, Some d, Some e, Some f) \<Rightarrow>
       Some \<lparr>sr_TPSTarget = a, sr_Concurrency = b, sr_DurationSec = c, sr_DrainWindowSec = d, sr_UIDMin = e, sr_UIDMax = f\<rparr>
   | _ \<Rightarrow> None)"

section \<open>From the form to the wallet\<close>







section \<open>What the page does not show\<close>

text \<open>
  An error text is not JSON: the handler ends without a log entry and without a refresh. So a refused
  start of a load, like every other refused request, leaves no trace on the page.
\<close>

lemma page_hides_errors:
  "rs_body rsp = Text s \<Longrightarrow> resume k rsp p = p"
  "se_running e \<Longrightarrow> 0 < sint (sr_TPSTarget req) \<Longrightarrow> 0 < sint (sr_Concurrency req) \<Longrightarrow> 0 < sint (sr_DurationSec req) \<Longrightarrow>
     resume AfterStart (fst (handleStressStart ''POST'' (Some req) m later e)) p = p"
  by (simp_all add: resume_def resJson_def handleStressStart_def StressEngine_Start_def httpError_def)

text \<open>A balance form that the user has set to 1 follows the execute form again.\<close>

lemma balance_uid_overwritten: "pg_balanceUID (inputExecuteUID v (p\<lparr>pg_balanceUID := ''1''\<rparr>)) = v"
  by (simp add: inputExecuteUID_def syncBalanceUID_def)

end
