(* ===== verification/NodeMain.thy ===== *)
theory NodeMain
  imports Http Flags
begin

text \<open>
  \<^verbatim>\<open>cmd/node/main.go\<close>: the flags of a node, the address it advertises, its metrics page, and the order in
  which the process opens and closes what it uses. The environment variable, the network probe and the
  outcome of every start-up call are arguments.
\<close>

section \<open>Host and port\<close>

definition lastColon :: "string \<Rightarrow> nat option" where
  "lastColon s = (if CHR '':'' \<in> set s then Some (length s - 1 - length (takeWhile (\<lambda>c. c \<noteq> CHR '':'') (rev s))) else None)"

definition firstIndex :: "char \<Rightarrow> string \<Rightarrow> nat option" where
  "firstIndex c s = (if c \<in> set s then Some (length (takeWhile (\<lambda>d. d \<noteq> c) s)) else None)"

text \<open>\<^verbatim>\<open>net.SplitHostPort\<close> and \<^verbatim>\<open>net.JoinHostPort\<close> of the standard library.\<close>

definition SplitHostPort :: "string \<Rightarrow> string + string \<times> string" where
  "SplitHostPort s = (case lastColon s of None \<Rightarrow> Inl ''missing port in address''
     | Some i \<Rightarrow>
         let finish = (\<lambda>host j k.
               if CHR ''['' \<in> set (drop j s) then Inl ''unexpected '[' in address''
               else if CHR '']'' \<in> set (drop k s) then Inl ''unexpected ']' in address''
               else Inr (host, drop (Suc i) s))
         in if hd s = CHR ''[''
            then (case firstIndex (CHR '']'') s of None \<Rightarrow> Inl ''missing ']' in address''
              | Some e \<Rightarrow>
                  if Suc e = length s then Inl ''missing port in address''
                  else if Suc e = i then finish (take (e - 1) (drop 1 s)) 1 (Suc e)
                  else if s ! Suc e = CHR '':'' then Inl ''too many colons in address''
                  else Inl ''missing port in address'')
            else if CHR '':'' \<in> set (take i s) then Inl ''too many colons in address''
            else finish (take i s) 0 0)"

definition JoinHostPort :: "string \<Rightarrow> string \<Rightarrow> string" where
  "JoinHostPort host port = (if CHR '':'' \<in> set host then ''['' @ host @ '']:'' @ port else host @ '':'' @ port)"

definition resolveMyIP :: "string \<Rightarrow> string \<Rightarrow> string \<Rightarrow> string + string \<Rightarrow> string + string" where
  "resolveMyIP flagIP port podIP probe = (let cleanPort = TrimPrefix port '':'' in
     if flagIP \<noteq> [] then
       (case SplitHostPort flagIP of Inl _ \<Rightarrow> Inr (JoinHostPort flagIP cleanPort) | Inr _ \<Rightarrow> Inr flagIP)
     else if podIP \<noteq> [] then Inr (JoinHostPort podIP cleanPort)
     else (case probe of Inl err \<Rightarrow> Inl (''UDP probe failed: '' @ err)
       | Inr ip \<Rightarrow> Inr (JoinHostPort ip cleanPort)))"

section \<open>The metrics page\<close>

definition metric :: "string \<Rightarrow> string \<Rightarrow> string \<Rightarrow> uint64 \<Rightarrow> string" where
  "metric name help kind v = ''# HELP '' @ name @ '' '' @ help @ ''\<newline># TYPE '' @ name @ '' '' @ kind @ ''\<newline>'' @
     name @ '' '' @ FormatUint (unat v) @ ''\<newline>''"

definition handleMetrics :: "string \<Rightarrow> uint64 \<Rightarrow> uint64 \<Rightarrow> uint64 \<Rightarrow> uint64 \<Rightarrow> uint64 \<Rightarrow> unit response" where
  "handleMetrics method mailboxPending handleSum handleCount writeSum writeCount =
     (if method \<noteq> ''GET'' then methodNotAllowed
      else \<lparr>rs_status = 200, rs_contentType = ''text/plain; version=0.0.4; charset=utf-8'',
        rs_body = Text (
          metric ''node_actor_mailbox_pending'' ''Total number of envelopes currently waiting across all actor mailboxes within this node process.'' ''gauge'' mailboxPending @
          metric ''node_handle_duration_ns_sum'' ''Cumulative total nanoseconds spent inside handler.Handle(env) in this node process.'' ''counter'' handleSum @
          metric ''node_handle_duration_ns_count'' ''Total number of handler.Handle(env) calls in this node process.'' ''counter'' handleCount @
          metric ''node_persistence_write_duration_ns_sum'' ''Cumulative total nanoseconds spent inside persistence ExecuteBatch() in this node process.'' ''counter'' writeSum @
          metric ''node_persistence_write_duration_ns_count'' ''Total number of persistence ExecuteBatch() calls in this node process.'' ''counter'' writeCount)\<rparr>)"

section \<open>The process\<close>

record nodeConfig =
  nc_port :: string
  nc_metricsAddr :: string
  nc_myIP :: string
  nc_cassHosts :: string
  nc_keyspace :: string
  nc_etcdEndpoints :: string
  nc_nodePrefix :: string
  nc_mailboxLimit :: uint64

definition nodeFlags :: "nodeConfig flagSet" where
  "nodeFlags =
     Uint64Var nc_mailboxLimit_update ''mailbox-limit'' 1500000 (
     StringVar nc_nodePrefix_update ''node-prefix'' ''/actor_cluster/nodes'' (
     StringVar nc_etcdEndpoints_update ''etcd'' ''127.0.0.1:2379'' (
     StringVar nc_keyspace_update ''keyspace'' ''wallet'' (
     StringVar nc_cassHosts_update ''cassandra'' ''127.0.0.1'' (
     StringVar nc_myIP_update ''ip'' [] (
     StringVar nc_metricsAddr_update ''metrics'' '':9090'' (
     StringVar nc_port_update ''port'' '':50051''
       (\<lparr>nc_port = [], nc_metricsAddr = [], nc_myIP = [], nc_cassHosts = [], nc_keyspace = [], nc_etcdEndpoints = [],
         nc_nodePrefix = [], nc_mailboxLimit = 0\<rparr>, []))))))))"

datatype action =
    OpenStore "string list" string | OpenEtcd "string list" | RegisterNode string string | WatchTopology string
  | NewNodeRuntime string uint64 | ListenTCP string | ServeGRPC nat | ServeMetrics string
  | SignalReceived | DeregisterNode string | ShutdownMetrics | GracefulStop | StopNode | CloseEtcd | CloseStore
  | Panic string | GoroutinePanic string | Exit nat

text \<open>
  The outcomes of the calls: the errors of the start-up, the errors with which the two servers end
  before a signal, and whether all streams end once the server stops gracefully.
\<close>

record outcomes =
  o_store :: "string option"
  o_etcd :: "string option"
  o_register :: "string option"
  o_watch :: "string option"
  o_listen :: "string option"
  o_serve :: "string option"
  o_metrics :: "string option"
  o_streamsEnd :: bool

text \<open>
  The actions of \<^verbatim>\<open>main\<close> from start to exit, for the outcome of each fallible call. A panic of \<^verbatim>\<open>main\<close> runs
  the deferred closing calls, a panic of another goroutine ends the process at once. Errors of the
  calls at shutdown are only logged. \<^verbatim>\<open>GracefulStop\<close> returns when all streams have ended.
\<close>

definition node_serve :: "nodeConfig \<Rightarrow> string \<Rightarrow> outcomes \<Rightarrow> action list" where
  "node_serve cfg ip oc = [ListenTCP (nc_port cfg), ServeGRPC 5000, ServeMetrics (nc_metricsAddr cfg)] @
     (case o_serve oc of Some e \<Rightarrow> [GoroutinePanic e] | None \<Rightarrow>
      (case o_metrics oc of Some e \<Rightarrow> [GoroutinePanic e] | None \<Rightarrow>
        [SignalReceived, DeregisterNode ip, ShutdownMetrics, GracefulStop] @
        (if o_streamsEnd oc then [StopNode, CloseEtcd, CloseStore] else [])))"

definition node_main :: "nodeConfig \<Rightarrow> string \<Rightarrow> string + string \<Rightarrow> outcomes \<Rightarrow> action list" where
  "node_main cfg podIP probe oc = (case resolveMyIP (nc_myIP cfg) (nc_port cfg) podIP probe of
     Inl e \<Rightarrow> [Panic e]
   | Inr ip \<Rightarrow> (case o_store oc of Some e \<Rightarrow> [Panic e] | None \<Rightarrow> OpenStore (Split (CHR '','') (nc_cassHosts cfg)) (nc_keyspace cfg) #
      (case o_etcd oc of Some e \<Rightarrow> [CloseStore, Panic e] | None \<Rightarrow> OpenEtcd (Split (CHR '','') (nc_etcdEndpoints cfg)) #
       (case o_register oc of Some e \<Rightarrow> [CloseEtcd, CloseStore, Panic e] | None \<Rightarrow> RegisterNode (nc_nodePrefix cfg) ip #
        (case o_watch oc of Some e \<Rightarrow> [CloseEtcd, CloseStore, Panic e] | None \<Rightarrow>
         WatchTopology (nc_nodePrefix cfg) # NewNodeRuntime ip (nc_mailboxLimit cfg) #
         (case o_listen oc of Some e \<Rightarrow> [CloseEtcd, CloseStore, Panic e] | None \<Rightarrow> node_serve cfg ip oc))))))"

text \<open>The flags of \<^verbatim>\<open>flag.CommandLine\<close>: an error of parsing ends the process.\<close>

definition node_process :: "string list \<Rightarrow> string \<Rightarrow> string + string \<Rightarrow> outcomes \<Rightarrow> action list" where
  "node_process args podIP probe oc = (case Parse (snd nodeFlags) args (fst nodeFlags) of
     Inl e \<Rightarrow> [Exit (if e = ErrHelp then 0 else 2)]
   | Inr (cfg, _) \<Rightarrow> node_main cfg podIP probe oc)"

section \<open>Addresses\<close>

definition plain :: "string \<Rightarrow> bool" where
  "plain s \<longleftrightarrow> CHR ''['' \<notin> set s \<and> CHR '']'' \<notin> set s"

lemma lastColon_append [simp]: "CHR '':'' \<notin> set p \<Longrightarrow> lastColon (h @ CHR '':'' # p) = Some (length h)"
proof -
  assume "CHR '':'' \<notin> set p"
  then have "takeWhile (\<lambda>c. c \<noteq> CHR '':'') (rev p @ CHR '':'' # rev h) = rev p"
    by (intro takeWhile_tail [THEN trans]) (auto simp: takeWhile_append)
  then show ?thesis by (simp add: lastColon_def)
qed

lemma firstIndex_append: "c \<notin> set h \<Longrightarrow> firstIndex c (h @ c # t) = Some (length h)"
  by (auto simp: firstIndex_def takeWhile_append)

theorem split_join:
  assumes "plain h" and "plain p" and "CHR '':'' \<notin> set p"
  shows "SplitHostPort (JoinHostPort h p) = Inr (h, p)"
proof (cases "CHR '':'' \<in> set h")
  case False
  then show ?thesis
    using assms by (cases h) (auto simp: SplitHostPort_def JoinHostPort_def plain_def lastColon_append [of p "c # h'" for c h', simplified]
        lastColon_append [of p "[]", simplified])
next
  case True
  let ?s = "''['' @ h @ '']:'' @ p"
  have i: "lastColon ?s = Some (length h + 2)" using lastColon_append [OF assms(3), of "''['' @ h @ '']''"] by simp
  have e: "firstIndex (CHR '']'') ?s = Some (Suc (length h))"
    using firstIndex_append [of "CHR '']''" "''['' @ h" "'':'' @ p"] assms(1) by (simp add: plain_def)
  have "SplitHostPort ?s = Inr (h, p)"
    unfolding SplitHostPort_def i e using assms by (simp add: plain_def)
  then show ?thesis using True by (simp add: JoinHostPort_def)
qed

text \<open>
  The address a node registers is a host and a port that \<^verbatim>\<open>net.SplitHostPort\<close> reads back: the flag
  itself when it names both, and otherwise the host from the flag, the environment or the probe, in
  that order, with the port of the listen flag. This needs a listen flag without a host, and a host
  without brackets.
\<close>

theorem advertised_address_wellformed:
  assumes "resolveMyIP flagIP port podIP probe = Inr addr"
    and "clean = TrimPrefix port '':''" "plain clean" "CHR '':'' \<notin> set clean"
    and "plain flagIP \<or> (\<exists>x. SplitHostPort flagIP = Inr x)" "plain podIP" "pred_sum (\<lambda>_. True) plain probe"
  shows "if \<exists>x. flagIP \<noteq> [] \<and> SplitHostPort flagIP = Inr x then addr = flagIP
    else SplitHostPort addr = Inr (if flagIP \<noteq> [] then flagIP else if podIP \<noteq> [] then podIP else projr probe, clean)"
  using assms split_join [OF _ assms(3,4)]
  by (auto simp: resolveMyIP_def Let_def split: sum.splits if_splits)

theorem advertised_address_wellformed_witness:
  "SplitHostPort (projr (resolveMyIP ''::1'' '':50051'' [] (Inl []))) = Inr (''::1'', ''50051'')"
proof -
  have r: "resolveMyIP ''::1'' '':50051'' [] (Inl []) = Inr ''[::1]:50051''"
    by code_simp
  have s: "SplitHostPort ''::1'' = Inl ''too many colons in address''" by code_simp
  show ?thesis
    using advertised_address_wellformed [OF r refl] unfolding r
    by (simp add: s plain_def TrimPrefix_def HasPrefix_def)
qed

text \<open>A bracketed host without a port gets a second pair of brackets, and a listen flag with a host ends up inside the address.\<close>

lemma address_malformed:
  "resolveMyIP ''[::1]'' '':50051'' [] probe = Inr ''[[::1]]:50051''" "isl (SplitHostPort ''[[::1]]:50051'')"
  "resolveMyIP [] ''0.0.0.0:50051'' ''10.0.0.1'' probe = Inr ''10.0.0.1:0.0.0.0:50051''"
  "isl (SplitHostPort ''10.0.0.1:0.0.0.0:50051'')"
  by code_simp+

section \<open>Order of the process\<close>

text \<open>
  Whatever the flags and the outcomes, a node process that stops its runtime has left the routing tables
  first, has then ended its servers, and closes the etcd client and the store last; it registers and serves
  one address; and unless another goroutine panics or a stream stays open it closes whatever it opened.
\<close>

lemma node_process_order:
  assumes "node_process args podIP probe oc = acts"
  shows "(StopNode \<in> set acts \<longrightarrow> (\<exists>xs prefix ip limit. RegisterNode prefix ip \<in> set xs \<and> NewNodeRuntime ip limit \<in> set xs \<and>
      acts = xs @ [SignalReceived, DeregisterNode ip, ShutdownMetrics, GracefulStop, StopNode, CloseEtcd, CloseStore])) \<and>
    (o_serve oc = None \<and> o_metrics oc = None \<and> o_streamsEnd oc \<longrightarrow>
      ((\<exists>hs k. OpenStore hs k \<in> set acts) \<longleftrightarrow> CloseStore \<in> set acts) \<and> ((\<exists>es. OpenEtcd es \<in> set acts) \<longleftrightarrow> CloseEtcd \<in> set acts)) \<and>
    (\<forall>p ip ip'. RegisterNode p ip \<in> set acts \<longrightarrow> DeregisterNode ip' \<in> set acts \<longrightarrow> ip' = ip)"
  using assms by (auto simp: node_process_def node_main_def node_serve_def split: sum.splits option.splits if_splits)

text \<open>A node that cannot listen has registered itself and does not deregister.\<close>

lemma failed_start_stays_registered:
  assumes "resolveMyIP (nc_myIP cfg) (nc_port cfg) podIP probe = Inr ip"
    and "o_store oc = None" "o_etcd oc = None" "o_register oc = None" "o_watch oc = None" "o_listen oc = Some e"
  shows "RegisterNode (nc_nodePrefix cfg) ip \<in> set (node_main cfg podIP probe oc)"
    "DeregisterNode x \<notin> set (node_main cfg podIP probe oc)"
  using assms by (simp_all add: node_main_def)

text \<open>
  A node whose metrics address is taken crashes while it is registered, without closing anything. A
  node with one open stream waits in \<^verbatim>\<open>GracefulStop\<close> and never stops its runtime.
\<close>

lemma started_node:
  assumes "resolveMyIP (nc_myIP cfg) (nc_port cfg) podIP probe = Inr ip"
    and "o_store oc = None" "o_etcd oc = None" "o_register oc = None" "o_watch oc = None" "o_listen oc = None" "o_serve oc = None"
  shows "o_metrics oc = Some e \<Longrightarrow> last (node_main cfg podIP probe oc) = GoroutinePanic e \<and>
      RegisterNode (nc_nodePrefix cfg) ip \<in> set (node_main cfg podIP probe oc) \<and> CloseStore \<notin> set (node_main cfg podIP probe oc)"
    "o_metrics oc = None \<Longrightarrow> \<not> o_streamsEnd oc \<Longrightarrow> last (node_main cfg podIP probe oc) = GracefulStop \<and>
      StopNode \<notin> set (node_main cfg podIP probe oc) \<and> CloseStore \<notin> set (node_main cfg podIP probe oc)"
  using assms by (simp_all add: node_main_def node_serve_def)

end
