(* ===== verification/Spec2Isabelle.thy ===== *)
theory Spec2Isabelle
  imports Routing Etcd MockResolver Persistence Wallet Reconciliation MailboxTrace NodeDelivery
    Server Callbacks ClientStop StressRuns Gateway Commands Page NodeMain
begin

text \<open>
  A verification development of the actor cluster: a wallet service in which every wallet
  \<^verbatim>\<open>(tenant_id, uid)\<close> is an actor that lives on one node, is rebuilt from an event store and is reached
  through batched gRPC streams.

  \<^bold>\<open>The program and its model.\<close> A request takes the following way. The gateway or the load generator
  builds an envelope with a new request identifier (\<^verbatim>\<open>Gateway\<close>, \<^verbatim>\<open>Stress\<close>). The client's router asks the
  resolver for the owner of the wallet (\<^verbatim>\<open>Routing\<close>, \<^verbatim>\<open>Etcd\<close>), registers a callback (\<^verbatim>\<open>Callbacks\<close>) and hands
  the envelope to the streamer of that node, which sends batches (\<^verbatim>\<open>Client\<close>). The server checks each
  batch and gives it to the node (\<^verbatim>\<open>Server\<close>). The node finds or creates the actor and puts the message
  into its mailbox (\<^verbatim>\<open>NodeRuntime\<close>, \<^verbatim>\<open>Mailbox\<close>). The actor applies it and writes an event (\<^verbatim>\<open>Wallet\<close>,
  \<^verbatim>\<open>Persistence\<close>). The result goes back over the stream on which the request came, and the receiver
  of the client gives it to the call that waits.

  \<^item> \<^verbatim>\<open>Prelude\<close>, \<^verbatim>\<open>Numerals\<close>, \<^verbatim>\<open>Http\<close>: machine integers as words, strings, byte order, decimal text and
    responses of the standard library; sums over families with finite support. \<^verbatim>\<open>Flags\<close>: numbers in any
    base, durations and the package \<^verbatim>\<open>flag\<close>.
  \<^item> \<^verbatim>\<open>Messages\<close>: \<^verbatim>\<open>pkg/remote/pb\<close> and \<^verbatim>\<open>pkg/remote/errors.go\<close>.
  \<^item> \<^verbatim>\<open>Routing\<close>: \<^verbatim>\<open>pkg/discovery/table.go\<close> (\<^verbatim>\<open>SlotOf\<close>, \<^verbatim>\<open>BuildRoutingTable\<close>, \<^verbatim>\<open>GetNodeIP\<close>). \<^verbatim>\<open>Etcd\<close>:
    \<^verbatim>\<open>etcd_resolver.go\<close> over an etcd client as parameter. \<^verbatim>\<open>MockResolver\<close>: \<^verbatim>\<open>internal/mock\<close>. All resolvers
    implement the locale \<^verbatim>\<open>topology_resolver\<close>.
  \<^item> \<^verbatim>\<open>Persistence\<close>: \<^verbatim>\<open>pkg/persistence\<close>, with the gocql session as parameter. What the wallet needs of a
    store is the locale \<^verbatim>\<open>wallet_store\<close>; the Cassandra adapter has it over every session that satisfies
    \<^verbatim>\<open>wallet_session\<close>, and an in-memory session shows that this can be met.
  \<^item> \<^verbatim>\<open>Wallet\<close>: \<^verbatim>\<open>internal/node/actor.go\<close>. \<^verbatim>\<open>Reconciliation\<close>: \<^verbatim>\<open>internal/node/reconciliation.go\<close>.
  \<^item> \<^verbatim>\<open>Mailbox\<close>, \<^verbatim>\<open>MailboxTrace\<close>: \<^verbatim>\<open>pkg/actor/actor.go\<close>, the lock-free queue with recycled nodes, step by
    atomic step, and its refinement to a FIFO queue.
  \<^item> \<^verbatim>\<open>NodeRuntime\<close>, \<^verbatim>\<open>NodeTrace\<close>, \<^verbatim>\<open>NodeDelivery\<close>: \<^verbatim>\<open>internal/node/node.go\<close>, its refinement to a ledger of
    requests and routes, and what the streams are sent. The mailbox is a list here.
  \<^item> \<^verbatim>\<open>Server\<close>: \<^verbatim>\<open>pkg/remote/server.go\<close> and \<^verbatim>\<open>types.go\<close>, with the batch handler as parameter.
  \<^item> \<^verbatim>\<open>Callbacks\<close>: the callback table of \<^verbatim>\<open>cmd/client/router.go\<close> and its interface, the locale
    \<^verbatim>\<open>callback_table\<close>. \<^verbatim>\<open>Client\<close>: the router and \<^verbatim>\<open>streamer.go\<close>. \<^verbatim>\<open>ClientTrace\<close>: the invariants of its steps.
    \<^verbatim>\<open>ClientAnswers\<close>: what whole runs guarantee, and do not. \<^verbatim>\<open>ClientStop\<close>: \<^verbatim>\<open>StopAll\<close>.
  \<^item> \<^verbatim>\<open>Stress\<close>, \<^verbatim>\<open>StressRuns\<close>: the engine and the load of \<^verbatim>\<open>cmd/client/stress.go\<close>. \<^verbatim>\<open>Gateway\<close>: the handlers of
    \<^verbatim>\<open>cmd/client/serve.go\<close>. \<^verbatim>\<open>Page\<close>: the script of the page in it. \<^verbatim>\<open>Commands\<close>: \<^verbatim>\<open>cmd/client/main.go\<close> and the
    two subcommands, with the shutdown of the gateway. \<^verbatim>\<open>NodeMain\<close>: \<^verbatim>\<open>cmd/node/main.go\<close>.

  \<^bold>\<open>How code is represented.\<close> A struct is a record, an enumeration a datatype, a function that returns an
  error a sum or an option. Sequential code is a function on explicit state. Concurrent code is a
  state with a program point per goroutine and a step relation (\<^verbatim>\<open>nstep\<close>, \<^verbatim>\<open>cstep\<close>, \<^verbatim>\<open>estep\<close>,
  \<^verbatim>\<open>serve_step\<close> and the mailbox's) whose steps are the atomic operations, critical sections and channel operations of the
  source; runs (\<^verbatim>\<open>nrun\<close>, \<^verbatim>\<open>crun\<close>, \<^verbatim>\<open>erun\<close>) are all interleavings. Runs of the node and the client carry a
  trace of events. A schedule is executed by a function (\<^verbatim>\<open>nexec\<close>, \<^verbatim>\<open>cexec\<close>) that is proved to make only
  steps of the relation, which is how concrete runs are exhibited. Clocks, random numbers, timers and
  the outcomes of network and database calls are arguments or choices of the environment.

  \<^bold>\<open>What is shown.\<close> Wallet: the handler on every branch, exact balances without wrap-around, detection
  of gaps, recovery after a crash up to one unacknowledged event, and the window of remembered
  transactions. Mailbox: refinement to a FIFO queue, no lost wake-up, no reuse of reachable nodes, an
  exact counter and progress. Node: results answer requests of their own stream, each at most once,
  and all of them when request keys are unique; actors are isolated; overload is shed; batches
  return. Server: which batches reach the handler and how a stream ends; every error is a status.
  Client: results reach the call that asked, envelopes keep their order in bounded batches, a call is
  answered at most once per registration, stopping closes each channel once and waits for the
  receivers, and the sharded table is one map. Discovery: lookups are
  total and even, and agree between resolvers. Stress engine: generated load within bounds, at most
  one run; flags are read back as they are written, and the command goes from its flags to its report.
  Gateway: statuses on every branch, a balance page that agrees with rehydration, a page whose forms
  reach the wallet with their numbers, and an ordered shutdown. Node process: a well-formed address and
  an ordered shutdown. This theory adds the composition: batches of the client are
  accepted by the server, identifiers drawn by clients make the node answer every request once, a
  request over HTTP changes the wallet as its reply says, and concurrent requests to one wallet add
  up.

  \<^bold>\<open>Bounds and fuel.\<close> No definition uses fuel. A loop that waits for the outside runs over the list of
  what it observes, and its result is an option or says that it still waits; that it returns is then
  a statement of its own (\<^verbatim>\<open>Register_returns_iff\<close>, \<^verbatim>\<open>drain_returns\<close>, \<^verbatim>\<open>loop_catches_up\<close>,
  \<^verbatim>\<open>HandleBatch_returns\<close>). Batch sizes, channels, mailboxes and numbers of goroutines are arbitrary.

  \<^bold>\<open>What is not modelled.\<close> Generated protobuf and gRPC code, and the libraries for gRPC, etcd and
  Cassandra, of which only the calls and their documented outcomes appear. The text of log
  lines: a report is given by its fields. The style of the gateway's page, and its formatting of the
  latency. JSON encoding: a request is given by its decoded value, a response by its fields. Rounding of
  floating point numbers, except where a duration is parsed. Memory reclamation and
  data races on plain fields, which the source guards by locks and atomics. In the node a call of the
  handler is one step, and in the client a counter changes in the step it belongs to.
\<close>

section \<open>From the client to the handler\<close>

lemma served_all:
  assumes "\<And>s b. snd (h s b) = None"
  shows "served h bs s = Some (fold (\<lambda>b s. fst (h s b)) bs s)"
proof (induction bs arbitrary: s)
  case (Cons b bs)
  obtain s' where "h s b = (s', None)" using assms [of s b] by (metis prod.collapse)
  then show ?case using Cons by simp
qed simp

text \<open>
  C14: Client and server fit together. With a batch size between 1 and the limit of the server, the
  server accepts every batch that a streamer of the client sends: all of them reach the handler, in
  the order in which the streamer accepted the envelopes, and the stream stays open.
\<close>

theorem client_stream_served:
  assumes "crun (NewRouter resolver n) tr r" and "0 < n" and "int n \<le> limit"
    and "NewServer (Some h) \<lparr>MaxBatchSize = limit\<rparr> = Some srv" and "\<And>s b. snd (h s b) = None"
  shows "StreamMessages srv (map (\<lambda>b. RecvBatch (map Some b)) (sentTo tr i)) s =
      (fold (\<lambda>b s. fst (h s (map Some b))) (sentTo tr i) s, None) \<and>
    (\<exists>rest. accepted tr i = concat (sentTo tr i) @ rest)"
proof -
  let ?bs = "map (map Some) (sentTo tr i)"
  have inv: "client_inv tr r" "r_batchSize r = n" using client_inv_run [OF assms(1) refl assms(2)] by simp_all
  have srv: "srv_handler srv = h" "MaxBatchSize (srv_cfg srv) = limit"
    using assms(2,3,4) by (auto simp: NewServer_def)
  have "list_all (\<lambda>b. int (length b) \<le> MaxBatchSize (srv_cfg srv)) ?bs" using inv assms(3) unfolding client_inv_def srv by (fastforce simp: list_all_iff)
  moreover have "served (srv_handler srv) ?bs s = Some (fold (\<lambda>b s. fst (h s b)) ?bs s)"
    unfolding srv by (rule served_all) (rule assms(5))
  ultimately have "StreamMessages srv (map RecvBatch ?bs) s = (fold (\<lambda>b s. fst (h s b)) ?bs s, None)"
    using StreamMessages_served [of srv ?bs s _ "[]"] by simp
  moreover have "\<exists>rest. accepted tr i = concat (sentTo tr i) @ rest" using inv by (auto simp: client_inv_def)
  ultimately show ?thesis by (simp add: comp_def fold_map)
qed

theorem client_stream_served_witness:
  "\<exists>tr r srv. crun demoRouter tr r \<and> NewServer (Some (\<lambda>s b. (s + length b, None))) \<lparr>MaxBatchSize = 5000\<rparr> = Some srv \<and>
     StreamMessages srv (map (\<lambda>b. RecvBatch (map Some b)) (sentTo tr 0)) 0 = (2, None)"
proof -
  obtain tr r where r: "crun demoRouter tr r" "sentTo tr 0 = [[demoEnv 7], [demoEnv 8]]" by (rule demo_run_client)
  let ?h = "\<lambda>s b. (s + length b :: nat, None)"
  obtain srv where srv: "NewServer (Some ?h) \<lparr>MaxBatchSize = 5000\<rparr> = Some srv" by (simp add: NewServer_def)
  from client_stream_served [OF r(1) [unfolded demoRouter_def] _ _ srv, of 0 0] r srv show ?thesis by auto
qed

section \<open>From request identifiers to answers\<close>






section \<open>From a request over HTTP to the ledger and back\<close>

lemma completeResult_sel [simp]:
  "res_Success (completeResult r env) = res_Success r" "res_ErrorCode (completeResult r env) = res_ErrorCode r"
  "res_ErrorMsg (completeResult r env) = res_ErrorMsg r" "res_Payload (completeResult r env) = res_Payload r"
  by (simp_all add: completeResult_def Let_def)


lemma executeEnvelope_sel [simp]:
  "env_Payload (executeEnvelope req rid) = BigEndian_PutUint64 (er_Amount req)" "amount_of (executeEnvelope req rid) = er_Amount req"
  "env_TxId (executeEnvelope req rid) = FormatUint (unat rid)"
  by (simp_all add: executeEnvelope_def amount_of_def)



section \<open>From concurrent senders to the balance\<close>

text \<open>The wallet as the handler of a mailbox; the \<^verbatim>\<open>i\<close>-th message is handled at time \<^verbatim>\<open>clock i\<close>.\<close>

definition walletHandler :: "'st Store \<Rightarrow> (nat \<Rightarrow> int64) \<Rightarrow> (nat \<times> 'st \<times> BusinessActor) handler" where
  "walletHandler S clock x env = (case x of (i, st, b) \<Rightarrow> (case Handle S st b (clock i) env of (r, b', st', sp) \<Rightarrow> (Some r, Suc i, st', b')))"

lemma walletHandler_step:
  "Handle S st b (clock i) env = (r, b', st', sp) \<Longrightarrow> walletHandler S clock (i, st, b) env = (Some r, Suc i, st', b')"
  by (simp add: walletHandler_def)

lemma applied_completeResult [simp]: "applied (completeResult r env) = applied r"
  by (simp add: applied_def)

lemma run_walletHandler:
  assumes "run_handler (walletHandler S clock) (i, st, b) ms = (rs, i', st', b')" and "0 \<le> sint (ba_balance b)"
  shows "length rs = length ms \<and> 0 \<le> sint (ba_balance b') \<and> sint (ba_balance b') =
    sint (ba_balance b) + (\<Sum>(env, r) \<leftarrow> zip ms rs. if applied r then sint (amount_of env) else 0)"
  using assms
proof (induction ms arbitrary: i st b rs)
  case (Cons m ms)
  obtain r b1 st1 sp where h: "Handle S st b (clock i) m = (r, b1, st1, sp)" by (rule prod_cases4)
  obtain rs1 where r: "run_handler (walletHandler S clock) (Suc i, st1, b1) ms = (rs1, i', st', b')" "rs = completeResult r m # rs1"
    using Cons.prems(1) walletHandler_step [of S st b clock i m, OF h] by (auto split: prod.splits)
  have one: "Handle_all S st b [(clock i, m)] = ([r], b1, st1)" by (simp add: h)
  have b1: "0 \<le> sint (ba_balance b1)" "sint (ba_balance b1) = sint (ba_balance b) + (if applied r then sint (amount_of m) else 0)"
    using Handle_all_balance [OF one Cons.prems(2)] by (auto split: if_splits)
  show ?case using Cons.IH [OF r(1) b1(1)] b1(2) by (simp add: r(2))
qed simp

text \<open>
  C13: Concurrent requests to one wallet add up. In every run of an actor's mailbox with the wallet as
  its handler, whatever the interleaving of the goroutines that send and whatever the store answers, the
  messages are handled in the order in which they entered the queue, each gets one result, the
  balance is never negative, and it is the exact sum of the amounts of the messages whose results
  say that they were applied.
\<close>

theorem concurrent_requests_add_up:
  assumes "memory_ok a" and "mrun (walletHandler S clock) (boot (New (0, st, b) a)) tr s"
    and "lp s \<noteq> Exited" and "hstate (act s) = (i, st', b')" and "0 \<le> sint (ba_balance b)"
  shows "(\<exists>rest. map Some (enqueued tr) = map Some (handled tr) @ rest) \<and> length (emitted tr) = length (handled tr) \<and>
    0 \<le> sint (ba_balance b') \<and> sint (ba_balance b') = sint (ba_balance b) +
      (\<Sum>(env, r) \<leftarrow> zip (handled tr) (emitted tr). if applied r then sint (BigEndian_Uint64 (env_Payload env) :: int64) else 0)"
proof -
  note i = run_inv_run [OF assms(2,1)]
  have serial: "serial (walletHandler S clock) (0, st, b) s tr" using i by (auto simp: run_inv_def)
  have fifo: "\<exists>rest. map Some (enqueued tr) = map Some (handled tr) @ rest"
    using i by (auto simp: run_inv_def fifo_def)
  have "run_handler (walletHandler S clock) (0, st, b) (handled tr) = (emitted tr, i, st', b')"
    using serial assms(3,4) by (simp add: serial_def prod_eq_iff)
  from run_walletHandler [OF this assms(5)] fifo show ?thesis unfolding amount_of_def by blast
qed

definition depositMem :: "(nat \<times> mem_db CassandraStore \<times> BusinessActor) Actor" where
  "depositMem = \<lparr>heap = (\<lambda>_. emptyEnvelope), pool = {}, foreign = {}, fresh = 0, processMailboxPending = 0,
     processHandleDurationNsSum = 0, processHandleDurationNsCount = 0, head = 0, tail = 0, status = statusInit, wake = False,
     ctxDone = False, hstate = (0, demo_st, newBusinessActor 1 7 3), shutdownFn = None\<rparr>"

definition depositSchedule :: "choice list" where
  "depositSchedule = [AStart, ASend 0 (demo_env ''a'' 100)] @ replicate 7 (AThread 0) @ replicate 6 ALoop"

lemma deposit_run:
  "\<exists>tr s r. exec (walletHandler (cassandra_Store mem_session) (\<lambda>_. 3)) depositSchedule
      (boot (New (0, demo_st, newBusinessActor 1 7 3) depositMem)) = Some (tr, s) \<and> lp s \<noteq> Exited \<and> handled tr = [demo_env ''a'' 100] \<and>
     emitted tr = [r] \<and> applied r \<and> hstate (act s) = (1, demo_st1, committed (newBusinessActor 1 7 3) 3 (demo_env ''a'' 100))"
proof -
  obtain r where h: "Handle (cassandra_Store mem_session) demo_st (newBusinessActor 1 7 3) 3 (demo_env ''a'' 100) =
     (r, committed (newBusinessActor 1 7 3) 3 (demo_env ''a'' 100), demo_st1, [])" "res_Success r" using demo_handle by blast
  have "ba_version (committed (newBusinessActor 1 7 3) 3 (demo_env ''a'' 100)) \<noteq> 0"
    by (simp add: committed_def Let_def addTxID_def newBusinessActor_def)
  then have "committed (newBusinessActor 1 7 3) 3 (demo_env ''a'' 100) \<noteq> (newBusinessActor 1 7 3)\<lparr>ba_lastActive := 3\<rparr>"
    by (metis BusinessActor.select_convs(4) BusinessActor.update_convs(9) newBusinessActor_def)
  then have "applied r" using Handle_applied [OF h(1)] by blast
  then show ?thesis
    by (simp add: depositSchedule_def replicate_numeral boot_def New_def newEnvelope_def depositMem_def emptyEnvelope_def Send_def
       accepting_def Start_def GetEnvelope_def PutEnvelope_def IsDead_def walletHandler_step [of _ _ _ "\<lambda>_. 3", OF h(1)])
qed

theorem concurrent_requests_add_up_witness:
  "\<exists>tr s i st' b'. mrun (walletHandler (cassandra_Store mem_session) (\<lambda>_. 3)) (boot (New (0, demo_st, newBusinessActor 1 7 3) depositMem)) tr s \<and>
     hstate (act s) = (i, st', b') \<and> handled tr = [demo_env ''a'' 100] \<and> sint (ba_balance b') = 100"
proof -
  let ?S = "cassandra_Store mem_session" and ?b = "newBusinessActor 1 7 3"
  obtain tr s r where x: "exec (walletHandler ?S (\<lambda>_. 3)) depositSchedule (boot (New (0, demo_st, ?b) depositMem)) = Some (tr, s)"
    "lp s \<noteq> Exited" "handled tr = [demo_env ''a'' 100]" "emitted tr = [r]" "applied r"
    "hstate (act s) = (1, demo_st1, committed ?b 3 (demo_env ''a'' 100))" using deposit_run by blast
  have "memory_ok depositMem" by (simp add: memory_ok_def depositMem_def)
  from concurrent_requests_add_up [OF this exec_mrun [OF x(1)] x(2,6)]
  have "sint (ba_balance (committed ?b 3 (demo_env ''a'' 100))) = 100"
    unfolding x(3,4) using x(5) by (simp add: newBusinessActor_def demo_env_def)
  with exec_mrun [OF x(1)] x(3,6) show ?thesis by blast
qed

end
